(* ===== verification/Prelude.thy ===== *)
theory Prelude
  imports Complex_Main "HOL-Library.AList" "HOL-Library.Product_Lexorder"
    "HOL-Library.List_Lexorder" "HOL-Library.Char_ord" "HOL-Library.Multiset"
begin

text \<open>
  Vocabulary and lemmas that every component of the development shares: instants and
  durations, results of fallible calls, Go maps as association lists, and what
  \<^verbatim>\<open>slices.SortFunc\<close> guarantees.
\<close>

section \<open>Time\<close>

text \<open>
  A \<^verbatim>\<open>time.Time\<close> is the number of nanoseconds since the zero time of package time
  (January 1, year 1, 00:00:00 UTC), so \<^verbatim>\<open>t.IsZero()\<close> is \<open>t = 0\<close>,
  \<^verbatim>\<open>t.After(u)\<close> is \<open>u < t\<close> and \<^verbatim>\<open>t.Add(d)\<close> is \<open>t + d\<close>. A
  \<^verbatim>\<open>time.Duration\<close> is a number of nanoseconds.
\<close>

type_synonym time = int
type_synonym duration = int

abbreviation (input) nanosecond :: duration where "nanosecond \<equiv> 1"
abbreviation (input) millisecond :: duration where "millisecond \<equiv> 1000000"
abbreviation (input) second :: duration where "second \<equiv> 1000000000"
abbreviation (input) minute :: duration where "minute \<equiv> 60000000000"

abbreviation (input) IsZero :: "time \<Rightarrow> bool" where "IsZero t \<equiv> t = 0"
abbreviation (input) After :: "time \<Rightarrow> time \<Rightarrow> bool" where "After t u \<equiv> u < t"
abbreviation (input) Before :: "time \<Rightarrow> time \<Rightarrow> bool" where "Before t u \<equiv> t < u"

section \<open>Integers of 64 bits\<close>

text \<open>The value an \<^verbatim>\<open>int\<close> or \<^verbatim>\<open>int64\<close> holds after arithmetic on it.\<close>

definition wrap64 :: "int \<Rightarrow> int" where
  "wrap64 x = (x + 2 ^ 63) mod 2 ^ 64 - 2 ^ 63"

lemma wrap64_id: "- (2 ^ 63) \<le> x \<Longrightarrow> x < 2 ^ 63 \<Longrightarrow> wrap64 x = x"
  by (simp add: wrap64_def)

lemma wrap64_over: "2 ^ 63 \<le> x \<Longrightarrow> x < 2 ^ 64 + 2 ^ 63 \<Longrightarrow> wrap64 x = x - 2 ^ 64"
proof -
  assume "2 ^ 63 \<le> x" "x < 2 ^ 64 + 2 ^ 63"
  then have "(x + 2 ^ 63 - 2 ^ 64) mod 2 ^ 64 = x + 2 ^ 63 - 2 ^ 64" by (intro mod_pos_pos_trivial) auto
  then have "(x + 2 ^ 63) mod 2 ^ 64 = x + 2 ^ 63 - 2 ^ 64" by (simp only: minus_mod_self2)
  then show ?thesis by (simp add: wrap64_def)
qed

section \<open>How a call ends\<close>

text \<open>A call that can fail or panic: what it returns, the error it returns, or a panic that
  unwinds it.\<close>

datatype 'a go_result = Returns 'a | Fails string | Panics

section \<open>Automation collections\<close>

named_theorems store_simps \<open>what an operation of the store does to the rows it holds\<close>
named_theorems wf_intros \<open>operations that keep the well-formedness of the store\<close>

section \<open>Go maps as association lists\<close>

text \<open>
  A Go map that the code ranges over is an association list with distinct keys; the list
  order stands for the iteration order. \<^const>\<open>AList.update\<close> is the assignment
  \<^verbatim>\<open>m[k] = v\<close>.
\<close>

lemma map_of_update [simp]: "map_of (AList.update k v al) = (map_of al)(k \<mapsto> v)"
  by (rule update_conv')

lemma distinct_keys_update [simp]:
  "distinct (map fst al) \<Longrightarrow> distinct (map fst (AList.update k v al))"
  by (rule distinct_update)

lemma keys_update [simp]: "fst ` set (AList.update k v al) = insert k (fst ` set al)"
  by (metis dom_map_of_conv_image_fst map_of_update dom_fun_upd option.distinct(1))

lemma map_of_iff_mem:
  "distinct (map fst al) \<Longrightarrow> map_of al k = Some v \<longleftrightarrow> (k, v) \<in> set al"
  by (rule map_of_eq_Some_iff)

section \<open>Sorting\<close>

text \<open>
  \<^verbatim>\<open>slices.SortFunc\<close> is not stable and promises only a sorted permutation. Wherever
  the comparison key tells the elements apart that determines the result, so
  \<^const>\<open>sort_key\<close> models it.
\<close>

lemma sort_func_unique:
  assumes "mset ys = mset xs" "sorted (map f ys)" "inj_on f (set xs)"
  shows "ys = sort_key f xs"
  using assms by (metis properties_for_sort_key insort_key_left_comm mset_eq_setD
      set_sort sort_key_inj_key_eq)

lemma sorted_wrt_take_drop:
  assumes "sorted_wrt P xs" "p \<in> set (take n xs)" "r \<in> set (drop n xs)"
  shows "P p r"
  using assms by (metis append_take_drop_id sorted_wrt_append)

lemma strict_sort_key:
  assumes "distinct (map f xs)"
  shows "sorted_wrt (\<lambda>a b. f a < f b) (sort_key f xs)"
proof -
  have "distinct (map f (sort_key f xs))"
    using assms by (metis distinct_map distinct_sort set_sort)
  moreover have "sorted (map f (sort_key f xs))" by simp
  ultimately have "sorted_wrt (<) (map f (sort_key f xs))"
    by (simp add: strict_sorted_iff)
  then show ?thesis by (simp add: sorted_wrt_map)
qed

lemma set_take_drop_diff:
  assumes "distinct xs"
  shows "set xs - set (take n xs) = set (drop n xs)"
proof -
  have "set xs = set (take n xs) \<union> set (drop n xs)"
    by (metis append_take_drop_id set_append)
  moreover have "set (take n xs) \<inter> set (drop n xs) = {}"
    using set_take_disj_set_drop_if_distinct[OF assms, of n n] by simp
  ultimately show ?thesis by blast
qed

end
