(* ===== verification/Driver.thy ===== *)
theory Driver
  imports Prelude
begin

text \<open>
  The storage contract of \<^verbatim>\<open>internal/driver/driver.go\<close>: the data every driver
  exchanges with the client, the sentinel errors, and what \<^verbatim>\<open>job.go\<close> says of the
  states of a job. The drivers themselves are in \<^theory_text>\<open>MemDriver\<close> and
  \<^theory_text>\<open>PgDriver\<close>.
\<close>

section \<open>JSON values\<close>

text \<open>
  A \<^verbatim>\<open>json.RawMessage\<close> is represented by what package encoding/json reads it as:
  a JSON value, or bytes it refuses.
\<close>

datatype json =
    JNull
  | JBool bool
  | JNum string
  | JStr string
  | JArr "json list"
  | JObj "(string \<times> json) list"

datatype raw_message = Valid json | Invalid string

text \<open>\<^verbatim>\<open>json.Unmarshal\<close> into a \<^verbatim>\<open>[]json.RawMessage\<close>: an array gives its
  elements, null gives the nil slice, anything else is an error.\<close>

fun unmarshal_list :: "raw_message \<Rightarrow> json list option" where
  "unmarshal_list (Valid (JArr js)) = Some js"
| "unmarshal_list (Valid JNull) = Some []"
| "unmarshal_list _ = None"

section \<open>Job states\<close>

datatype job_state =
  Available | Scheduled | Running | Retryable | Completed | Cancelled | Dead

fun state_name :: "job_state \<Rightarrow> string" where
  "state_name Available = ''available''"
| "state_name Scheduled = ''scheduled''"
| "state_name Running = ''running''"
| "state_name Retryable = ''retryable''"
| "state_name Completed = ''completed''"
| "state_name Cancelled = ''cancelled''"
| "state_name Dead = ''dead''"

lemma state_name_inj [simp]: "state_name a = state_name b \<longleftrightarrow> a = b"
  by (cases a; cases b) simp_all

lemma state_name_nonempty [simp]: "state_name a \<noteq> []"
  by (cases a) simp_all

text \<open>The states no operation but an operator's leaves again.\<close>

fun terminal :: "job_state \<Rightarrow> bool" where
  "terminal Completed = True"
| "terminal Cancelled = True"
| "terminal Dead = True"
| "terminal _ = False"

section \<open>Rows, leases and parameters\<close>

record job_row =
  ID :: int
  Kind :: string
  Queue :: string
  Args :: raw_message
  State :: job_state
  Attempt :: int
  MaxAttempts :: int
  Errors :: raw_message
  ScheduledAt :: time
  LeasedUntil :: "time option"
  CreatedAt :: time
  FinalizedAt :: "time option"
  UniqueKey :: string

record lease =
  lease_ID :: int
  lease_Attempt :: int

record insert_params =
  ip_Kind :: string
  ip_Queue :: string
  ip_Args :: raw_message
  ip_ScheduledAt :: time
  ip_UniqueKey :: string

record queue_depth =
  qd_Queue :: string
  qd_State :: string
  qd_Count :: int

record queue_age =
  qa_Queue :: string
  qa_AgeSeconds :: real

record stats =
  Depths :: "queue_depth list"
  Oldest :: "queue_age list"

record list_params =
  lp_Queue :: string
  lp_State :: string
  lp_Limit :: int

definition DefaultLeaseDuration :: duration where
  "DefaultLeaseDuration = minute"

section \<open>Errors\<close>

text \<open>
  The sentinels of the contract. An error built with \<^verbatim>\<open>fmt.Errorf("...: %w", err)\<close>
  is represented by the sentinel it wraps, which is all that \<^verbatim>\<open>errors.Is\<close> sees;
  an error around no sentinel is \<open>ErrOther\<close> with its text.
\<close>

datatype driver_error =
    ErrInvalidTransition
  | ErrNotFound
  | ErrTxUnsupported
  | ErrLeaseLost
  | ErrDuplicateJob
  | ErrOther string

section \<open>Well-formed rows\<close>

text \<open>
  What the contract promises of every stored row: a lease exactly while running, a
  finalization time exactly in a terminal state, an errors array that is an array, an
  attempt that a claim has counted while running.
\<close>

definition row_wf :: "job_row \<Rightarrow> bool" where
  "row_wf r \<longleftrightarrow>
     (LeasedUntil r \<noteq> None \<longleftrightarrow> State r = Running) \<and>
     (FinalizedAt r \<noteq> None \<longleftrightarrow> terminal (State r)) \<and>
     unmarshal_list (Errors r) \<noteq> None \<and>
     0 \<le> Attempt r \<and> (State r = Running \<longrightarrow> 1 \<le> Attempt r)"

section \<open>What a call does to the rows\<close>

text \<open>
  The abstract store is the finite map from ids to rows. These definitions state the
  effect the contract documents for each method, on that map alone; the drivers are
  proved to implement them.
\<close>

type_synonym rows = "int \<Rightarrow> job_row option"

fun add_error :: "json \<Rightarrow> raw_message \<Rightarrow> raw_message" where
  "add_error j (Valid (JArr js)) = Valid (JArr (js @ [j]))"
| "add_error j (Valid JNull) = Valid (JArr [j])"
| "add_error j m = m"

definition completed_row :: "time \<Rightarrow> job_row \<Rightarrow> job_row" where
  "completed_row now r = r\<lparr>State := Completed, FinalizedAt := Some now, LeasedUntil := None\<rparr>"

definition dead_row :: "time \<Rightarrow> json \<Rightarrow> job_row \<Rightarrow> job_row" where
  "dead_row now j r = r\<lparr>State := Dead, FinalizedAt := Some now, LeasedUntil := None,
     Errors := add_error j (Errors r)\<rparr>"

definition cancelled_row :: "time \<Rightarrow> json \<Rightarrow> job_row \<Rightarrow> job_row" where
  "cancelled_row now j r = r\<lparr>State := Cancelled, FinalizedAt := Some now, LeasedUntil := None,
     Errors := add_error j (Errors r)\<rparr>"

definition retryable_row :: "time \<Rightarrow> json \<Rightarrow> job_row \<Rightarrow> job_row" where
  "retryable_row t j r = r\<lparr>State := Retryable, ScheduledAt := t, LeasedUntil := None,
     Errors := add_error j (Errors r)\<rparr>"

definition snoozed_row :: "time \<Rightarrow> job_row \<Rightarrow> job_row" where
  "snoozed_row t r = r\<lparr>State := Scheduled, ScheduledAt := t, LeasedUntil := None,
     Attempt := max (Attempt r - 1) 0\<rparr>"

text \<open>The guard of every Mark method: an unknown id, any state but running, an attempt
  that has moved on, and only then the change.\<close>

definition guarded :: "lease \<Rightarrow> (job_row \<Rightarrow> job_row) \<Rightarrow> rows \<Rightarrow> (driver_error + unit) \<times> rows" where
  "guarded l change m =
     (case m (lease_ID l) of
        None \<Rightarrow> (Inl ErrNotFound, m)
      | Some r \<Rightarrow>
          if State r \<noteq> Running then (Inl ErrInvalidTransition, m)
          else if Attempt r \<noteq> lease_Attempt l then (Inl ErrLeaseLost, m)
          else (Inr (), m(lease_ID l \<mapsto> change r)))"

text \<open>What a fetch may take: \<open>limit\<close> of the eligible rows, none of the rest before any of
  them in the order of the claim.\<close>

definition eligible_rows :: "(job_row \<Rightarrow> bool) \<Rightarrow> rows \<Rightarrow> job_row set" where
  "eligible_rows keep m = {r. \<exists>k. m k = Some r \<and> keep r}"

definition picks :: "(job_row \<Rightarrow> bool) \<Rightarrow> (job_row \<Rightarrow> time) \<Rightarrow> int \<Rightarrow> rows \<Rightarrow> job_row list \<Rightarrow> bool" where
  "picks keep order limit m picked \<longleftrightarrow>
     distinct (map ID picked) \<and>
     set picked \<subseteq> eligible_rows keep m \<and>
     int (length picked) = min limit (int (card (eligible_rows keep m))) \<and>
     (\<forall>p \<in> set picked. \<forall>r \<in> eligible_rows keep m - set picked. (order p, ID p) < (order r, ID r))"

definition change_rows :: "(job_row \<Rightarrow> job_row) \<Rightarrow> job_row list \<Rightarrow> rows \<Rightarrow> rows" where
  "change_rows change picked m =
     (\<lambda>k. if k \<in> ID ` set picked then map_option change (m k) else m k)"

text \<open>A heartbeat: every named lease that still holds its row is pushed out, no other row
  changes.\<close>

definition holds_lease :: "lease list \<Rightarrow> int \<Rightarrow> job_row \<Rightarrow> bool" where
  "holds_lease leases k r \<longleftrightarrow>
     State r = Running \<and> (\<exists>l \<in> set leases. lease_ID l = k \<and> lease_Attempt l = Attempt r)"

definition extended :: "time \<Rightarrow> lease list \<Rightarrow> rows \<Rightarrow> rows" where
  "extended until leases m =
     (\<lambda>k. map_option (\<lambda>r. if holds_lease leases k r then r\<lparr>LeasedUntil := Some until\<rparr> else r) (m k))"

lemmas row_defs = completed_row_def dead_row_def cancelled_row_def retryable_row_def snoozed_row_def

lemma unmarshal_add_error [simp]:
  "unmarshal_list m = Some js \<Longrightarrow> add_error j m = Valid (JArr (js @ [j]))"
  by (induction m rule: unmarshal_list.induct) auto

end
