(* ===== verification/MemDriver.thy ===== *)
theory MemDriver
  imports Driver
begin

text \<open>
  The in-memory driver of \<^verbatim>\<open>internal/memdriver/memdriver.go\<close>: a mutex-guarded map
  of rows. Each definition is the body of one method between \<^verbatim>\<open>d.mu.Lock()\<close> and
  \<^verbatim>\<open>d.mu.Unlock()\<close>; a method returns its result and the new store. The readings of
  \<^verbatim>\<open>time.Now()\<close> are arguments. Where a method releases the mutex and takes it again,
  the argument \<open>gap\<close> is what other goroutines do to the store in between.
\<close>

section \<open>The states a job waits in\<close>

fun waiting :: "job_state \<Rightarrow> bool" where
  "waiting Available = True"
| "waiting Retryable = True"
| "waiting Scheduled = True"
| "waiting _ = False"

fun uniqueActive :: "job_state \<Rightarrow> bool" where
  "uniqueActive Available = True"
| "uniqueActive Scheduled = True"
| "uniqueActive Retryable = True"
| "uniqueActive Running = True"
| "uniqueActive _ = False"

fun counted :: "job_state \<Rightarrow> bool" where
  "counted Available = True"
| "counted Scheduled = True"
| "counted Retryable = True"
| "counted Running = True"
| "counted Dead = True"
| "counted _ = False"

fun cancellable :: "job_state \<Rightarrow> bool" where
  "cancellable Available = True"
| "cancellable Scheduled = True"
| "cancellable Retryable = True"
| "cancellable Dead = True"
| "cancellable _ = False"

lemma waiting_not_running [simp]: "waiting st \<Longrightarrow> st \<noteq> Running"
  by (cases st) simp_all

lemma waiting_not_terminal [simp]: "waiting st \<Longrightarrow> \<not> terminal st"
  by (cases st) simp_all

lemma uniqueActive_iff: "uniqueActive st \<longleftrightarrow> \<not> terminal st"
  by (cases st) simp_all

lemma cancellable_not_running [simp]: "cancellable st \<Longrightarrow> st \<noteq> Running"
  by (cases st) simp_all

section \<open>The store\<close>

record mem_store =
  nextID :: int
  jobs :: "(int \<times> job_row) list"

definition mem_New :: mem_store where
  "mem_New = \<lparr>nextID = 0, jobs = []\<rparr>"

abbreviation row_of :: "mem_store \<Rightarrow> int \<Rightarrow> job_row option" where
  "row_of s \<equiv> map_of (jobs s)"

abbreviation put_row :: "job_row \<Rightarrow> mem_store \<Rightarrow> mem_store" where
  "put_row r s \<equiv> s\<lparr>jobs := AList.update (ID r) r (jobs s)\<rparr>"

section \<open>Inserting\<close>

definition jobFromParams :: "int \<Rightarrow> insert_params \<Rightarrow> time \<Rightarrow> job_row" where
  "jobFromParams jid params now =
     (let scheduledAt = (if IsZero (ip_ScheduledAt params) then now else ip_ScheduledAt params);
          state = (if After scheduledAt now then Scheduled else Available)
      in \<lparr>ID = jid, Kind = ip_Kind params, Queue = ip_Queue params, Args = ip_Args params,
          State = state, Attempt = 0, MaxAttempts = 25, Errors = Valid (JArr []),
          ScheduledAt = scheduledAt, LeasedUntil = None, CreatedAt = now,
          FinalizedAt = None, UniqueKey = ip_UniqueKey params\<rparr>)"

text \<open>\<open>extra\<close> is \<^verbatim>\<open>pending[:i]\<close>, whose entries are all filled in.\<close>

definition uniqueConflict ::
  "mem_store \<Rightarrow> string \<Rightarrow> string \<Rightarrow> string \<Rightarrow> job_row list \<Rightarrow> bool" where
  "uniqueConflict s queue kind key extra =
     (if key = [] then False
      else if \<exists>row \<in> set (map snd (jobs s)).
          UniqueKey row = key \<and> Queue row = queue \<and> Kind row = kind \<and> uniqueActive (State row)
        then True
      else (\<exists>row \<in> set extra. UniqueKey row = key \<and> Queue row = queue \<and> Kind row = kind))"

definition mem_Insert ::
  "time \<Rightarrow> insert_params \<Rightarrow> mem_store \<Rightarrow> (driver_error + job_row) \<times> mem_store" where
  "mem_Insert now params s =
     (if uniqueConflict s (ip_Queue params) (ip_Kind params) (ip_UniqueKey params) []
      then (Inl ErrDuplicateJob, s)
      else
        let s1 = s\<lparr>nextID := nextID s + 1\<rparr>;
            row = jobFromParams (nextID s1) params now
        in (Inr row, put_row row s1))"

text \<open>The first loop of \<^verbatim>\<open>InsertMany\<close>: the rows to store, or the conflict that
  refuses the whole batch. \<open>pending\<close> holds the rows accepted so far.\<close>

fun pendingRows ::
  "time \<Rightarrow> mem_store \<Rightarrow> job_row list \<Rightarrow> insert_params list \<Rightarrow> driver_error + job_row list" where
  "pendingRows now s pending [] = Inr pending"
| "pendingRows now s pending (params # batch) =
     (if uniqueConflict s (ip_Queue params) (ip_Kind params) (ip_UniqueKey params) pending
      then Inl ErrDuplicateJob
      else pendingRows now s
        (pending @ [jobFromParams (nextID s + int (length pending) + 1) params now]) batch)"

definition mem_InsertMany ::
  "time \<Rightarrow> insert_params list \<Rightarrow> mem_store \<Rightarrow> (driver_error + job_row list) \<times> mem_store" where
  "mem_InsertMany now batch s =
     (if batch = [] then (Inr [], s)
      else case pendingRows now s [] batch of
        Inl e \<Rightarrow> (Inl e, s)
      | Inr pending \<Rightarrow>
          let s1 = fold put_row pending s
          in (Inr pending, s1\<lparr>nextID := nextID s1 + int (length batch)\<rparr>))"

definition mem_InsertTx :: "insert_params \<Rightarrow> mem_store \<Rightarrow> (driver_error + job_row) \<times> mem_store" where
  "mem_InsertTx params s = (Inl ErrTxUnsupported, s)"

definition mem_InsertManyTx ::
  "insert_params list \<Rightarrow> mem_store \<Rightarrow> (driver_error + job_row list) \<times> mem_store" where
  "mem_InsertManyTx batch s = (Inl ErrTxUnsupported, s)"

section \<open>Claiming\<close>

definition selectRows ::
  "(job_row \<Rightarrow> time) \<Rightarrow> (job_row \<Rightarrow> bool) \<Rightarrow> mem_store \<Rightarrow> job_row list" where
  "selectRows order keep s =
     sort_key (\<lambda>row. (order row, ID row)) (filter keep (map snd (jobs s)))"

definition byScheduledAt :: "job_row \<Rightarrow> time" where
  "byScheduledAt row = ScheduledAt row"

definition byLeasedUntil :: "job_row \<Rightarrow> time" where
  "byLeasedUntil row = (case LeasedUntil row of None \<Rightarrow> 0 | Some t \<Rightarrow> t)"

definition due :: "string \<Rightarrow> time \<Rightarrow> job_row \<Rightarrow> bool" where
  "due queue now row \<longleftrightarrow> waiting (State row) \<and> Queue row = queue \<and> \<not> After (ScheduledAt row) now"

definition expired :: "time \<Rightarrow> job_row \<Rightarrow> bool" where
  "expired now row \<longleftrightarrow> State row = Running \<and>
     (case LeasedUntil row of None \<Rightarrow> False | Some t \<Rightarrow> \<not> After t now)"

definition claimRow :: "time \<Rightarrow> duration \<Rightarrow> job_row \<Rightarrow> job_row" where
  "claimRow now leaseFor row =
     row\<lparr>State := Running, Attempt := Attempt row + 1, LeasedUntil := Some (now + leaseFor)\<rparr>"

definition reclaimRow :: "time \<Rightarrow> duration \<Rightarrow> job_row \<Rightarrow> job_row" where
  "reclaimRow now leaseFor row = row\<lparr>LeasedUntil := Some (now + leaseFor)\<rparr>"

text \<open>The loop both fetches run: stop once \<open>limit\<close> rows are taken, otherwise change the
  stored row and keep a copy.\<close>

fun takeRows ::
  "(job_row \<Rightarrow> job_row) \<Rightarrow> int \<Rightarrow> job_row list \<Rightarrow> job_row list \<Rightarrow> mem_store \<Rightarrow> job_row list \<times> mem_store" where
  "takeRows change limit taken [] s = (taken, s)"
| "takeRows change limit taken (row # rows) s =
     (if int (length taken) = limit then (taken, s)
      else takeRows change limit (taken @ [change row]) rows (put_row (change row) s))"

definition mem_FetchAvailable ::
  "time \<Rightarrow> string \<Rightarrow> duration \<Rightarrow> int \<Rightarrow> mem_store \<Rightarrow> (driver_error + job_row list) \<times> mem_store" where
  "mem_FetchAvailable now queue leaseFor limit s =
     (let (claimed, s') =
        takeRows (claimRow now leaseFor) limit [] (selectRows byScheduledAt (due queue now) s) s
      in (Inr claimed, s'))"

definition mem_FetchExpired ::
  "time \<Rightarrow> duration \<Rightarrow> int \<Rightarrow> mem_store \<Rightarrow> (driver_error + job_row list) \<times> mem_store" where
  "mem_FetchExpired now leaseFor limit s =
     (let (reclaimed, s') =
        takeRows (reclaimRow now leaseFor) limit [] (selectRows byLeasedUntil (expired now) s) s
      in (Inr reclaimed, s'))"

fun extendLoop :: "time \<Rightarrow> lease list \<Rightarrow> mem_store \<Rightarrow> mem_store" where
  "extendLoop until [] s = s"
| "extendLoop until (held # leases) s =
     (case row_of s (lease_ID held) of
        None \<Rightarrow> extendLoop until leases s
      | Some row \<Rightarrow>
          if State row \<noteq> Running \<or> Attempt row \<noteq> lease_Attempt held
          then extendLoop until leases s
          else extendLoop until leases
            (s\<lparr>jobs := AList.update (lease_ID held) (row\<lparr>LeasedUntil := Some until\<rparr>) (jobs s)\<rparr>))"

definition mem_ExtendLeases ::
  "time \<Rightarrow> lease list \<Rightarrow> duration \<Rightarrow> mem_store \<Rightarrow> (driver_error + unit) \<times> mem_store" where
  "mem_ExtendLeases now leases leaseFor s = (Inr (), extendLoop (now + leaseFor) leases s)"

section \<open>Finishing an attempt\<close>

fun appendError :: "job_row \<Rightarrow> raw_message option \<Rightarrow> driver_error + job_row" where
  "appendError row None = Inr row"
| "appendError row (Some errDetail) =
     (case unmarshal_list (Errors row) of
        None \<Rightarrow> Inl (ErrOther ''decode errors array'')
      | Some list \<Rightarrow>
          (case errDetail of
             Invalid _ \<Rightarrow> Inl (ErrOther ''encode errors array'')
           | Valid j \<Rightarrow> Inr (row\<lparr>Errors := Valid (JArr (list @ [j]))\<rparr>)))"

definition transition ::
  "lease \<Rightarrow> (job_row \<Rightarrow> driver_error + job_row) \<Rightarrow> mem_store \<Rightarrow> (driver_error + unit) \<times> mem_store" where
  "transition l app s =
     (case row_of s (lease_ID l) of
        None \<Rightarrow> (Inl ErrNotFound, s)
      | Some row \<Rightarrow>
          if State row \<noteq> Running then (Inl ErrInvalidTransition, s)
          else if Attempt row \<noteq> lease_Attempt l then (Inl ErrLeaseLost, s)
          else case app row of
            Inl e \<Rightarrow> (Inl e, s)
          | Inr row' \<Rightarrow>
              (Inr (), s\<lparr>jobs := AList.update (lease_ID l) (row'\<lparr>LeasedUntil := None\<rparr>) (jobs s)\<rparr>))"

definition finalizeRow :: "time \<Rightarrow> job_state \<Rightarrow> raw_message option \<Rightarrow> job_row \<Rightarrow> driver_error + job_row" where
  "finalizeRow now state errDetail row =
     (case appendError row errDetail of
        Inl e \<Rightarrow> Inl e
      | Inr row' \<Rightarrow> Inr (row'\<lparr>State := state, FinalizedAt := Some now\<rparr>))"

definition finalize ::
  "time \<Rightarrow> lease \<Rightarrow> job_state \<Rightarrow> raw_message option \<Rightarrow> mem_store \<Rightarrow> (driver_error + unit) \<times> mem_store" where
  "finalize now l state errDetail s = transition l (finalizeRow now state errDetail) s"

definition mem_MarkCompleted :: "time \<Rightarrow> lease \<Rightarrow> mem_store \<Rightarrow> (driver_error + unit) \<times> mem_store" where
  "mem_MarkCompleted now l s = finalize now l Completed None s"

definition mem_MarkDead ::
  "time \<Rightarrow> lease \<Rightarrow> raw_message option \<Rightarrow> mem_store \<Rightarrow> (driver_error + unit) \<times> mem_store" where
  "mem_MarkDead now l errDetail s = finalize now l Dead errDetail s"

definition mem_MarkCancelled ::
  "time \<Rightarrow> lease \<Rightarrow> raw_message option \<Rightarrow> mem_store \<Rightarrow> (driver_error + unit) \<times> mem_store" where
  "mem_MarkCancelled now l errDetail s = finalize now l Cancelled errDetail s"

definition retryRow :: "time \<Rightarrow> raw_message option \<Rightarrow> job_row \<Rightarrow> driver_error + job_row" where
  "retryRow retryAt errDetail row =
     (case appendError row errDetail of
        Inl e \<Rightarrow> Inl e
      | Inr row' \<Rightarrow> Inr (row'\<lparr>State := Retryable, ScheduledAt := retryAt\<rparr>))"

definition mem_MarkRetryable ::
  "lease \<Rightarrow> time \<Rightarrow> raw_message option \<Rightarrow> mem_store \<Rightarrow> (driver_error + unit) \<times> mem_store" where
  "mem_MarkRetryable l retryAt errDetail s = transition l (retryRow retryAt errDetail) s"

definition snoozeRow :: "time \<Rightarrow> job_row \<Rightarrow> driver_error + job_row" where
  "snoozeRow runAt row =
     Inr (row\<lparr>State := Scheduled, ScheduledAt := runAt, Attempt := max (Attempt row - 1) 0\<rparr>)"

definition mem_MarkSnoozed :: "lease \<Rightarrow> time \<Rightarrow> mem_store \<Rightarrow> (driver_error + unit) \<times> mem_store" where
  "mem_MarkSnoozed l runAt s = transition l (snoozeRow runAt) s"

section \<open>Operator actions and reads\<close>

definition mem_GetJob :: "int \<Rightarrow> mem_store \<Rightarrow> driver_error + job_row" where
  "mem_GetJob jid s = (case row_of s jid of None \<Rightarrow> Inl ErrNotFound | Some row \<Rightarrow> Inr row)"

text \<open>\<open>gap 0\<close> runs between the refusal and the re-read, \<open>gap 1\<close> between the re-read and
  the retry: the mutex is free at both points.\<close>

definition afterOperatorMiss ::
  "(nat \<Rightarrow> mem_store \<Rightarrow> mem_store) \<Rightarrow> int \<Rightarrow> bool \<Rightarrow> (job_state \<Rightarrow> bool) \<Rightarrow>
   (mem_store \<Rightarrow> (driver_error + job_row) \<times> mem_store) \<Rightarrow>
   mem_store \<Rightarrow> (driver_error + job_row) \<times> mem_store" where
  "afterOperatorMiss gap jid allowRetry eligible retry s =
     (if \<not> allowRetry then (Inl ErrInvalidTransition, s)
      else
        let s1 = gap 0 s
        in case row_of s1 jid of
             None \<Rightarrow> (Inl ErrNotFound, s1)
           | Some row \<Rightarrow>
               if eligible (State row) then retry (gap 1 s1)
               else (Inl ErrInvalidTransition, s1))"

definition cancelRow :: "time \<Rightarrow> job_row \<Rightarrow> job_row" where
  "cancelRow now row = row\<lparr>State := Cancelled, FinalizedAt := Some now, LeasedUntil := None\<rparr>"

definition operatorCancel ::
  "(nat \<Rightarrow> mem_store \<Rightarrow> mem_store) \<Rightarrow> time \<Rightarrow> int \<Rightarrow> bool \<Rightarrow>
   (mem_store \<Rightarrow> (driver_error + job_row) \<times> mem_store) \<Rightarrow>
   mem_store \<Rightarrow> (driver_error + job_row) \<times> mem_store" where
  "operatorCancel gap now jid allowRetry retry s =
     (case row_of s jid of
        None \<Rightarrow> (Inl ErrNotFound, s)
      | Some row \<Rightarrow>
          if \<not> cancellable (State row)
          then afterOperatorMiss gap jid allowRetry cancellable retry s
          else let row' = cancelRow now row
               in (Inr row', s\<lparr>jobs := AList.update jid row' (jobs s)\<rparr>))"

text \<open>The retry calls \<^verbatim>\<open>operatorCancel(id, false)\<close>, which never retries again.\<close>

definition mem_OperatorCancel ::
  "(nat \<Rightarrow> mem_store \<Rightarrow> mem_store) \<Rightarrow> time \<Rightarrow> int \<Rightarrow> mem_store \<Rightarrow> (driver_error + job_row) \<times> mem_store" where
  "mem_OperatorCancel gap now jid s =
     operatorCancel gap now jid True
       (operatorCancel gap now jid False (\<lambda>s. (Inl ErrInvalidTransition, s))) s"

definition redriveRow :: "time \<Rightarrow> job_row \<Rightarrow> job_row" where
  "redriveRow now row =
     row\<lparr>State := Available, Attempt := 0, LeasedUntil := None, FinalizedAt := None,
         ScheduledAt := now\<rparr>"

definition redriveDead ::
  "(nat \<Rightarrow> mem_store \<Rightarrow> mem_store) \<Rightarrow> time \<Rightarrow> int \<Rightarrow> bool \<Rightarrow>
   (mem_store \<Rightarrow> (driver_error + job_row) \<times> mem_store) \<Rightarrow>
   mem_store \<Rightarrow> (driver_error + job_row) \<times> mem_store" where
  "redriveDead gap now jid allowRetry retry s =
     (case row_of s jid of
        None \<Rightarrow> (Inl ErrNotFound, s)
      | Some row \<Rightarrow>
          if State row \<noteq> Dead
          then afterOperatorMiss gap jid allowRetry (\<lambda>st. st = Dead) retry s
          else let row' = redriveRow now row
               in (Inr row', s\<lparr>jobs := AList.update jid row' (jobs s)\<rparr>))"

definition mem_RedriveDead ::
  "(nat \<Rightarrow> mem_store \<Rightarrow> mem_store) \<Rightarrow> time \<Rightarrow> int \<Rightarrow> mem_store \<Rightarrow> (driver_error + job_row) \<times> mem_store" where
  "mem_RedriveDead gap now jid s =
     redriveDead gap now jid True
       (redriveDead gap now jid False (\<lambda>s. (Inl ErrInvalidTransition, s))) s"

definition mem_ListJobs :: "list_params \<Rightarrow> mem_store \<Rightarrow> driver_error + job_row list" where
  "mem_ListJobs p s =
     (if lp_Limit p \<le> 0 then Inl (ErrOther ''list limit must be positive'')
      else
        let matched = filter (\<lambda>row.
              \<not> (lp_Queue p \<noteq> [] \<and> Queue row \<noteq> lp_Queue p) \<and>
              \<not> (lp_State p \<noteq> [] \<and> state_name (State row) \<noteq> lp_State p)) (map snd (jobs s));
            matched = sort_key (\<lambda>row. - ID row) matched;
            matched = (if lp_Limit p < int (length matched) then take (nat (lp_Limit p)) matched
                       else matched)
        in Inr matched)"

text \<open>The two maps \<^verbatim>\<open>Stats\<close> fills in one pass over the rows.\<close>

definition bumpDepth ::
  "job_row \<Rightarrow> ((string \<times> string) \<times> int) list \<Rightarrow> ((string \<times> string) \<times> int) list" where
  "bumpDepth row counts =
     (if counted (State row)
      then let key = (Queue row, state_name (State row))
           in AList.update key ((case map_of counts key of None \<Rightarrow> 0 | Some n \<Rightarrow> n) + 1) counts
      else counts)"

definition noteOldest :: "time \<Rightarrow> job_row \<Rightarrow> (string \<times> time) list \<Rightarrow> (string \<times> time) list" where
  "noteOldest now row oldest =
     (if \<not> waiting (State row) \<or> After (ScheduledAt row) now then oldest
      else case map_of oldest (Queue row) of
        None \<Rightarrow> AList.update (Queue row) (ScheduledAt row) oldest
      | Some since \<Rightarrow>
          if Before (ScheduledAt row) since then AList.update (Queue row) (ScheduledAt row) oldest
          else oldest)"

definition mem_Stats :: "time \<Rightarrow> mem_store \<Rightarrow> stats" where
  "mem_Stats now s =
     (let rows = map snd (jobs s);
          counts = fold bumpDepth rows [];
          oldest = fold (noteOldest now) rows []
      in \<lparr>Depths = map (\<lambda>((queue, state), count).
             \<lparr>qd_Queue = queue, qd_State = state, qd_Count = count\<rparr>) (sort_key fst counts),
          Oldest = map (\<lambda>(queue, since).
             \<lparr>qa_Queue = queue, qa_AgeSeconds = real_of_int (now - since) / 10 ^ 9\<rparr>)
             (sort_key fst oldest)\<rparr>)"

section \<open>Well-formed stores\<close>

text \<open>
  The map is keyed by the id of the row, ids run from 1 to \<^const>\<open>nextID\<close>, and every
  row is as the contract promises.
\<close>

definition store_wf :: "mem_store \<Rightarrow> bool" where
  "store_wf s \<longleftrightarrow>
     distinct (map fst (jobs s)) \<and> 0 \<le> nextID s \<and>
     (\<forall>(k, r) \<in> set (jobs s). ID r = k \<and> 1 \<le> k \<and> k \<le> nextID s \<and> row_wf r)"

lemma store_wf_distinct: "store_wf s \<Longrightarrow> distinct (map fst (jobs s))"
  by (simp add: store_wf_def)

lemma row_of_mem: "store_wf s \<Longrightarrow> row_of s k = Some r \<longleftrightarrow> (k, r) \<in> set (jobs s)"
  by (simp add: map_of_iff_mem store_wf_distinct)

lemma store_wf_row:
  assumes "store_wf s" "row_of s k = Some r"
  shows "ID r = k" "1 \<le> k" "k \<le> nextID s" "row_wf r"
  using assms by (auto simp: store_wf_def dest!: map_of_SomeD)

lemma store_wfI:
  assumes "distinct (map fst (jobs s))" "0 \<le> nextID s"
    and "\<And>k r. row_of s k = Some r \<Longrightarrow> ID r = k \<and> 1 \<le> k \<and> k \<le> nextID s \<and> row_wf r"
  shows "store_wf s"
proof -
  have "ID r = k \<and> 1 \<le> k \<and> k \<le> nextID s \<and> row_wf r" if "(k, r) \<in> set (jobs s)" for k r
    using that assms(3)[of k r] assms(1) by simp
  with assms(1,2) show ?thesis unfolding store_wf_def by blast
qed

lemma store_wf_New [simp]: "store_wf mem_New"
  by (simp add: store_wf_def mem_New_def)

lemma store_wf_update [wf_intros]:
  assumes "store_wf s" "row_of s k = Some r" "ID r' = k" "row_wf r'"
  shows "store_wf (s\<lparr>jobs := AList.update k r' (jobs s)\<rparr>)"
proof (rule store_wfI)
  show "distinct (map fst (jobs (s\<lparr>jobs := AList.update k r' (jobs s)\<rparr>)))"
    using assms(1) by (simp add: store_wf_distinct)
  show "0 \<le> nextID (s\<lparr>jobs := AList.update k r' (jobs s)\<rparr>)"
    using assms(1) by (simp add: store_wf_def)
  fix k' x
  assume "row_of (s\<lparr>jobs := AList.update k r' (jobs s)\<rparr>) k' = Some x"
  then show "ID x = k' \<and> 1 \<le> k' \<and> k' \<le> nextID (s\<lparr>jobs := AList.update k r' (jobs s)\<rparr>) \<and> row_wf x"
    using assms store_wf_row[OF assms(1)] by (auto split: if_splits)
qed

lemma store_wf_ids: "store_wf s \<Longrightarrow> map ID (map snd (jobs s)) = map fst (jobs s)"
  by (auto simp: store_wf_def)

lemma distinct_rows: "store_wf s \<Longrightarrow> distinct (map ID (map snd (jobs s)))"
  by (metis store_wf_ids store_wf_distinct)

lemma inj_ID: "store_wf s \<Longrightarrow> inj_on ID (set (map snd (jobs s)))"
  by (metis distinct_rows distinct_map)

lemma eligible_rows_conv:
  "store_wf s \<Longrightarrow> eligible_rows keep (row_of s) = set (filter keep (map snd (jobs s)))"
  by (auto simp: eligible_rows_def row_of_mem intro: rev_image_eqI)

lemma eligible_rowsD:
  assumes "store_wf s" "r \<in> eligible_rows keep (row_of s)"
  shows "row_of s (ID r) = Some r" "keep r"
  using assms by (auto simp: eligible_rows_def dest: store_wf_row(1))

section \<open>Claims\<close>

definition limited :: "int \<Rightarrow> 'a list \<Rightarrow> 'a list" where
  "limited limit xs = (if limit < 0 then xs else take (nat limit) xs)"

lemma limited_Cons:
  "limited limit (x # xs) = (if limit = 0 then [] else x # limited (limit - 1) xs)"
  by (auto simp: limited_def take_Cons' nat_diff_distrib)

lemma takeRows_eq:
  assumes "limit < 0 \<or> int (length taken) \<le> limit"
  shows "takeRows change limit taken rs s =
    (let picked = map change (limited (limit - int (length taken)) rs)
     in (taken @ picked, fold put_row picked s))"
  using assms
proof (induction rs arbitrary: taken s)
  case Nil
  then show ?case by (simp add: limited_def)
next
  case (Cons r rs)
  show ?case
  proof (cases "int (length taken) = limit")
    case True
    then show ?thesis by (simp add: limited_Cons)
  next
    case False
    with Cons.prems have "limit < 0 \<or> int (length (taken @ [change r])) \<le> limit" by auto
    from Cons.IH[OF this] False show ?thesis
      by (simp add: limited_Cons Let_def algebra_simps)
  qed
qed

lemma row_of_fold_put:
  assumes "distinct (map ID rs)"
  shows "row_of (fold put_row rs s) k =
    (case map_of (map (\<lambda>r. (ID r, r)) rs) k of None \<Rightarrow> row_of s k | Some r \<Rightarrow> Some r)"
  using assms
proof (induction rs arbitrary: s)
  case (Cons r rs)
  then have "map_of (map (\<lambda>r. (ID r, r)) rs) (ID r) = None"
    by (auto simp: map_of_eq_None_iff image_image)
  with Cons show ?case by (simp split: option.splits)
qed simp

lemma set_selectRows:
  "store_wf s \<Longrightarrow> set (selectRows order keep s) = eligible_rows keep (row_of s)"
  by (simp add: selectRows_def eligible_rows_conv)

lemma distinct_selectRows:
  assumes "store_wf s" shows "distinct (map ID (selectRows order keep s))"
proof -
  have "mset (map ID (selectRows order keep s)) = mset (map ID (filter keep (map snd (jobs s))))"
    by (simp add: selectRows_def)
  moreover have "distinct (map ID (filter keep (map snd (jobs s))))"
    using distinct_rows[OF assms] by (rule distinct_map_filter)
  ultimately show ?thesis by (metis mset_eq_imp_distinct_iff)
qed

lemma selectRows_strict:
  assumes "store_wf s"
  shows "sorted_wrt (\<lambda>a b. (order a, ID a) < (order b, ID b)) (selectRows order keep s)"
  unfolding selectRows_def
proof (rule strict_sort_key)
  have "distinct (map ID (filter keep (map snd (jobs s))))"
    using distinct_rows[OF assms] by (rule distinct_map_filter)
  then show "distinct (map (\<lambda>row. (order row, ID row)) (filter keep (map snd (jobs s))))"
    by (auto simp: distinct_map inj_on_def)
qed

lemma picks_limited:
  assumes wf: "store_wf s" and "0 \<le> limit"
  shows "picks keep order limit (row_of s) (limited limit (selectRows order keep s))"
proof -
  let ?sel = "selectRows order keep s" and ?E = "eligible_rows keep (row_of s)"
  let ?p = "take (nat limit) ?sel"
  have d: "distinct (map ID ?sel)" by (rule distinct_selectRows[OF wf])
  then have d': "distinct ?sel" by (simp add: distinct_map)
  have E: "set ?sel = ?E" by (rule set_selectRows[OF wf])
  have "card ?E = length ?sel" using d' E by (metis distinct_card)
  moreover have "?E - set ?p = set (drop (nat limit) ?sel)"
    using set_take_drop_diff[OF d'] E by simp
  moreover have "set ?p \<subseteq> ?E" using E set_take_subset by fastforce
  moreover have "distinct (map ID ?p)" using d by (simp flip: take_map)
  moreover have "(order p, ID p) < (order r, ID r)"
    if "p \<in> set ?p" "r \<in> set (drop (nat limit) ?sel)" for p r
    using sorted_wrt_take_drop[OF selectRows_strict[OF wf] that] .
  ultimately show ?thesis
    using assms(2) by (auto simp: picks_def limited_def)
qed

lemma limited_sublist: "set (limited limit xs) \<subseteq> set xs"
  by (auto simp: limited_def dest: in_set_takeD)

lemma distinct_map_limited: "distinct (map f xs) \<Longrightarrow> distinct (map f (limited limit xs))"
  by (simp add: limited_def flip: take_map)

lemma row_of_change:
  assumes wf: "store_wf s" and ids: "\<And>r. ID (change r) = ID r"
    and d: "distinct (map ID picked)" and sub: "set picked \<subseteq> eligible_rows keep (row_of s)"
  shows "row_of (fold put_row (map change picked) s) = change_rows change picked (row_of s)"
proof
  fix k
  let ?al = "map (\<lambda>r. (ID r, r)) (map change picked)"
  have *: "row_of (fold put_row (map change picked) s) k =
      (case map_of ?al k of None \<Rightarrow> row_of s k | Some r \<Rightarrow> Some r)"
    using d by (intro row_of_fold_put) (simp add: ids comp_def)
  show "row_of (fold put_row (map change picked) s) k = change_rows change picked (row_of s) k"
  proof (cases "k \<in> ID ` set picked")
    case True
    then obtain r where r: "r \<in> set picked" "k = ID r" by auto
    with sub wf have "row_of s k = Some r"
      by (auto dest: eligible_rowsD(1)[OF wf])
    moreover have "map_of ?al k = Some (change r)"
      using r d by (intro map_of_is_SomeI) (auto simp: ids comp_def)
    ultimately show ?thesis using True by (simp add: * change_rows_def)
  next
    case False
    then have "map_of ?al k = None" by (auto simp: map_of_eq_None_iff ids)
    with False show ?thesis by (simp add: * change_rows_def)
  qed
qed

lemma store_wf_fold_put [wf_intros]:
  assumes "store_wf s" "\<And>r. r \<in> set rs \<Longrightarrow> row_of s (ID r) \<noteq> None \<and> row_wf r"
  shows "store_wf (fold put_row rs s)"
  using assms
proof (induction rs arbitrary: s)
  case (Cons r rs)
  then obtain r0 where "row_of s (ID r) = Some r0" "row_wf r" by fastforce
  then have "store_wf (put_row r s)" using Cons.prems(1) by (intro store_wf_update) auto
  then show ?case using Cons.prems by (auto intro!: Cons.IH)
qed simp

text \<open>Both fetches: what is taken, what is stored, and that the store stays well formed.\<close>

lemma fetch_rows:
  fixes limit :: int and order :: "job_row \<Rightarrow> time"
  assumes wf: "store_wf s" and ids: "\<And>r. ID (change r) = ID r"
    and keeps: "\<And>r. row_wf r \<Longrightarrow> keep r \<Longrightarrow> row_wf (change r)"
  defines "p \<equiv> limited limit (selectRows order keep s)"
  obtains s' where
    "takeRows change limit [] (selectRows order keep s) s = (map change p, s')"
    "row_of s' = change_rows change p (row_of s)" "store_wf s'" "nextID s' = nextID s"
proof
  have sub: "set p \<subseteq> eligible_rows keep (row_of s)"
    unfolding p_def using limited_sublist set_selectRows[OF wf] by metis
  let ?s' = "fold put_row (map change p) s"
  show "takeRows change limit [] (selectRows order keep s) s = (map change p, ?s')"
    by (subst takeRows_eq) (auto simp: p_def Let_def)
  show "row_of ?s' = change_rows change p (row_of s)"
    using wf ids _ sub
    by (rule row_of_change) (simp add: p_def distinct_map_limited distinct_selectRows[OF wf])
  show "store_wf ?s'"
  proof (rule store_wf_fold_put[OF wf])
    fix r' assume "r' \<in> set (map change p)"
    then obtain r where "r \<in> set p" "r' = change r" by auto
    with sub have "row_of s (ID r) = Some r" "keep r"
      using eligible_rowsD[OF wf] by blast+
    then show "row_of s (ID r') \<noteq> None \<and> row_wf r'"
      using keeps store_wf_row(4)[OF wf] \<open>r' = change r\<close> by (auto simp: ids)
  qed
  show "nextID ?s' = nextID s" by (induction "map change p" arbitrary: s p) auto
qed

lemma row_wf_claim: "row_wf r \<Longrightarrow> due q now r \<Longrightarrow> row_wf (claimRow now d r)"
  by (auto simp: row_wf_def claimRow_def due_def)

lemma row_wf_reclaim: "row_wf r \<Longrightarrow> expired now r \<Longrightarrow> row_wf (reclaimRow now d r)"
  by (auto simp: row_wf_def reclaimRow_def expired_def)

lemma ID_claimRow [simp]: "ID (claimRow now d r) = ID r"
  by (simp add: claimRow_def)

lemma ID_reclaimRow [simp]: "ID (reclaimRow now d r) = ID r"
  by (simp add: reclaimRow_def)

lemma mem_FetchAvailable_rows:
  fixes limit now :: int and queue :: string
  assumes "store_wf s"
  defines "p \<equiv> limited limit (selectRows byScheduledAt (due queue now) s)"
  obtains s' where
    "mem_FetchAvailable now queue leaseFor limit s = (Inr (map (claimRow now leaseFor) p), s')"
    "row_of s' = change_rows (claimRow now leaseFor) p (row_of s)"
    "store_wf s'" "nextID s' = nextID s"
proof -
  obtain s' where
    "takeRows (claimRow now leaseFor) limit [] (selectRows byScheduledAt (due queue now) s) s =
       (map (claimRow now leaseFor) p, s')"
    "row_of s' = change_rows (claimRow now leaseFor) p (row_of s)"
    "store_wf s'" "nextID s' = nextID s"
    unfolding p_def by (rule fetch_rows[OF assms(1) ID_claimRow row_wf_claim])
  with that show thesis by (simp add: mem_FetchAvailable_def)
qed

lemma mem_FetchExpired_rows:
  fixes limit now :: int
  assumes "store_wf s"
  defines "p \<equiv> limited limit (selectRows byLeasedUntil (expired now) s)"
  obtains s' where
    "mem_FetchExpired now leaseFor limit s = (Inr (map (reclaimRow now leaseFor) p), s')"
    "row_of s' = change_rows (reclaimRow now leaseFor) p (row_of s)"
    "store_wf s'" "nextID s' = nextID s"
proof -
  obtain s' where
    "takeRows (reclaimRow now leaseFor) limit [] (selectRows byLeasedUntil (expired now) s) s =
       (map (reclaimRow now leaseFor) p, s')"
    "row_of s' = change_rows (reclaimRow now leaseFor) p (row_of s)"
    "store_wf s'" "nextID s' = nextID s"
    unfolding p_def by (rule fetch_rows[OF assms(1) ID_reclaimRow row_wf_reclaim])
  with that show thesis by (simp add: mem_FetchExpired_def)
qed

section \<open>Leases and attempts\<close>

lemma extended_Nil: "extended until [] m = m"
  by (rule ext) (simp add: extended_def holds_lease_def option.map_ident)

lemma holds_lease_LeasedUntil [simp]:
  "holds_lease ls k (r\<lparr>LeasedUntil := t\<rparr>) = holds_lease ls k r"
  by (simp add: holds_lease_def)

lemma holds_lease_Cons:
  "holds_lease (l # ls) k r \<longleftrightarrow>
     (lease_ID l = k \<and> State r = Running \<and> lease_Attempt l = Attempt r) \<or> holds_lease ls k r"
  by (auto simp: holds_lease_def)

lemma extended_Cons:
  "extended until (l # ls) m = extended until ls
     (case m (lease_ID l) of
        None \<Rightarrow> m
      | Some r \<Rightarrow>
          if State r \<noteq> Running \<or> Attempt r \<noteq> lease_Attempt l then m
          else m(lease_ID l \<mapsto> r\<lparr>LeasedUntil := Some until\<rparr>))"
  (is "_ = extended until ls ?m")
proof
  fix k
  show "extended until (l # ls) m k = extended until ls ?m k"
  proof (cases "k = lease_ID l")
    case True
    then show ?thesis
      by (cases "m k") (simp_all add: extended_def holds_lease_Cons)
  next
    case False
    then have "?m k = m k" by (simp split: option.split)
    moreover have "holds_lease (l # ls) k = holds_lease ls k"
      using False by (simp add: holds_lease_Cons fun_eq_iff)
    ultimately show ?thesis by (simp add: extended_def)
  qed
qed

lemma row_of_extendLoop:
  "row_of (extendLoop until leases s) = extended until leases (row_of s)"
proof (induction leases arbitrary: s)
  case (Cons l leases)
  show ?case
    by (cases "row_of s (lease_ID l)") (simp_all add: Cons.IH extended_Cons fun_upd_def)
qed (simp add: extended_Nil)

lemma store_wf_extendLoop [wf_intros]:
  "store_wf s \<Longrightarrow> store_wf (extendLoop until leases s)"
proof (induction leases arbitrary: s)
  case (Cons l leases)
  show ?case
  proof (cases "row_of s (lease_ID l)")
    case None
    then show ?thesis using Cons by simp
  next
    case (Some r)
    have "row_wf (r\<lparr>LeasedUntil := Some until\<rparr>)" if "State r = Running"
      using that store_wf_row(4)[OF Cons.prems Some] by (simp add: row_wf_def)
    then have "store_wf (s\<lparr>jobs := AList.update (lease_ID l) (r\<lparr>LeasedUntil := Some until\<rparr>) (jobs s)\<rparr>)"
      if "State r = Running"
      using that store_wf_row(1)[OF Cons.prems Some]
      by (intro store_wf_update[OF Cons.prems Some]) simp_all
    then show ?thesis using Cons Some by simp
  qed
qed simp

text \<open>The one guard behind every Mark method.\<close>

lemma transition_guarded:
  assumes "\<And>r. row_of s (lease_ID l) = Some r \<Longrightarrow> State r = Running \<Longrightarrow>
      \<exists>r'. app r = Inr r' \<and> r'\<lparr>LeasedUntil := None\<rparr> = change r"
  shows "(fst (transition l app s), row_of (snd (transition l app s))) = guarded l change (row_of s)"
proof (cases "row_of s (lease_ID l)")
  case None
  then show ?thesis by (simp add: transition_def guarded_def)
next
  case (Some r)
  show ?thesis
  proof (cases "State r = Running")
    case True
    with assms[OF Some] obtain r' where "app r = Inr r'" "r'\<lparr>LeasedUntil := None\<rparr> = change r"
      by blast
    with True Some show ?thesis by (simp add: transition_def guarded_def fun_upd_def)
  qed (simp add: Some transition_def guarded_def)
qed

lemma transition_refused:
  assumes "fst (transition l app s) = Inl e"
  shows "snd (transition l app s) = s"
  using assms by (auto simp: transition_def split: option.splits sum.splits if_splits)

lemma transition_accepted:
  assumes "fst (transition l app s) = Inr ()"
  obtains r r' where "row_of s (lease_ID l) = Some r" "State r = Running"
    "Attempt r = lease_Attempt l" "app r = Inr r'"
    "snd (transition l app s) =
       s\<lparr>jobs := AList.update (lease_ID l) (r'\<lparr>LeasedUntil := None\<rparr>) (jobs s)\<rparr>"
  using assms by (auto simp: transition_def split: option.splits sum.splits if_splits)

lemma store_wf_transition [wf_intros]:
  assumes wf: "store_wf s"
    and app: "\<And>r r'. row_wf r \<Longrightarrow> State r = Running \<Longrightarrow> app r = Inr r' \<Longrightarrow>
      ID r' = ID r \<and> row_wf (r'\<lparr>LeasedUntil := None\<rparr>)"
  shows "store_wf (snd (transition l app s))"
proof (cases "fst (transition l app s)")
  case (Inl e)
  with wf show ?thesis by (simp add: transition_refused)
next
  case (Inr u)
  then have "fst (transition l app s) = Inr ()" by simp
  then show ?thesis
  proof (rule transition_accepted)
    fix r r'
    assume r: "row_of s (lease_ID l) = Some r" "State r = Running" "app r = Inr r'"
      and s': "snd (transition l app s) =
       s\<lparr>jobs := AList.update (lease_ID l) (r'\<lparr>LeasedUntil := None\<rparr>) (jobs s)\<rparr>"
    show ?thesis unfolding s'
      using app[OF _ r(2,3)] store_wf_row[OF wf r(1)] by (intro store_wf_update[OF wf r(1)]) auto
  qed
qed

lemma appendError_wf:
  assumes "appendError r d = Inr r'" "unmarshal_list (Errors r) \<noteq> None"
  shows "unmarshal_list (Errors r') \<noteq> None" "ID r' = ID r" "State r' = State r"
    "Attempt r' = Attempt r" "FinalizedAt r' = FinalizedAt r"
  using assms by (cases d; auto split: option.splits raw_message.splits)+

lemma finalizeRow_wf:
  assumes "row_wf r" "State r = Running" "terminal st" "finalizeRow now st d r = Inr r'"
  shows "ID r' = ID r \<and> row_wf (r'\<lparr>LeasedUntil := None\<rparr>)"
  using assms appendError_wf by (fastforce simp: finalizeRow_def row_wf_def split: sum.splits)

lemma retryRow_wf:
  assumes "row_wf r" "State r = Running" "retryRow t d r = Inr r'"
  shows "ID r' = ID r \<and> row_wf (r'\<lparr>LeasedUntil := None\<rparr>)"
  using assms appendError_wf by (fastforce simp: retryRow_def row_wf_def split: sum.splits)

lemma snoozeRow_wf:
  assumes "row_wf r" "State r = Running" "snoozeRow t r = Inr r'"
  shows "ID r' = ID r \<and> row_wf (r'\<lparr>LeasedUntil := None\<rparr>)"
  using assms by (auto simp: snoozeRow_def row_wf_def)

lemma store_wf_marks [wf_intros]:
  assumes "store_wf s"
  shows "store_wf (snd (mem_MarkCompleted now l s))" "store_wf (snd (mem_MarkDead now l d s))"
    "store_wf (snd (mem_MarkCancelled now l d s))" "store_wf (snd (mem_MarkRetryable l t d s))"
    "store_wf (snd (mem_MarkSnoozed l t s))"
proof -
  have "store_wf (snd (finalize now l st d s))" if "terminal st" for st d
    unfolding finalize_def
    by (rule store_wf_transition[OF assms]) (rule finalizeRow_wf[OF _ _ that])
  then show "store_wf (snd (mem_MarkCompleted now l s))" "store_wf (snd (mem_MarkDead now l d s))"
    "store_wf (snd (mem_MarkCancelled now l d s))"
    by (simp_all add: mem_MarkCompleted_def mem_MarkDead_def mem_MarkCancelled_def)
  show "store_wf (snd (mem_MarkRetryable l t d s))"
    unfolding mem_MarkRetryable_def by (rule store_wf_transition[OF assms]) (rule retryRow_wf)
  show "store_wf (snd (mem_MarkSnoozed l t s))"
    unfolding mem_MarkSnoozed_def by (rule store_wf_transition[OF assms]) (rule snoozeRow_wf)
qed

lemma row_wf_new: "row_wf (jobFromParams k p now)"
  by (simp add: jobFromParams_def row_wf_def Let_def)

lemma ID_jobFromParams [simp]: "ID (jobFromParams k p now) = k"
  by (simp add: jobFromParams_def Let_def)

lemma store_wf_new_row:
  assumes wf: "store_wf s" and "row_wf r" "ID r = nextID s + 1"
  shows "store_wf (put_row r (s\<lparr>nextID := nextID s + 1\<rparr>))"
proof (rule store_wfI)
  fix k x
  assume "row_of (put_row r (s\<lparr>nextID := nextID s + 1\<rparr>)) k = Some x"
  then have "k = ID r \<and> x = r \<or> row_of s k = Some x" by (auto split: if_splits)
  then show "ID x = k \<and> 1 \<le> k \<and> k \<le> nextID (put_row r (s\<lparr>nextID := nextID s + 1\<rparr>)) \<and> row_wf x"
    using store_wf_row[OF wf, of k x] assms(2,3) wf by (fastforce simp: store_wf_def)
qed (use wf in \<open>simp_all add: store_wf_def\<close>)

lemma store_wf_Insert [wf_intros]:
  assumes "store_wf s" shows "store_wf (snd (mem_Insert now p s))"
  using store_wf_new_row[OF assms row_wf_new, of "nextID s + 1" p now] assms
  by (simp add: mem_Insert_def Let_def)

lemma store_wf_OperatorCancel [wf_intros]:
  assumes "store_wf s" "\<And>i s. store_wf s \<Longrightarrow> store_wf (gap i s)"
  shows "store_wf (snd (mem_OperatorCancel gap now k s))"
proof -
  have once: "store_wf (snd (operatorCancel gap now k b retry s))"
    if wf: "store_wf s" and r: "\<And>s. store_wf s \<Longrightarrow> store_wf (snd (retry s))" for s b retry
  proof (cases "row_of s k")
    case (Some row)
    have "store_wf (snd (afterOperatorMiss gap k b cancellable retry s))"
      using wf r assms(2) by (simp add: afterOperatorMiss_def Let_def split: option.split)
    moreover have "store_wf (s\<lparr>jobs := AList.update k (cancelRow now row) (jobs s)\<rparr>)"
      using store_wf_row[OF wf Some]
      by (intro store_wf_update[OF wf Some]) (simp_all add: cancelRow_def row_wf_def)
    ultimately show ?thesis using Some by (simp add: operatorCancel_def Let_def)
  qed (simp add: operatorCancel_def wf)
  show ?thesis unfolding mem_OperatorCancel_def by (intro once assms(1)) simp_all
qed

lemma store_wf_RedriveDead [wf_intros]:
  assumes "store_wf s" "\<And>i s. store_wf s \<Longrightarrow> store_wf (gap i s)"
  shows "store_wf (snd (mem_RedriveDead gap now k s))"
proof -
  have once: "store_wf (snd (redriveDead gap now k b retry s))"
    if wf: "store_wf s" and r: "\<And>s. store_wf s \<Longrightarrow> store_wf (snd (retry s))" for s b retry
  proof (cases "row_of s k")
    case (Some row)
    have "store_wf (snd (afterOperatorMiss gap k b (\<lambda>st. st = Dead) retry s))"
      using wf r assms(2) by (simp add: afterOperatorMiss_def Let_def split: option.split)
    moreover have "store_wf (s\<lparr>jobs := AList.update k (redriveRow now row) (jobs s)\<rparr>)"
      using store_wf_row[OF wf Some]
      by (intro store_wf_update[OF wf Some]) (simp_all add: redriveRow_def row_wf_def)
    ultimately show ?thesis using Some by (simp add: redriveDead_def Let_def)
  qed (simp add: redriveDead_def wf)
  show ?thesis unfolding mem_RedriveDead_def by (intro once assms(1)) simp_all
qed

lemma update_fresh: "k \<notin> fst ` set al \<Longrightarrow> AList.update k v al = al @ [(k, v)]"
  by (induction al) auto

text \<open>A batch is what inserting its items one by one would store, or nothing.\<close>

fun insertEach ::
  "time \<Rightarrow> insert_params list \<Rightarrow> mem_store \<Rightarrow> (driver_error + job_row list) \<times> mem_store" where
  "insertEach now [] s = (Inr [], s)"
| "insertEach now (p # batch) s =
     (case mem_Insert now p s of
        (Inl e, s1) \<Rightarrow> (Inl e, s1)
      | (Inr row, s1) \<Rightarrow>
          (case insertEach now batch s1 of
             (Inl e, s2) \<Rightarrow> (Inl e, s2)
           | (Inr rs, s2) \<Rightarrow> (Inr (row # rs), s2)))"

definition batch_store :: "job_row list \<Rightarrow> mem_store \<Rightarrow> mem_store" where
  "batch_store pending s = (fold put_row pending s)\<lparr>nextID := nextID s + int (length pending)\<rparr>"

text \<open>The rows a batch has accepted so far: new, active, numbered from \<open>nextID s + 1\<close>.\<close>

definition fresh_rows :: "mem_store \<Rightarrow> job_row list \<Rightarrow> bool" where
  "fresh_rows s pending \<longleftrightarrow>
     map ID pending = map (\<lambda>i. nextID s + 1 + int i) [0..<length pending] \<and>
     (\<forall>r \<in> set pending. uniqueActive (State r))"

lemma fresh_rows_jobs:
  assumes wf: "store_wf s" and "fresh_rows s pending"
  shows "jobs (batch_store pending s) = jobs s @ map (\<lambda>r. (ID r, r)) pending"
  using assms(2)
proof (induction pending rule: rev_induct)
  case (snoc r pending)
  then have fr: "fresh_rows s pending" and ID: "ID r = nextID s + 1 + int (length pending)"
    by (auto simp: fresh_rows_def)
  have IH: "jobs (fold put_row pending s) = jobs s @ map (\<lambda>r. (ID r, r)) pending"
    using snoc.IH[OF fr] by (simp add: batch_store_def)
  have "ID r \<notin> fst ` set (jobs s)" using wf ID by (force simp: store_wf_def)
  moreover have "ID r \<notin> ID ` set pending"
  proof
    assume "ID r \<in> ID ` set pending"
    then have "ID r \<in> set (map ID pending)" by simp
    also have "map ID pending = map (\<lambda>i. nextID s + 1 + int i) [0..<length pending]"
      using fr by (simp add: fresh_rows_def)
    finally show False using ID by auto
  qed
  ultimately have "ID r \<notin> fst ` set (jobs (fold put_row pending s))"
    by (simp add: IH image_Un image_image)
  then show ?case by (simp add: batch_store_def update_fresh IH)
qed (simp add: batch_store_def)

lemma conflict_batch:
  assumes "store_wf s" "fresh_rows s pending"
  shows "uniqueConflict (batch_store pending s) q k key [] = uniqueConflict s q k key pending"
  using assms(2) by (auto simp: uniqueConflict_def fresh_rows_jobs[OF assms] fresh_rows_def)

lemma active_new: "uniqueActive (State (jobFromParams k p now))"
  by (simp add: jobFromParams_def Let_def)

lemma fresh_rows_snoc:
  "fresh_rows s pending \<Longrightarrow>
   fresh_rows s (pending @ [jobFromParams (nextID s + int (length pending) + 1) p now])"
  by (simp add: fresh_rows_def active_new)

lemma pendingRows_insertEach:
  assumes wf: "store_wf s" and "fresh_rows s pending"
  shows "pendingRows now s pending batch =
    (case insertEach now batch (batch_store pending s) of
       (Inl e, _) \<Rightarrow> Inl e | (Inr rs, _) \<Rightarrow> Inr (pending @ rs))"
    and "fst (insertEach now batch (batch_store pending s)) = Inr rs \<Longrightarrow>
      snd (insertEach now batch (batch_store pending s)) = batch_store (pending @ rs) s"
  using assms(2)
proof (induction batch arbitrary: pending rs)
  case Nil
  case 1 show ?case by simp
  case 2 then show ?case by simp
next
  case (Cons p batch)
  let ?row = "\<lambda>pending. jobFromParams (nextID s + int (length pending) + 1) p now"
  have ins: "mem_Insert now p (batch_store pending s) =
    (if uniqueConflict s (ip_Queue p) (ip_Kind p) (ip_UniqueKey p) pending
     then (Inl ErrDuplicateJob, batch_store pending s)
     else (Inr (?row pending), batch_store (pending @ [?row pending]) s))"
    if "fresh_rows s pending" for pending
    unfolding mem_Insert_def conflict_batch[OF wf that]
    by (simp add: batch_store_def Let_def algebra_simps)
  case 1
  note IH = Cons.IH(1)[OF fresh_rows_snoc[OF 1, of p now]]
  show ?case using ins[OF 1] by (simp add: IH split: prod.split sum.split)
  case 2
  note IH = Cons.IH(2)[OF _ fresh_rows_snoc[OF 2(2), of p now]]
  show ?case using 2(1) ins[OF 2(2)] IH[of "tl rs"]
    by (auto split: prod.splits sum.splits if_splits)
qed

lemma batch_store_Nil [simp]: "batch_store [] s = s"
  by (simp add: batch_store_def)

lemma fresh_rows_Nil [simp]: "fresh_rows s []"
  by (simp add: fresh_rows_def)

lemma insertEach_length: "insertEach now batch s = (Inr rs, s') \<Longrightarrow> length rs = length batch"
  by (induction batch arbitrary: s rs s') (auto split: prod.splits sum.splits)

lemma store_wf_insertEach [wf_intros]:
  "store_wf s \<Longrightarrow> store_wf (snd (insertEach now batch s))"
proof (induction batch arbitrary: s)
  case (Cons p batch)
  have "store_wf (snd (mem_Insert now p s))" by (rule store_wf_Insert[OF Cons.prems])
  with Cons.IH[OF this] show ?case
    by (auto split: prod.splits sum.splits)
qed simp

lemma nextID_fold_put [simp]: "nextID (fold put_row rs s) = nextID s"
  by (induction rs arbitrary: s) auto

lemma mem_InsertMany_insertEach:
  assumes wf: "store_wf s"
  shows "mem_InsertMany now batch s =
    (case insertEach now batch s of
       (Inl e, _) \<Rightarrow> (Inl e, s) | (Inr rs, s') \<Rightarrow> (Inr rs, s'))"
proof (cases "fst (insertEach now batch s)")
  case (Inl e)
  then have "pendingRows now s [] batch = Inl e"
    using pendingRows_insertEach(1)[OF wf fresh_rows_Nil, of now batch] by (auto split: prod.splits)
  then show ?thesis using Inl by (auto simp: mem_InsertMany_def split: prod.splits)
next
  case (Inr rs)
  have "pendingRows now s [] batch = Inr rs"
    using Inr pendingRows_insertEach(1)[OF wf fresh_rows_Nil, of now batch] by (auto split: prod.splits)
  moreover have "snd (insertEach now batch s) = batch_store rs s"
    using pendingRows_insertEach(2)[OF wf fresh_rows_Nil, of now batch rs] Inr by simp
  ultimately have "insertEach now batch s = (Inr rs, batch_store rs s)" "pendingRows now s [] batch = Inr rs"
    using Inr by (metis prod.collapse)+
  moreover from this(1) have "length rs = length batch" by (rule insertEach_length)
  ultimately show ?thesis
    by (cases "batch = []") (simp_all add: mem_InsertMany_def batch_store_def Let_def)
qed

lemma store_wf_InsertMany [wf_intros]:
  "store_wf s \<Longrightarrow> store_wf (snd (mem_InsertMany now batch s))"
  using store_wf_insertEach[of s now batch]
  by (auto simp: mem_InsertMany_insertEach split: prod.splits sum.splits)

lemma store_wf_fetches [wf_intros]:
  assumes "store_wf s"
  shows "store_wf (snd (mem_FetchAvailable now q d limit s))"
    and "store_wf (snd (mem_FetchExpired now d limit s))"
    and "store_wf (snd (mem_ExtendLeases now ls d s))"
  by (rule mem_FetchAvailable_rows[OF assms, of now q d limit], simp)
    (rule mem_FetchExpired_rows[OF assms, of now d limit], simp,
     simp add: mem_ExtendLeases_def store_wf_extendLoop assms)

section \<open>The Mark methods\<close>

lemma mark_change:
  assumes "row_wf r"
  shows "appendError r (Some (Valid j)) = Inr (r\<lparr>Errors := add_error j (Errors r)\<rparr>)"
  using assms by (auto simp: row_wf_def)

lemma marks_guarded:
  assumes "store_wf s"
  shows
   "(fst (mem_MarkCompleted now l s), row_of (snd (mem_MarkCompleted now l s))) =
      guarded l (completed_row now) (row_of s)"
   "(fst (mem_MarkDead now l (Some (Valid j)) s), row_of (snd (mem_MarkDead now l (Some (Valid j)) s))) =
      guarded l (dead_row now j) (row_of s)"
   "(fst (mem_MarkCancelled now l (Some (Valid j)) s), row_of (snd (mem_MarkCancelled now l (Some (Valid j)) s))) =
      guarded l (cancelled_row now j) (row_of s)"
   "(fst (mem_MarkRetryable l t (Some (Valid j)) s), row_of (snd (mem_MarkRetryable l t (Some (Valid j)) s))) =
      guarded l (retryable_row t j) (row_of s)"
   "(fst (mem_MarkSnoozed l t s), row_of (snd (mem_MarkSnoozed l t s))) =
      guarded l (snoozed_row t) (row_of s)"
  unfolding mem_MarkCompleted_def mem_MarkDead_def mem_MarkCancelled_def mem_MarkRetryable_def
    mem_MarkSnoozed_def finalize_def
  by (rule transition_guarded,
      simp add: finalizeRow_def retryRow_def snoozeRow_def row_defs mark_change[OF store_wf_row(4)[OF assms]]
        del: appendError.simps(2))+

section \<open>Statistics and listings\<close>

text \<open>How many rows of a queue are in a counted state of a name.\<close>

definition depth_of :: "job_row list \<Rightarrow> string \<times> string \<Rightarrow> int" where
  "depth_of rows key = int (length (filter (\<lambda>r. counted (State r) \<and> (Queue r, state_name (State r)) = key) rows))"

lemma depth_of_Nil [simp]: "depth_of [] key = 0"
  by (simp add: depth_of_def)

lemma depth_of_Cons:
  "depth_of (r # rows) key =
     (if counted (State r) \<and> (Queue r, state_name (State r)) = key then 1 else 0) + depth_of rows key"
  by (simp add: depth_of_def)

lemma depth_of_nonneg [simp]: "0 \<le> depth_of rows key"
  by (simp add: depth_of_def)

lemma map_of_bumpDepth:
  "map_of (fold bumpDepth rows counts) key =
     (if depth_of rows key = 0 then map_of counts key
      else Some ((case map_of counts key of None \<Rightarrow> 0 | Some n \<Rightarrow> n) + depth_of rows key))"
proof (induction rows arbitrary: counts)
  case (Cons r rows)
  have step: "map_of (bumpDepth r counts) key =
    (if counted (State r) \<and> (Queue r, state_name (State r)) = key
     then Some ((case map_of counts key of None \<Rightarrow> 0 | Some n \<Rightarrow> n) + 1) else map_of counts key)"
    by (simp add: bumpDepth_def Let_def)
  have "1 + depth_of rows key \<noteq> 0" using depth_of_nonneg[of rows key] by linarith
  then show ?case by (simp add: Cons.IH step depth_of_Cons split: option.split)
qed simp

lemma distinct_bumpDepth: "distinct (map fst counts) \<Longrightarrow> distinct (map fst (fold bumpDepth rows counts))"
proof (induction rows arbitrary: counts)
  case (Cons r rows)
  have "distinct (map fst (bumpDepth r counts))" using Cons.prems by (simp add: bumpDepth_def Let_def)
  then show ?case by (simp add: Cons.IH)
qed simp

lemma strict_sort_pairs:
  assumes "distinct (map fst al)"
  shows "sorted_wrt (\<lambda>a b. fst a < fst b) (sort_key fst al)"
  using assms by (rule strict_sort_key)

text \<open>The oldest due time of a queue.\<close>

definition due_times :: "time \<Rightarrow> job_row list \<Rightarrow> string \<Rightarrow> time set" where
  "due_times now rows q = ScheduledAt ` {r \<in> set rows. due q now r}"

lemma due_times_Cons:
  "due_times now (r # rows) q = (if due q now r then insert (ScheduledAt r) (due_times now rows q) else due_times now rows q)"
  by (auto simp: due_times_def)

lemma finite_due_times [simp]: "finite (due_times now rows q)"
  by (simp add: due_times_def)

lemma map_of_noteOldest:
  "map_of (fold (noteOldest now) rows oldest) q =
     (if due_times now rows q = {} then map_of oldest q
      else Some (case map_of oldest q of None \<Rightarrow> Min (due_times now rows q)
                 | Some t \<Rightarrow> min t (Min (due_times now rows q))))"
proof (induction rows arbitrary: oldest)
  case (Cons r rows)
  have step: "map_of (noteOldest now r oldest) q =
    (if due q now r then Some (case map_of oldest q of None \<Rightarrow> ScheduledAt r | Some t \<Rightarrow> min t (ScheduledAt r))
     else map_of oldest q)"
    by (auto simp: noteOldest_def due_def split: option.split)
  show ?case
    by (cases "due_times now rows q = {}")
      (auto simp: Cons.IH step due_times_Cons min.assoc split: option.split)
qed (simp add: due_times_def)

lemma distinct_noteOldest:
  "distinct (map fst oldest) \<Longrightarrow> distinct (map fst (fold (noteOldest now) rows oldest))"
proof (induction rows arbitrary: oldest)
  case (Cons r rows)
  have "distinct (map fst (noteOldest now r oldest))"
    using Cons.prems by (simp add: noteOldest_def split: option.split)
  then show ?case by (simp add: Cons.IH)
qed simp

text \<open>What a listing filters on.\<close>

definition listed :: "list_params \<Rightarrow> job_row \<Rightarrow> bool" where
  "listed p row \<longleftrightarrow> (lp_Queue p = [] \<or> Queue row = lp_Queue p) \<and>
     (lp_State p = [] \<or> state_name (State row) = lp_State p)"

lemma sort_key_tiebreak: "sort_key (\<lambda>r. (f r, g (f r))) xs = sort_key (f :: 'a \<Rightarrow> int) xs" for g :: "int \<Rightarrow> int"
proof -
  have "insort_key (\<lambda>r. (f r, g (f r))) x xs = insort_key f x xs" for x xs
    by (induction xs) auto
  then have "insort_key (\<lambda>r. (f r, g (f r))) = insort_key f" by (simp add: fun_eq_iff)
  then show ?thesis by (simp add: sort_key_def)
qed

lemma newest_first:
  "sort_key (\<lambda>row. - ID row) (filter (listed p) (map snd (jobs s))) =
     selectRows (\<lambda>row. - ID row) (listed p) s"
  using sort_key_tiebreak[of "\<lambda>r::job_row. - ID r" uminus] by (simp add: selectRows_def)

section \<open>Properties\<close>

definition demo_params :: insert_params where
  "demo_params = \<lparr>ip_Kind = ''k'', ip_Queue = ''default'', ip_Args = Valid JNull,
     ip_ScheduledAt = 0, ip_UniqueKey = []\<rparr>"

definition demo_waiting :: mem_store where
  "demo_waiting = snd (mem_Insert 100 demo_params mem_New)"

lemma demo_waiting_wf: "store_wf demo_waiting"
  by (simp add: demo_waiting_def wf_intros)

definition demo_store :: mem_store where
  "demo_store = snd (mem_FetchAvailable 200 ''default'' 50 1 demo_waiting)"

lemma demo_store_wf: "store_wf demo_store"
  by (simp add: demo_store_def demo_waiting_wf wf_intros)

definition demo_lease :: lease where
  "demo_lease = \<lparr>lease_ID = 1, lease_Attempt = 1\<rparr>"

text \<open>C18: a fetch of at most \<open>limit\<close> jobs returns the due waiting rows of the queue that
  come first by due time and id, as many as there are up to the limit and no row twice; each
  is stored running, with its attempt counted and a lease of the requested length, and no
  other row changes.\<close>

theorem FetchAvailable_spec:
  assumes "store_wf s" "0 \<le> limit"
  shows "\<exists>picked s'. mem_FetchAvailable now queue leaseFor limit s =
      (Inr (map (claimRow now leaseFor) picked), s') \<and>
    picks (due queue now) ScheduledAt limit (row_of s) picked \<and>
    row_of s' = change_rows (claimRow now leaseFor) picked (row_of s) \<and>
    nextID s' = nextID s \<and> store_wf s'"
proof -
  have order: "byScheduledAt = ScheduledAt" by (simp add: byScheduledAt_def fun_eq_iff)
  show ?thesis
    by (rule mem_FetchAvailable_rows[OF assms(1), of now queue leaseFor limit])
      (use picks_limited[OF assms, of "due queue now" byScheduledAt] order in auto)
qed

theorem FetchAvailable_spec_witness:
  "\<exists>picked s'. mem_FetchAvailable 200 ''default'' 50 1 demo_waiting =
      (Inr (map (claimRow 200 50) picked), s') \<and>
    picks (due ''default'' 200) ScheduledAt 1 (row_of demo_waiting) picked \<and>
    row_of s' = change_rows (claimRow 200 50) picked (row_of demo_waiting) \<and>
    nextID s' = nextID demo_waiting \<and> store_wf s'"
  by (rule FetchAvailable_spec[OF demo_waiting_wf]) simp

text \<open>The rescue fetch returns the running rows whose lease has expired, earliest expiry
  first, up to \<open>limit\<close>; it renews only their lease, so the attempt the crashed worker was
  on is still the current one, and no other row changes.\<close>

theorem FetchExpired_spec:
  assumes "store_wf s" "0 \<le> limit"
  shows "\<exists>picked s'. mem_FetchExpired now leaseFor limit s =
      (Inr (map (reclaimRow now leaseFor) picked), s') \<and>
    picks (expired now) byLeasedUntil limit (row_of s) picked \<and>
    row_of s' = change_rows (reclaimRow now leaseFor) picked (row_of s) \<and>
    nextID s' = nextID s \<and> store_wf s'"
  by (rule mem_FetchExpired_rows[OF assms(1), of now leaseFor limit])
    (use picks_limited[OF assms, of "expired now" byLeasedUntil] in auto)

theorem FetchExpired_spec_witness:
  "\<exists>picked s'. mem_FetchExpired 900 50 10 demo_store = (Inr (map (reclaimRow 900 50) picked), s') \<and>
    picks (expired 900) byLeasedUntil 10 (row_of demo_store) picked \<and>
    row_of s' = change_rows (reclaimRow 900 50) picked (row_of demo_store) \<and>
    nextID s' = nextID demo_store \<and> store_wf s'"
  by (rule FetchExpired_spec[OF demo_store_wf]) simp

text \<open>A batch insert stores exactly what inserting its items one after the other would
  store, with the same rows returned; if any item is refused as a duplicate, of a stored job
  or of an earlier item, the whole batch is refused and the store is unchanged.\<close>

theorem InsertMany_is_atomic:
  assumes "store_wf s"
  shows "mem_InsertMany now batch s =
    (case insertEach now batch s of
       (Inl e, _) \<Rightarrow> (Inl e, s) | (Inr rs, s') \<Rightarrow> (Inr rs, s'))"
  using assms by (rule mem_InsertMany_insertEach)

theorem InsertMany_is_atomic_witness:
  "mem_InsertMany 300 [demo_params, demo_params] demo_store =
    (case insertEach 300 [demo_params, demo_params] demo_store of
       (Inl e, _) \<Rightarrow> (Inl e, demo_store) | (Inr rs, s') \<Rightarrow> (Inr rs, s')) \<and>
   fst (mem_InsertMany 300 (replicate 2 (demo_params\<lparr>ip_UniqueKey := ''u''\<rparr>)) demo_store) =
     Inl ErrDuplicateJob"
  by (rule conjI[OF InsertMany_is_atomic[OF demo_store_wf]]) code_simp

text \<open>C19: every Mark method implements the contract's guard: an unknown id, a row that is not
  running and an attempt that has moved on are refused in that order with the store
  unchanged; otherwise the row, and only that row, takes the documented new form.\<close>

theorem marks_implement_contract:
  assumes "store_wf s"
  shows
   "(fst (mem_MarkCompleted now l s), row_of (snd (mem_MarkCompleted now l s))) =
      guarded l (completed_row now) (row_of s) \<and>
    (fst (mem_MarkDead now l (Some (Valid j)) s), row_of (snd (mem_MarkDead now l (Some (Valid j)) s))) =
      guarded l (dead_row now j) (row_of s) \<and>
    (fst (mem_MarkCancelled now l (Some (Valid j)) s), row_of (snd (mem_MarkCancelled now l (Some (Valid j)) s))) =
      guarded l (cancelled_row now j) (row_of s) \<and>
    (fst (mem_MarkRetryable l t (Some (Valid j)) s), row_of (snd (mem_MarkRetryable l t (Some (Valid j)) s))) =
      guarded l (retryable_row t j) (row_of s) \<and>
    (fst (mem_MarkSnoozed l t s), row_of (snd (mem_MarkSnoozed l t s))) =
      guarded l (snoozed_row t) (row_of s)"
  using marks_guarded[OF assms] by blast

theorem marks_implement_contract_witness:
  "(fst (mem_MarkDead 300 demo_lease (Some (Valid (JObj []))) demo_store),
    row_of (snd (mem_MarkDead 300 demo_lease (Some (Valid (JObj []))) demo_store))) =
      guarded demo_lease (dead_row 300 (JObj [])) (row_of demo_store) \<and>
   fst (mem_MarkDead 300 demo_lease (Some (Valid (JObj []))) demo_store) = Inr ()"
  by (rule conjI[OF marks_implement_contract[OF demo_store_wf, THEN conjunct2, THEN conjunct1]]) code_simp

text \<open>A heartbeat pushes out the lease of every named job that is still running on the
  named attempt, and changes nothing else: a lease that has moved on is never renewed.\<close>

theorem ExtendLeases_spec:
  "fst (mem_ExtendLeases now leases leaseFor s) = Inr () \<and>
   row_of (snd (mem_ExtendLeases now leases leaseFor s)) =
     extended (now + leaseFor) leases (row_of s)"
  by (simp add: mem_ExtendLeases_def row_of_extendLoop)

text \<open>A listing with a positive limit returns the newest matching rows, newest first,
  up to the limit.\<close>

theorem ListJobs_spec:
  assumes "store_wf s" "0 < lp_Limit p"
  shows "\<exists>found. mem_ListJobs p s = Inr found \<and>
    picks (listed p) (\<lambda>row. - ID row) (lp_Limit p) (row_of s) found \<and>
    sorted_wrt (\<lambda>a b. ID b < ID a) found"
proof -
  let ?sel = "selectRows (\<lambda>row. - ID row) (listed p) s"
  have eq: "(\<lambda>row. \<not> (lp_Queue p \<noteq> [] \<and> Queue row \<noteq> lp_Queue p) \<and>
      \<not> (lp_State p \<noteq> [] \<and> state_name (State row) \<noteq> lp_State p)) = listed p"
    by (auto simp: listed_def fun_eq_iff)
  have "mem_ListJobs p s = Inr (limited (lp_Limit p) ?sel)"
    unfolding mem_ListJobs_def Let_def eq newest_first using assms(2) by (simp add: limited_def)
  moreover have "sorted_wrt (\<lambda>a b. ID b < ID a) ?sel"
    by (rule sorted_wrt_mono_rel[OF _ selectRows_strict[OF assms(1)]]) auto
  then have "sorted_wrt (\<lambda>a b. ID b < ID a) (limited (lp_Limit p) ?sel)"
    by (simp add: limited_def sorted_wrt_take)
  ultimately show ?thesis using picks_limited[OF assms(1), of "lp_Limit p"] assms(2) by simp
qed

theorem ListJobs_spec_witness:
  "\<exists>found. mem_ListJobs \<lparr>lp_Queue = [], lp_State = ''running'', lp_Limit = 5\<rparr> demo_store = Inr found \<and>
    picks (listed \<lparr>lp_Queue = [], lp_State = ''running'', lp_Limit = 5\<rparr>) (\<lambda>row. - ID row) 5
      (row_of demo_store) found \<and>
    sorted_wrt (\<lambda>a b. ID b < ID a) found"
  using ListJobs_spec[OF demo_store_wf, of "\<lparr>lp_Queue = [], lp_State = ''running'', lp_Limit = 5\<rparr>"]
  by simp

lemma mem_Stats_facts:
  "(d \<in> set (Depths (mem_Stats now s)) \<longleftrightarrow>
            0 < qd_Count d \<and> qd_Count d = depth_of (map snd (jobs s)) (qd_Queue d, qd_State d)) \<and>
    (a \<in> set (Oldest (mem_Stats now s)) \<longleftrightarrow>
            due_times now (map snd (jobs s)) (qa_Queue a) \<noteq> {} \<and>
            qa_AgeSeconds a = real_of_int (now - Min (due_times now (map snd (jobs s)) (qa_Queue a))) / 10 ^ 9) \<and>
    sorted_wrt (\<lambda>x y. (qd_Queue x, qd_State x) < (qd_Queue y, qd_State y)) (Depths (mem_Stats now s)) \<and>
    sorted_wrt (\<lambda>x y. qa_Queue x < qa_Queue y) (Oldest (mem_Stats now s))"
  (is "(_ \<longleftrightarrow> _ \<and> _ = depth_of ?rows _) \<and> _")
proof -
  let ?c = "fold bumpDepth ?rows []" and ?o = "fold (noteOldest now) ?rows []"
  have dc: "distinct (map fst ?c)" and d_o: "distinct (map fst ?o)"
    by (simp_all add: distinct_bumpDepth distinct_noteOldest)
  have c: "((q, st), n) \<in> set ?c \<longleftrightarrow> 0 < n \<and> n = depth_of ?rows (q, st)" for q st n
    using depth_of_nonneg[of ?rows "(q, st)"]
    by (auto simp: map_of_iff_mem[OF dc, symmetric] map_of_bumpDepth simp del: depth_of_nonneg)
  have o: "(q, t) \<in> set ?o \<longleftrightarrow> due_times now ?rows q \<noteq> {} \<and> t = Min (due_times now ?rows q)" for q t
    by (auto simp: map_of_iff_mem[OF d_o, symmetric] map_of_noteOldest)
  have "d \<in> set (Depths (mem_Stats now s)) \<longleftrightarrow> ((qd_Queue d, qd_State d), qd_Count d) \<in> set ?c"
    by (cases d) (force simp: mem_Stats_def Let_def)
  moreover have "a \<in> set (Oldest (mem_Stats now s)) \<longleftrightarrow>
      (\<exists>t. (qa_Queue a, t) \<in> set ?o \<and> qa_AgeSeconds a = real_of_int (now - t) / 10 ^ 9)"
    by (cases a) (force simp: mem_Stats_def Let_def)
  moreover have "sorted_wrt (\<lambda>x y. (qd_Queue x, qd_State x) < (qd_Queue y, qd_State y)) (Depths (mem_Stats now s))"
    using strict_sort_pairs[OF dc]
    by (simp add: mem_Stats_def Let_def sorted_wrt_map case_prod_beta del: less_prod_simp)
  moreover have "sorted_wrt (\<lambda>x y. qa_Queue x < qa_Queue y) (Oldest (mem_Stats now s))"
    using strict_sort_pairs[OF d_o]
    by (simp add: mem_Stats_def Let_def sorted_wrt_map case_prod_beta)
  ultimately show ?thesis unfolding c o by blast
qed

text \<open>\<open>Stats\<close> counts exactly: a depth is listed for a queue and state name iff some row
  of that queue is in that (counted) state, with their number; an age is listed for a queue
  iff it has a due waiting row, and is the time since the earliest due one; both lists are
  sorted and name each key once.\<close>

theorem Stats_correct:
  "(d \<in> set (Depths (mem_Stats now s)) \<longleftrightarrow>
            0 < qd_Count d \<and> qd_Count d = depth_of (map snd (jobs s)) (qd_Queue d, qd_State d)) \<and>
    (a \<in> set (Oldest (mem_Stats now s)) \<longleftrightarrow>
            due_times now (map snd (jobs s)) (qa_Queue a) \<noteq> {} \<and>
            qa_AgeSeconds a = real_of_int (now - Min (due_times now (map snd (jobs s)) (qa_Queue a))) / 10 ^ 9) \<and>
    sorted_wrt (\<lambda>x y. (qd_Queue x, qd_State x) < (qd_Queue y, qd_State y)) (Depths (mem_Stats now s)) \<and>
    sorted_wrt (\<lambda>x y. qa_Queue x < qa_Queue y) (Oldest (mem_Stats now s))"
  by (rule mem_Stats_facts)

end
