(* ===== verification/Lifecycle.thy ===== *)
theory Lifecycle
  imports MemDriver
begin

text \<open>
  What any sequence of driver calls does to the stored jobs: the state machine of a row,
  the fence that keeps a stale worker from recording an outcome, and the unique slots.
\<close>

section \<open>Sequences of operations\<close>

text \<open>
  One call of a method, with the clock reading and arguments it is made with. Every method
  holds the mutex while it works, so any concurrent use of the driver is a sequence of them.
\<close>

datatype mem_op =
    Op_Insert time insert_params
  | Op_InsertMany time "insert_params list"
  | Op_FetchAvailable time string duration int
  | Op_FetchExpired time duration int
  | Op_ExtendLeases time "lease list" duration
  | Op_MarkCompleted time lease
  | Op_MarkRetryable lease time "raw_message option"
  | Op_MarkDead time lease "raw_message option"
  | Op_MarkCancelled time lease "raw_message option"
  | Op_MarkSnoozed lease time
  | Op_OperatorCancel time int
  | Op_RedriveDead time int

abbreviation no_gap :: "nat \<Rightarrow> mem_store \<Rightarrow> mem_store" where
  "no_gap \<equiv> (\<lambda>_ s. s)"

fun exec_op :: "mem_op \<Rightarrow> mem_store \<Rightarrow> mem_store" where
  "exec_op (Op_Insert now p) s = snd (mem_Insert now p s)"
| "exec_op (Op_InsertMany now batch) s = snd (mem_InsertMany now batch s)"
| "exec_op (Op_FetchAvailable now q d limit) s = snd (mem_FetchAvailable now q d limit s)"
| "exec_op (Op_FetchExpired now d limit) s = snd (mem_FetchExpired now d limit s)"
| "exec_op (Op_ExtendLeases now ls d) s = snd (mem_ExtendLeases now ls d s)"
| "exec_op (Op_MarkCompleted now l) s = snd (mem_MarkCompleted now l s)"
| "exec_op (Op_MarkRetryable l t d) s = snd (mem_MarkRetryable l t d s)"
| "exec_op (Op_MarkDead now l d) s = snd (mem_MarkDead now l d s)"
| "exec_op (Op_MarkCancelled now l d) s = snd (mem_MarkCancelled now l d s)"
| "exec_op (Op_MarkSnoozed l t) s = snd (mem_MarkSnoozed l t s)"
| "exec_op (Op_OperatorCancel now k) s = snd (mem_OperatorCancel no_gap now k s)"
| "exec_op (Op_RedriveDead now k) s = snd (mem_RedriveDead no_gap now k s)"

definition mem_run :: "mem_op list \<Rightarrow> mem_store \<Rightarrow> mem_store" where
  "mem_run ops s = fold exec_op ops s"

lemma mem_run_simps [simp]:
  "mem_run [] s = s" "mem_run (op # ops) s = mem_run ops (exec_op op s)"
  by (simp_all add: mem_run_def)

lemma store_wf_exec_op: "store_wf s \<Longrightarrow> store_wf (exec_op op s)"
  by (cases op) (simp_all add: wf_intros)

lemma store_wf_run: "store_wf s \<Longrightarrow> store_wf (mem_run ops s)"
  by (induction ops arbitrary: s) (simp_all add: store_wf_exec_op)


section \<open>The life of a row\<close>

text \<open>
  What one operation may do to one stored row: the state machine of a job. A Mark needs
  the row to be running on the attempt its lease names.
\<close>

definition held_by :: "lease \<Rightarrow> job_row \<Rightarrow> bool" where
  "held_by l r \<longleftrightarrow> State r = Running \<and> ID r = lease_ID l \<and> Attempt r = lease_Attempt l"

inductive row_step :: "mem_op \<Rightarrow> job_row \<Rightarrow> job_row \<Rightarrow> bool" where
  claim: "due q now r \<Longrightarrow> row_step (Op_FetchAvailable now q d limit) r (claimRow now d r)"
| reclaim: "expired now r \<Longrightarrow> row_step (Op_FetchExpired now d limit) r (reclaimRow now d r)"
| extend: "l \<in> set ls \<Longrightarrow> held_by l r \<Longrightarrow>
    row_step (Op_ExtendLeases now ls d) r (r\<lparr>LeasedUntil := Some (now + d)\<rparr>)"
| complete: "held_by l r \<Longrightarrow> finalizeRow now Completed None r = Inr r' \<Longrightarrow>
    row_step (Op_MarkCompleted now l) r (r'\<lparr>LeasedUntil := None\<rparr>)"
| dead: "held_by l r \<Longrightarrow> finalizeRow now Dead e r = Inr r' \<Longrightarrow>
    row_step (Op_MarkDead now l e) r (r'\<lparr>LeasedUntil := None\<rparr>)"
| cancelled: "held_by l r \<Longrightarrow> finalizeRow now Cancelled e r = Inr r' \<Longrightarrow>
    row_step (Op_MarkCancelled now l e) r (r'\<lparr>LeasedUntil := None\<rparr>)"
| retryable: "held_by l r \<Longrightarrow> retryRow t e r = Inr r' \<Longrightarrow>
    row_step (Op_MarkRetryable l t e) r (r'\<lparr>LeasedUntil := None\<rparr>)"
| snoozed: "held_by l r \<Longrightarrow> snoozeRow t r = Inr r' \<Longrightarrow>
    row_step (Op_MarkSnoozed l t) r (r'\<lparr>LeasedUntil := None\<rparr>)"
| op_cancel: "cancellable (State r) \<Longrightarrow> ID r = k \<Longrightarrow>
    row_step (Op_OperatorCancel now k) r (cancelRow now r)"
| redrive: "State r = Dead \<Longrightarrow> ID r = k \<Longrightarrow>
    row_step (Op_RedriveDead now k) r (redriveRow now r)"

text \<open>An operation keeps a stored row or moves it by one step.\<close>

definition stays_or_steps :: "mem_op \<Rightarrow> job_row \<Rightarrow> job_row option \<Rightarrow> bool" where
  "stays_or_steps op r x \<longleftrightarrow> x = Some r \<or> (\<exists>r'. x = Some r' \<and> row_step op r r')"

lemma stays [simp]: "stays_or_steps op r (Some r)"
  by (simp add: stays_or_steps_def)

lemma transition_row:
  assumes wf: "store_wf s" and r: "row_of s k = Some r"
    and step: "\<And>r'. held_by l r \<Longrightarrow> app r = Inr r' \<Longrightarrow> row_step op r (r'\<lparr>LeasedUntil := None\<rparr>)"
  shows "stays_or_steps op r (row_of (snd (transition l app s)) k)"
proof (cases "fst (transition l app s)")
  case (Inl e)
  then show ?thesis using r by (simp add: transition_refused)
next
  case (Inr u)
  then have "fst (transition l app s) = Inr ()" by simp
  then obtain r0 r' where *: "row_of s (lease_ID l) = Some r0" "State r0 = Running"
    "Attempt r0 = lease_Attempt l" "app r0 = Inr r'"
    "snd (transition l app s) =
       s\<lparr>jobs := AList.update (lease_ID l) (r'\<lparr>LeasedUntil := None\<rparr>) (jobs s)\<rparr>"
    by (rule transition_accepted)
  show ?thesis
  proof (cases "k = lease_ID l")
    case True
    then have "held_by l r" "app r = Inr r'"
      using * r store_wf_row(1)[OF wf r] by (auto simp: held_by_def)
    from step[OF this] show ?thesis using True *(5) by (simp add: stays_or_steps_def)
  qed (simp add: *(5) r)
qed

lemma change_rows_row:
  assumes wf: "store_wf s" and r: "row_of s k = Some r"
    and "row_of s' = change_rows change (limited limit (selectRows order keep s)) (row_of s)"
    and step: "keep r \<Longrightarrow> row_step op r (change r)"
  shows "stays_or_steps op r (row_of s' k)"
proof (cases "k \<in> ID ` set (limited limit (selectRows order keep s))")
  case True
  then obtain x where "x \<in> eligible_rows keep (row_of s)" "ID x = k"
    using limited_sublist set_selectRows[OF wf] by (metis imageE subsetD)
  then have "keep r" using eligible_rowsD[OF wf] r by fastforce
  then show ?thesis using True r step by (simp add: assms(3) change_rows_def stays_or_steps_def)
qed (simp add: assms(3) change_rows_def r)

lemma mem_Insert_keeps:
  assumes wf: "store_wf s" and r: "row_of s k = Some r"
  shows "row_of (snd (mem_Insert now p s)) k = Some r"
  using store_wf_row(3)[OF wf r] r by (simp add: mem_Insert_def Let_def)

lemma insertEach_keeps:
  "store_wf s \<Longrightarrow> row_of s k = Some r \<Longrightarrow> row_of (snd (insertEach now batch s)) k = Some r"
proof (induction batch arbitrary: s)
  case (Cons p batch)
  have "store_wf (snd (mem_Insert now p s))" "row_of (snd (mem_Insert now p s)) k = Some r"
    using Cons.prems by (simp_all add: store_wf_Insert mem_Insert_keeps)
  with Cons.IH[OF this] show ?case by (auto split: prod.splits sum.splits)
qed simp

lemma mem_InsertMany_keeps:
  assumes "store_wf s" "row_of s k = Some r"
  shows "row_of (snd (mem_InsertMany now batch s)) k = Some r"
  using insertEach_keeps[OF assms, of now batch] assms
  by (auto simp: mem_InsertMany_insertEach split: prod.splits sum.splits)

lemma mem_OperatorCancel_no_gap:
  "mem_OperatorCancel no_gap now k s =
     (case row_of s k of
        None \<Rightarrow> (Inl ErrNotFound, s)
      | Some row \<Rightarrow>
          if cancellable (State row)
          then (Inr (cancelRow now row), s\<lparr>jobs := AList.update k (cancelRow now row) (jobs s)\<rparr>)
          else (Inl ErrInvalidTransition, s))"
  by (simp add: mem_OperatorCancel_def operatorCancel_def afterOperatorMiss_def Let_def split: option.split)

lemma mem_RedriveDead_no_gap:
  "mem_RedriveDead no_gap now k s =
     (case row_of s k of
        None \<Rightarrow> (Inl ErrNotFound, s)
      | Some row \<Rightarrow>
          if State row = Dead
          then (Inr (redriveRow now row), s\<lparr>jobs := AList.update k (redriveRow now row) (jobs s)\<rparr>)
          else (Inl ErrInvalidTransition, s))"
  by (simp add: mem_RedriveDead_def redriveDead_def afterOperatorMiss_def Let_def split: option.split)

lemma exec_op_row:
  assumes wf: "store_wf s" and r: "row_of s k = Some r"
  shows "stays_or_steps op r (row_of (exec_op op s) k)"
proof (cases op)
  case (Op_FetchAvailable now q d limit)
  show ?thesis
    by (rule mem_FetchAvailable_rows[OF wf, of now q d limit])
      (use change_rows_row[OF wf r] row_step.claim in \<open>fastforce simp: Op_FetchAvailable\<close>)
next
  case (Op_FetchExpired now d limit)
  show ?thesis
    by (rule mem_FetchExpired_rows[OF wf, of now d limit])
      (use change_rows_row[OF wf r] row_step.reclaim in \<open>fastforce simp: Op_FetchExpired\<close>)
next
  case (Op_ExtendLeases now ls d)
  have "row_step op r (r\<lparr>LeasedUntil := Some (now + d)\<rparr>)" if "holds_lease ls k r"
    using that store_wf_row(1)[OF wf r] unfolding Op_ExtendLeases
    by (auto simp: holds_lease_def held_by_def intro: row_step.extend)
  then show ?thesis
    using r by (simp add: Op_ExtendLeases mem_ExtendLeases_def row_of_extendLoop extended_def stays_or_steps_def)
next
  case (Op_MarkCompleted now l)
  show ?thesis unfolding Op_MarkCompleted exec_op.simps mem_MarkCompleted_def finalize_def
    by (rule transition_row[OF wf r]) (rule row_step.complete)
next
  case (Op_MarkRetryable l t e)
  show ?thesis unfolding Op_MarkRetryable exec_op.simps mem_MarkRetryable_def
    by (rule transition_row[OF wf r]) (rule row_step.retryable)
next
  case (Op_MarkDead now l e)
  show ?thesis unfolding Op_MarkDead exec_op.simps mem_MarkDead_def finalize_def
    by (rule transition_row[OF wf r]) (rule row_step.dead)
next
  case (Op_MarkCancelled now l e)
  show ?thesis unfolding Op_MarkCancelled exec_op.simps mem_MarkCancelled_def finalize_def
    by (rule transition_row[OF wf r]) (rule row_step.cancelled)
next
  case (Op_MarkSnoozed l t)
  show ?thesis unfolding Op_MarkSnoozed exec_op.simps mem_MarkSnoozed_def
    by (rule transition_row[OF wf r]) (rule row_step.snoozed)
next
  case (Op_OperatorCancel now k')
  show ?thesis
    using r store_wf_row(1)[OF wf r]
    by (auto simp: Op_OperatorCancel mem_OperatorCancel_no_gap stays_or_steps_def
        intro: row_step.op_cancel split: option.split)
next
  case (Op_RedriveDead now k')
  show ?thesis
    using r store_wf_row(1)[OF wf r]
    by (auto simp: Op_RedriveDead mem_RedriveDead_no_gap stays_or_steps_def
        intro: row_step.redrive split: option.split)
qed (use wf r in \<open>simp_all add: mem_Insert_keeps mem_InsertMany_keeps\<close>)

lemma appendError_keeps:
  assumes "appendError r d = Inr r'"
  shows "ID r' = ID r" "Kind r' = Kind r" "Queue r' = Queue r" "Args r' = Args r"
    "State r' = State r" "Attempt r' = Attempt r" "MaxAttempts r' = MaxAttempts r"
    "CreatedAt r' = CreatedAt r" "UniqueKey r' = UniqueKey r" "ScheduledAt r' = ScheduledAt r"
    "FinalizedAt r' = FinalizedAt r"
  using assms by (cases d; auto split: option.splits raw_message.splits)+

lemma finalizeRow_keeps:
  assumes "finalizeRow now st d r = Inr r'"
  shows "ID r' = ID r" "Kind r' = Kind r" "Queue r' = Queue r" "Args r' = Args r"
    "State r' = st" "Attempt r' = Attempt r" "MaxAttempts r' = MaxAttempts r"
    "CreatedAt r' = CreatedAt r" "UniqueKey r' = UniqueKey r" "FinalizedAt r' = Some now"
  using assms by (auto simp: finalizeRow_def appendError_keeps split: sum.splits)

lemma retryRow_keeps:
  assumes "retryRow t d r = Inr r'"
  shows "ID r' = ID r" "Kind r' = Kind r" "Queue r' = Queue r" "Args r' = Args r"
    "State r' = Retryable" "Attempt r' = Attempt r" "MaxAttempts r' = MaxAttempts r"
    "CreatedAt r' = CreatedAt r" "UniqueKey r' = UniqueKey r" "ScheduledAt r' = t"
  using assms by (auto simp: retryRow_def appendError_keeps split: sum.splits)

lemmas step_defs = claimRow_def reclaimRow_def cancelRow_def redriveRow_def snoozeRow_def

text \<open>A step keeps what identifies a job, and only an operator's redrive makes a terminal
  row active again.\<close>

lemma row_step_slot:
  assumes "row_step op r r'"
  shows "ID r' = ID r" "Kind r' = Kind r" "Queue r' = Queue r" "Args r' = Args r"
    "MaxAttempts r' = MaxAttempts r" "CreatedAt r' = CreatedAt r" "UniqueKey r' = UniqueKey r"
  using assms
  by (induction rule: row_step.induct)
    (auto simp: step_defs finalizeRow_keeps retryRow_keeps)

section \<open>What never changes\<close>

text \<open>What a job is, as opposed to how far it has got.\<close>

definition same_job :: "job_row \<Rightarrow> job_row \<Rightarrow> bool" where
  "same_job r r' \<longleftrightarrow> ID r' = ID r \<and> Kind r' = Kind r \<and> Queue r' = Queue r \<and> Args r' = Args r \<and>
     MaxAttempts r' = MaxAttempts r \<and> CreatedAt r' = CreatedAt r \<and> UniqueKey r' = UniqueKey r"

text \<open>The later row has the errors of the earlier one, in their order, and maybe more.\<close>

definition errors_grow :: "job_row \<Rightarrow> job_row \<Rightarrow> bool" where
  "errors_grow r r' \<longleftrightarrow>
     (\<exists>js es. unmarshal_list (Errors r) = Some js \<and> unmarshal_list (Errors r') = Some (js @ es))"

definition settled :: "job_row \<Rightarrow> bool" where
  "settled r \<longleftrightarrow> State r = Completed \<or> State r = Cancelled"

lemma errors_grow_refl: "row_wf r \<Longrightarrow> errors_grow r r"
  by (auto simp: errors_grow_def row_wf_def)

lemma errors_grow_trans: "errors_grow a b \<Longrightarrow> errors_grow b c \<Longrightarrow> errors_grow a c"
  by (fastforce simp: errors_grow_def)

lemma same_job_trans: "same_job a b \<Longrightarrow> same_job b c \<Longrightarrow> same_job a c"
  by (simp add: same_job_def)

lemma errors_grow_upd [simp]:
  "errors_grow r (r'\<lparr>LeasedUntil := t\<rparr>) = errors_grow r r'"
  "errors_grow r (r'\<lparr>State := st, FinalizedAt := f\<rparr>) = errors_grow r r'"
  "errors_grow r (r'\<lparr>State := st, ScheduledAt := t'\<rparr>) = errors_grow r r'"
  by (simp_all add: errors_grow_def)

lemma appendError_grows:
  assumes "appendError r d = Inr r'" "row_wf r"
  shows "errors_grow r r'"
  using assms
  by (cases d) (auto simp: row_wf_def errors_grow_def split: option.splits raw_message.splits)

lemma finalizeRow_grows: "finalizeRow now st d r = Inr r' \<Longrightarrow> row_wf r \<Longrightarrow> errors_grow r r'"
  by (auto simp: finalizeRow_def appendError_grows split: sum.splits)

lemma retryRow_grows: "retryRow t d r = Inr r' \<Longrightarrow> row_wf r \<Longrightarrow> errors_grow r r'"
  by (auto simp: retryRow_def appendError_grows split: sum.splits)

lemma row_step_grows:
  assumes "row_step op r r'" "row_wf r"
  shows "errors_grow r r'"
  using assms
  by (induction rule: row_step.induct)
    (simp_all add: finalizeRow_grows retryRow_grows,
     auto simp: errors_grow_def row_wf_def step_defs)

lemma row_step_settled: "row_step op r r' \<Longrightarrow> \<not> settled r"
  by (induction rule: row_step.induct)
    (auto simp: settled_def held_by_def due_def expired_def)

lemma same_job_step: "row_step op r r' \<Longrightarrow> same_job r r'"
  by (simp add: same_job_def row_step_slot)

text \<open>C6: whatever sequence of operations runs, a stored job is never lost and keeps its
  identity (id, kind, queue, arguments, attempt ceiling, creation time, unique key); the
  errors it has accumulated stay, in order; a completed or cancelled row never changes
  again; and every stored row is well formed (a lease exactly while running, a finalization
  time exactly in a terminal state).\<close>

theorem job_lifecycle:
  assumes "store_wf s" "row_of s k = Some r"
  shows "\<exists>r'. row_of (mem_run ops s) k = Some r' \<and> same_job r r' \<and> errors_grow r r' \<and>
    row_wf r' \<and> (settled r \<longrightarrow> r' = r)"
  using assms
proof (induction ops arbitrary: s r)
  case Nil
  then show ?case using store_wf_row(4) by (auto simp: same_job_def intro: errors_grow_refl)
next
  case (Cons op ops)
  have wf: "row_wf r" using Cons.prems store_wf_row(4) by blast
  obtain r1 where r1: "row_of (exec_op op s) k = Some r1" "r1 = r \<or> row_step op r r1"
    using exec_op_row[OF Cons.prems, of op] by (auto simp: stays_or_steps_def)
  have one: "same_job r r1" "errors_grow r r1" "settled r \<longrightarrow> r1 = r"
    using r1(2) same_job_step row_step_grows[OF _ wf] row_step_settled errors_grow_refl[OF wf]
    by (auto simp: same_job_def)
  obtain r' where r': "row_of (mem_run ops (exec_op op s)) k = Some r'" "same_job r1 r'"
    "errors_grow r1 r'" "row_wf r'" "settled r1 \<longrightarrow> r' = r1"
    using Cons.IH[OF store_wf_exec_op[OF Cons.prems(1)] r1(1)] by blast
  have "same_job r r'" "errors_grow r r'" "settled r \<longrightarrow> r' = r"
    using one r'(2,3,5) same_job_trans errors_grow_trans by blast+
  then show ?case using r'(1,4) by simp
qed

theorem job_lifecycle_witness:
  "\<exists>r r'. row_of demo_store 1 = Some r \<and>
     row_of (mem_run [Op_MarkCompleted 300 demo_lease, Op_OperatorCancel 400 1] demo_store) 1 = Some r' \<and>
     same_job r r' \<and> errors_grow r r' \<and> row_wf r'"
proof -
  have "row_of demo_store 1 \<noteq> None" by code_simp
  then obtain r where "row_of demo_store 1 = Some r" by blast
  then show ?thesis
    using demo_store_wf job_lifecycle[of demo_store 1 r "[Op_MarkCompleted 300 demo_lease, Op_OperatorCancel 400 1]"]
    by blast
qed

section \<open>The fence\<close>

fun lease_of :: "mem_op \<Rightarrow> lease option" where
  "lease_of (Op_MarkCompleted now l) = Some l"
| "lease_of (Op_MarkRetryable l t e) = Some l"
| "lease_of (Op_MarkDead now l e) = Some l"
| "lease_of (Op_MarkCancelled now l e) = Some l"
| "lease_of (Op_MarkSnoozed l t) = Some l"
| "lease_of _ = None"

fun mark_result :: "mem_op \<Rightarrow> mem_store \<Rightarrow> driver_error + unit" where
  "mark_result (Op_MarkCompleted now l) s = fst (mem_MarkCompleted now l s)"
| "mark_result (Op_MarkRetryable l t e) s = fst (mem_MarkRetryable l t e s)"
| "mark_result (Op_MarkDead now l e) s = fst (mem_MarkDead now l e s)"
| "mark_result (Op_MarkCancelled now l e) s = fst (mem_MarkCancelled now l e s)"
| "mark_result (Op_MarkSnoozed l t) s = fst (mem_MarkSnoozed l t s)"
| "mark_result _ s = Inr ()"

fun is_snooze :: "mem_op \<Rightarrow> bool" where
  "is_snooze (Op_MarkSnoozed l t) = True"
| "is_snooze _ = False"

fun redrives :: "int \<Rightarrow> mem_op \<Rightarrow> bool" where
  "redrives k (Op_RedriveDead now k') = (k' = k)"
| "redrives k _ = False"

text \<open>The row has left the attempt the lease names, and can only come back to running
  with a larger number.\<close>

definition fenced :: "lease \<Rightarrow> job_row \<Rightarrow> bool" where
  "fenced l r \<longleftrightarrow> ID r = lease_ID l \<and> lease_Attempt l \<le> Attempt r \<and>
     (State r = Running \<longrightarrow> lease_Attempt l < Attempt r)"

lemma row_step_fenced:
  assumes "row_step op r r'" "fenced l r" "\<not> redrives (lease_ID l) op"
  shows "fenced l r'"
  using assms
  by (induction rule: row_step.induct)
    (auto simp: fenced_def step_defs held_by_def finalizeRow_keeps retryRow_keeps due_def)

lemma fenced_run:
  assumes "store_wf s" "row_of s (lease_ID l) = Some r" "fenced l r"
    and "\<forall>op \<in> set ops. \<not> redrives (lease_ID l) op"
  shows "\<exists>r'. row_of (mem_run ops s) (lease_ID l) = Some r' \<and> fenced l r'"
  using assms
proof (induction ops arbitrary: s r)
  case (Cons op ops)
  from exec_op_row[OF Cons.prems(1,2), of op]
  obtain r1 where "row_of (exec_op op s) (lease_ID l) = Some r1" "fenced l r1"
    using Cons.prems(3,4) row_step_fenced by (auto simp: stays_or_steps_def)
  then show ?case using Cons.IH[OF store_wf_exec_op[OF Cons.prems(1)]] Cons.prems(4) by simp
qed simp

lemma fenced_transition:
  assumes "row_of s (lease_ID l) = Some r" "fenced l r"
  shows "fst (transition l app s) \<in> {Inl ErrInvalidTransition, Inl ErrLeaseLost}"
    and "snd (transition l app s) = s"
  using assms by (auto simp: transition_def fenced_def)

lemmas mark_defs = mem_MarkCompleted_def mem_MarkRetryable_def mem_MarkDead_def
  mem_MarkCancelled_def mem_MarkSnoozed_def finalize_def

lemma fenced_mark:
  assumes "row_of s (lease_ID l) = Some r" "fenced l r" "lease_of op = Some l"
  shows "mark_result op s \<in> {Inl ErrInvalidTransition, Inl ErrLeaseLost}" "exec_op op s = s"
  using assms by (cases op; simp add: mark_defs fenced_transition[OF assms(1,2), simplified])+

lemma accepted_fenced:
  assumes "store_wf s" "mark_result op s = Inr ()" "lease_of op = Some l" "\<not> is_snooze op"
  shows "\<exists>r. row_of (exec_op op s) (lease_ID l) = Some r \<and> fenced l r"
proof -
  have *: "\<exists>r. row_of (snd (transition l app s)) (lease_ID l) = Some r \<and> fenced l r"
    if "fst (transition l app s) = Inr ()"
      and "\<And>r r'. app r = Inr r' \<Longrightarrow> ID r' = ID r \<and> Attempt r' = Attempt r \<and> State r' \<noteq> Running"
    for app
    by (rule transition_accepted[OF that(1)])
      (use that(2) store_wf_row(1)[OF assms(1)] in \<open>fastforce simp: fenced_def\<close>)
  show ?thesis
    using assms(2-4)
    by (cases op) (auto simp: mark_defs finalizeRow_keeps retryRow_keeps intro!: *)
qed

text \<open>C1: an attempt has at most one recorded outcome. Once a Mark call other than a snooze
  is accepted for a lease, then after any further operations, another worker's claims and
  rescues included, every Mark call with that lease is refused as an invalid transition or a
  lost lease and changes nothing, as long as no operator redrives the job.\<close>

theorem recorded_attempt_is_final:
  assumes "store_wf s"
    and "lease_of op = Some l" "\<not> is_snooze op" "mark_result op s = Inr ()"
    and "\<forall>o' \<in> set ops. \<not> redrives (lease_ID l) o'"
    and "lease_of op' = Some l"
  defines "s' \<equiv> mem_run ops (exec_op op s)"
  shows "mark_result op' s' \<in> {Inl ErrInvalidTransition, Inl ErrLeaseLost} \<and> exec_op op' s' = s'"
proof -
  obtain r where "row_of (exec_op op s) (lease_ID l) = Some r" "fenced l r"
    using accepted_fenced[OF assms(1,4,2,3)] by blast
  then obtain r' where "row_of s' (lease_ID l) = Some r'" "fenced l r'"
    using fenced_run[OF store_wf_exec_op[OF assms(1)] _ _ assms(5)] unfolding s'_def by blast
  then show ?thesis using fenced_mark assms(6) by blast
qed

theorem recorded_attempt_is_final_witness:
  "mark_result (Op_MarkCompleted 900 demo_lease)
     (mem_run [Op_FetchAvailable 800 ''default'' 50 1]
       (exec_op (Op_MarkRetryable demo_lease 300 None) demo_store)) \<in>
     {Inl ErrInvalidTransition, Inl ErrLeaseLost}"
proof -
  have "mark_result (Op_MarkRetryable demo_lease 300 None) demo_store = Inr ()"
    by code_simp
  then show ?thesis
    using demo_store_wf recorded_attempt_is_final[of demo_store "Op_MarkRetryable demo_lease 300 None" demo_lease
      "[Op_FetchAvailable 800 ''default'' 50 1]" "Op_MarkCompleted 900 demo_lease"] by simp
qed


text \<open>It has another at the redrive of a dead job, which starts counting attempts again: a worker whose
  lease lapsed before the job was given up can end an attempt of the job's second life.\<close>

lemma redrive_reissues_attempt:
  "let s1 = mem_run [Op_FetchExpired 300 50 100, Op_MarkDead 310 demo_lease None, Op_RedriveDead 400 1] demo_store;
       s2 = exec_op (Op_FetchAvailable 410 ''default'' 50 1) s1
   in map_option State (row_of s2 1) = Some Running \<and>
      mark_result (Op_MarkCompleted 420 demo_lease) s2 = Inr ()"
  by code_simp

section \<open>Unique keys\<close>

text \<open>At most one non-terminal row per queue, kind and non-empty key.\<close>

definition slot_of :: "job_row \<Rightarrow> string \<times> string \<times> string" where
  "slot_of r = (Queue r, Kind r, UniqueKey r)"

definition same_slot :: "job_row \<Rightarrow> job_row \<Rightarrow> bool" where
  "same_slot a b \<longleftrightarrow> snd (snd (slot_of a)) \<noteq> [] \<and> slot_of a = slot_of b"

definition unique_ok :: "mem_store \<Rightarrow> bool" where
  "unique_ok s \<longleftrightarrow>
     (\<forall>a \<in> set (map snd (jobs s)). \<forall>b \<in> set (map snd (jobs s)).
        uniqueActive (State a) \<and> uniqueActive (State b) \<and> same_slot a b \<longrightarrow> ID a = ID b)"

fun is_insert :: "mem_op \<Rightarrow> bool" where
  "is_insert (Op_Insert now p) = True"
| "is_insert (Op_InsertMany now batch) = True"
| "is_insert _ = False"

fun is_redrive :: "mem_op \<Rightarrow> bool" where
  "is_redrive (Op_RedriveDead now k) = True"
| "is_redrive _ = False"

lemma same_slot_sym: "same_slot a b \<Longrightarrow> same_slot b a"
  by (auto simp: same_slot_def)

lemma unique_ok_conv:
  assumes "store_wf s"
  shows "unique_ok s \<longleftrightarrow>
    (\<forall>k1 k2 a b. row_of s k1 = Some a \<and> row_of s k2 = Some b \<and>
       uniqueActive (State a) \<and> uniqueActive (State b) \<and> same_slot a b \<longrightarrow> k1 = k2)"
proof -
  have mem: "x \<in> set (map snd (jobs s)) \<longleftrightarrow> (\<exists>k. row_of s k = Some x)" for x
    unfolding row_of_mem[OF assms] by (auto intro: rev_image_eqI)
  have eq: "ID a = ID b \<longleftrightarrow> k1 = k2" if "row_of s k1 = Some a" "row_of s k2 = Some b" for k1 k2 a b
    by (simp only: store_wf_row(1)[OF assms that(1)] store_wf_row(1)[OF assms that(2)])
  show ?thesis
    unfolding unique_ok_def Ball_def mem by (intro iffI allI impI; elim conjE exE; blast dest: eq)
qed

lemma row_step_active:
  assumes "row_step op r r'" "uniqueActive (State r')" "\<not> is_redrive op"
  shows "uniqueActive (State r)"
  using assms
  by (induction rule: row_step.induct)
    (auto simp: step_defs held_by_def finalizeRow_keeps retryRow_keeps uniqueActive_iff due_def expired_def)

lemma exec_op_no_new:
  assumes wf: "store_wf s" and "row_of s k = None" "\<not> is_insert op"
  shows "row_of (exec_op op s) k = None"
proof (cases op)
  case (Op_FetchAvailable now q d limit)
  show ?thesis
    by (rule mem_FetchAvailable_rows[OF wf, of now q d limit])
      (use assms(2) in \<open>simp add: Op_FetchAvailable change_rows_def\<close>)
next
  case (Op_FetchExpired now d limit)
  show ?thesis
    by (rule mem_FetchExpired_rows[OF wf, of now d limit])
      (use assms(2) in \<open>simp add: Op_FetchExpired change_rows_def\<close>)
next
  case (Op_ExtendLeases now ls d)
  then show ?thesis
    using assms(2) by (simp add: mem_ExtendLeases_def row_of_extendLoop extended_def)
qed (use assms(2,3) in \<open>auto simp: mark_defs transition_def mem_OperatorCancel_no_gap
       mem_RedriveDead_no_gap split: option.splits sum.splits\<close>)

lemma unique_ok_step:
  assumes wf: "store_wf s" and u: "unique_ok s" and other: "\<not> is_insert op" "\<not> is_redrive op"
  shows "unique_ok (exec_op op s)"
proof -
  have before: "\<exists>r. row_of s k = Some r \<and> slot_of r = slot_of r' \<and>
      (uniqueActive (State r') \<longrightarrow> uniqueActive (State r))"
    if after: "row_of (exec_op op s) k = Some r'" for k r'
  proof -
    obtain r where r: "row_of s k = Some r"
      using after exec_op_no_new[OF wf _ other(1)] by fastforce
    from exec_op_row[OF wf r, of op] after have "r' = r \<or> row_step op r r'"
      by (auto simp: stays_or_steps_def)
    then show ?thesis
      using r row_step_slot row_step_active other(2) by (auto simp: slot_of_def)
  qed
  show ?thesis
    unfolding unique_ok_conv[OF store_wf_exec_op[OF wf]]
  proof (intro allI impI, elim conjE)
    fix k1 k2 a b
    assume "row_of (exec_op op s) k1 = Some a" "row_of (exec_op op s) k2 = Some b"
      and act: "uniqueActive (State a)" "uniqueActive (State b)" and "same_slot a b"
    moreover from this obtain a' b' where "row_of s k1 = Some a'" "row_of s k2 = Some b'"
      "slot_of a' = slot_of a" "slot_of b' = slot_of b"
      "uniqueActive (State a')" "uniqueActive (State b')"
      using before by blast
    ultimately show "k1 = k2"
      using u unfolding unique_ok_conv[OF wf] same_slot_def by metis
  qed
qed

lemma unique_ok_Insert:
  assumes wf: "store_wf s" and u: "unique_ok s"
  shows "unique_ok (snd (mem_Insert now p s))"
proof (cases "uniqueConflict s (ip_Queue p) (ip_Kind p) (ip_UniqueKey p) []")
  case True
  then show ?thesis using u by (simp add: mem_Insert_def)
next
  case False
  let ?row = "jobFromParams (nextID s + 1) p now"
  have slot: "UniqueKey ?row = ip_UniqueKey p" "Queue ?row = ip_Queue p" "Kind ?row = ip_Kind p"
    by (simp_all add: jobFromParams_def Let_def)
  have fresh: "nextID s + 1 \<notin> fst ` set (jobs s)" using wf by (force simp: store_wf_def)
  have new: "\<not> same_slot ?row a" if "a \<in> set (map snd (jobs s))" "uniqueActive (State a)" for a
    using False that by (auto simp: uniqueConflict_def same_slot_def slot_of_def slot split: if_splits)
  have "jobs (snd (mem_Insert now p s)) = jobs s @ [(nextID s + 1, ?row)]"
    using False fresh by (simp add: mem_Insert_def Let_def update_fresh)
  then show ?thesis
    using u new by (auto simp: unique_ok_def dest: same_slot_sym)
qed

lemma unique_ok_insertEach:
  "store_wf s \<Longrightarrow> unique_ok s \<Longrightarrow> unique_ok (snd (insertEach now batch s))"
proof (induction batch arbitrary: s)
  case (Cons p batch)
  have "store_wf (snd (mem_Insert now p s))" "unique_ok (snd (mem_Insert now p s))"
    using Cons.prems by (simp_all add: store_wf_Insert unique_ok_Insert)
  with Cons.IH[OF this] show ?case by (auto split: prod.splits sum.splits)
qed simp

lemma unique_ok_exec:
  assumes "store_wf s" "unique_ok s" "\<not> is_redrive op"
  shows "unique_ok (exec_op op s)"
proof (cases "is_insert op")
  case True
  then show ?thesis
    using assms unique_ok_Insert[OF assms(1,2)] unique_ok_insertEach[OF assms(1,2)]
    by (cases op) (auto simp: mem_InsertMany_insertEach split: prod.split sum.split,
        (metis snd_conv)+)
qed (use unique_ok_step[OF assms(1,2)] assms(3) in blast)

lemma unique_ok_run:
  assumes "store_wf s" "unique_ok s" "\<forall>op \<in> set ops. \<not> is_redrive op"
  shows "unique_ok (mem_run ops s)"
  using assms by (induction ops arbitrary: s) (simp_all add: unique_ok_exec store_wf_exec_op)

text \<open>C17: starting from an empty store, no sequence of operations without an operator's
  redrive ever leaves two active jobs with the same queue, kind and non-empty unique key.\<close>

theorem unique_slots:
  assumes "\<forall>op \<in> set ops. \<not> is_redrive op"
  shows "unique_ok (mem_run ops mem_New)"
  by (rule unique_ok_run[OF store_wf_New _ assms]) (simp add: unique_ok_def mem_New_def)

theorem unique_slots_witness:
  "unique_ok (mem_run [Op_Insert 100 (demo_params\<lparr>ip_UniqueKey := ''u''\<rparr>),
     Op_Insert 200 (demo_params\<lparr>ip_UniqueKey := ''u''\<rparr>)] mem_New)"
  by (rule unique_slots) simp

definition demo_unique :: insert_params where
  "demo_unique = demo_params\<lparr>ip_UniqueKey := ''u''\<rparr>"


end
