(* ===== verification/Sql.thy ===== *)
theory Sql
  imports Driver "HOL-Library.Word"
begin

text \<open>
  The table \<^verbatim>\<open>drover_jobs\<close> of \<^verbatim>\<open>internal/migrate/migrations\<close> and the statements of
  \<^verbatim>\<open>internal/dbsqlc/queries.sql.go\<close> as functions on it. A statement runs atomically: it
  returns its rows or an error of the database, and the new table. Everything a statement
  leaves to the server is an argument: the transaction timestamp \<open>now\<close>, the ids of
  the rows other transactions have locked, and the input conversions of \<open>pg_service\<close>.
\<close>

section \<open>The table\<close>

record db_job =
  db_ID :: int
  db_Kind :: string
  db_Queue :: string
  db_Args :: json
  db_State :: job_state
  db_Attempt :: int
  db_MaxAttempts :: int
  db_Errors :: json
  db_ScheduledAt :: time
  db_LeasedUntil :: "time option"
  db_CreatedAt :: time
  db_FinalizedAt :: "time option"
  db_UniqueKey :: "string option"

text \<open>\<open>db_seq\<close> is the last value of the identity sequence of \<^verbatim>\<open>id\<close>; the order of the
  rows is the order of a scan.\<close>

record db_table =
  db_seq :: int
  db_rows :: "db_job list"

text \<open>
  What the server does with the parameters of a statement: reading a value of type
  \<^verbatim>\<open>jsonb\<close> (None when it refuses it), the operator \<^verbatim>\<open>||\<close> of that type, storing an
  instant in a \<^verbatim>\<open>timestamptz\<close>, and \<^verbatim>\<open>make_interval(secs => d.Seconds())\<close>.
\<close>

record pg_service =
  jsonb_in :: "raw_message \<Rightarrow> json option"
  jsonb_cat :: "json \<Rightarrow> json \<Rightarrow> json"
  tstz :: "time \<Rightarrow> time"
  make_interval :: "duration \<Rightarrow> duration"

datatype sql_error =
    NoRows
  | PgError (pg_Code: string) (pg_Constraint: string)
  | ConnError string

definition pgUniqueViolation :: string where
  "pgUniqueViolation = ''23505''"

definition uniqueActiveIndex :: string where
  "uniqueActiveIndex = ''drover_jobs_unique_active_idx''"

abbreviation not_null_violation :: sql_error where
  "not_null_violation \<equiv> PgError ''23502'' []"

abbreviation out_of_range :: sql_error where
  "out_of_range \<equiv> PgError ''22003'' []"

abbreviation invalid_text :: sql_error where
  "invalid_text \<equiv> PgError ''22P02'' []"

definition MaxInt32 :: int where
  "MaxInt32 = 2 ^ 31 - 1"

text \<open>A value an \<^verbatim>\<open>int\<close> column can hold.\<close>

definition int4 :: "int \<Rightarrow> bool" where
  "int4 x \<longleftrightarrow> - (2 ^ 31) \<le> x \<and> x \<le> MaxInt32"

text \<open>The partial unique index of migration 004: which rows it covers and under which key.\<close>

definition indexed :: "db_job \<Rightarrow> bool" where
  "indexed j \<longleftrightarrow> db_UniqueKey j \<noteq> None \<and> db_State j \<in> {Available, Scheduled, Retryable, Running}"

definition index_key :: "db_job \<Rightarrow> string \<times> string \<times> string" where
  "index_key j = (db_Queue j, db_Kind j, the (db_UniqueKey j))"

definition unique_active_ok :: "db_job list \<Rightarrow> bool" where
  "unique_active_ok rows \<longleftrightarrow> distinct (map index_key (filter indexed rows))"

section \<open>Running a statement\<close>

text \<open>
  A call on the pool can fail before the server has executed the statement, or after, when
  only the reply is lost.
\<close>

datatype fault = NoFault | FailBefore string | FailAfter string

fun exec_stmt :: "fault \<Rightarrow> ('t \<Rightarrow> (sql_error + 'a) \<times> 't) \<Rightarrow> 't \<Rightarrow> (sql_error + 'a) \<times> 't" where
  "exec_stmt NoFault stmt t = stmt t"
| "exec_stmt (FailBefore msg) stmt t = (Inl (ConnError msg), t)"
| "exec_stmt (FailAfter msg) stmt t = (Inl (ConnError msg), snd (stmt t))"

text \<open>
  \<^verbatim>\<open>UPDATE drover_jobs SET ... WHERE ... RETURNING *\<close>: the matching rows are replaced
  unless a new value does not fit its column or breaks the unique index, which fails the
  statement and leaves the table alone.
\<close>

definition sql_update ::
  "(db_job \<Rightarrow> bool) \<Rightarrow> (db_job \<Rightarrow> db_job) \<Rightarrow> db_table \<Rightarrow> (sql_error + db_job list) \<times> db_table" where
  "sql_update cond assign t =
     (let rows' = map (\<lambda>j. if cond j then assign j else j) (db_rows t)
      in if \<exists>j \<in> set (db_rows t). cond j \<and> \<not> int4 (db_Attempt (assign j)) then (Inl out_of_range, t)
         else if \<not> unique_active_ok rows' then (Inl (PgError pgUniqueViolation uniqueActiveIndex), t)
         else (Inr (map assign (filter cond (db_rows t))), t\<lparr>db_rows := rows'\<rparr>))"

text \<open>\<^verbatim>\<open>:execrows\<close> keeps the number of affected rows, \<^verbatim>\<open>:one\<close> the first row.\<close>

definition execrows :: "(sql_error + 'a list) \<times> 't \<Rightarrow> (sql_error + int) \<times> 't" where
  "execrows x = (case x of (Inl e, t) \<Rightarrow> (Inl e, t) | (Inr rows, t) \<Rightarrow> (Inr (int (length rows)), t))"

definition one_row :: "(sql_error + 'a list) \<times> 't \<Rightarrow> (sql_error + 'a) \<times> 't" where
  "one_row x =
     (case x of
        (Inl e, t) \<Rightarrow> (Inl e, t)
      | (Inr [], t) \<Rightarrow> (Inl NoRows, t)
      | (Inr (row # _), t) \<Rightarrow> (Inr row, t))"

section \<open>The statements\<close>

definition q_ExtendLeases ::
  "pg_service \<Rightarrow> time \<Rightarrow> duration \<Rightarrow> int list \<Rightarrow> int list \<Rightarrow> db_table \<Rightarrow> (sql_error + int) \<times> db_table" where
  "q_ExtendLeases svc now leaseFor ids attempts t =
     execrows (sql_update
       (\<lambda>j. \<exists>held \<in> set (zip ids attempts).
          db_ID j = fst held \<and> db_Attempt j = snd held \<and> db_State j = Running)
       (\<lambda>j. j\<lparr>db_LeasedUntil := Some (now + make_interval svc leaseFor)\<rparr>) t)"

text \<open>The inner \<^verbatim>\<open>SELECT ... ORDER BY ... LIMIT n FOR UPDATE SKIP LOCKED\<close>: a locked row
  is passed over without counting towards the limit.\<close>

definition skip_locked ::
  "int list \<Rightarrow> (db_job \<Rightarrow> bool) \<Rightarrow> (db_job \<Rightarrow> time) \<Rightarrow> int \<Rightarrow> db_table \<Rightarrow> int list" where
  "skip_locked locked cond order maxJobs t =
     map db_ID (take (nat maxJobs)
       (sort_key (\<lambda>j. (order j, db_ID j))
         (filter (\<lambda>j. cond j \<and> db_ID j \<notin> set locked) (db_rows t))))"

definition q_FetchAvailable ::
  "pg_service \<Rightarrow> time \<Rightarrow> int list \<Rightarrow> duration \<Rightarrow> string \<Rightarrow> int \<Rightarrow> db_table \<Rightarrow>
   (sql_error + db_job list) \<times> db_table" where
  "q_FetchAvailable svc now locked leaseFor queue maxJobs t =
     (let ids = skip_locked locked
            (\<lambda>j. db_State j \<in> {Available, Retryable, Scheduled} \<and> db_Queue j = queue \<and>
                 db_ScheduledAt j \<le> now)
            db_ScheduledAt maxJobs t
      in sql_update (\<lambda>j. db_ID j \<in> set ids)
           (\<lambda>j. j\<lparr>db_State := Running, db_Attempt := db_Attempt j + 1,
                  db_LeasedUntil := Some (now + make_interval svc leaseFor)\<rparr>) t)"

definition q_FetchExpired ::
  "pg_service \<Rightarrow> time \<Rightarrow> int list \<Rightarrow> duration \<Rightarrow> int \<Rightarrow> db_table \<Rightarrow> (sql_error + db_job list) \<times> db_table" where
  "q_FetchExpired svc now locked leaseFor maxJobs t =
     (let ids = skip_locked locked
            (\<lambda>j. db_State j = Running \<and>
                 (case db_LeasedUntil j of None \<Rightarrow> False | Some u \<Rightarrow> u \<le> now))
            (\<lambda>j. case db_LeasedUntil j of None \<Rightarrow> 0 | Some u \<Rightarrow> u) maxJobs t
      in sql_update (\<lambda>j. db_ID j \<in> set ids)
           (\<lambda>j. j\<lparr>db_LeasedUntil := Some (now + make_interval svc leaseFor)\<rparr>) t)"

definition q_GetJob :: "int \<Rightarrow> db_table \<Rightarrow> sql_error + db_job" where
  "q_GetJob jid t = (case find (\<lambda>j. db_ID j = jid) (db_rows t) of None \<Rightarrow> Inl NoRows | Some j \<Rightarrow> Inr j)"

record insert_job_params =
  ijp_Kind :: string
  ijp_Queue :: string
  ijp_Args :: raw_message
  ijp_ScheduledAt :: "time option"
  ijp_UniqueKey :: "string option"

text \<open>The row both inserts write: the columns they name, and the defaults of the table.\<close>

definition new_job ::
  "int \<Rightarrow> time \<Rightarrow> string \<Rightarrow> string \<Rightarrow> json \<Rightarrow> time option \<Rightarrow> string option \<Rightarrow> db_job" where
  "new_job jid now kind queue args scheduled_at unique_key =
     (let due_at = (case scheduled_at of None \<Rightarrow> now | Some u \<Rightarrow> u)
      in \<lparr>db_ID = jid, db_Kind = kind, db_Queue = queue, db_Args = args,
          db_State = (if due_at > now then Scheduled else Available),
          db_Attempt = 0, db_MaxAttempts = 25, db_Errors = JArr [],
          db_ScheduledAt = due_at, db_LeasedUntil = None, db_CreatedAt = now,
          db_FinalizedAt = None, db_UniqueKey = unique_key\<rparr>)"

text \<open>The identity value is drawn before the index is checked and is not given back.\<close>

definition insert_row :: "(int \<Rightarrow> db_job) \<Rightarrow> db_table \<Rightarrow> (sql_error + db_job) \<times> db_table" where
  "insert_row row t =
     (let j = row (db_seq t + 1); t1 = t\<lparr>db_seq := db_seq t + 1\<rparr>
      in if unique_active_ok (db_rows t @ [j]) then (Inr j, t1\<lparr>db_rows := db_rows t @ [j]\<rparr>)
         else (Inl (PgError pgUniqueViolation uniqueActiveIndex), t1))"

definition q_InsertJob ::
  "pg_service \<Rightarrow> time \<Rightarrow> insert_job_params \<Rightarrow> db_table \<Rightarrow> (sql_error + db_job) \<times> db_table" where
  "q_InsertJob svc now arg t =
     (case jsonb_in svc (ijp_Args arg) of
        None \<Rightarrow> (Inl invalid_text, t)
      | Some args \<Rightarrow>
          insert_row (\<lambda>jid. new_job jid now (ijp_Kind arg) (ijp_Queue arg) args
            (map_option (tstz svc) (ijp_ScheduledAt arg)) (ijp_UniqueKey arg)) t)"

text \<open>A row of the session's staging table \<^verbatim>\<open>drover_insert_batch\<close>.\<close>

record staged =
  st_ord :: nat
  st_kind :: string
  st_queue :: string
  st_args :: json
  st_scheduled_at :: "time option"
  st_unique_key :: "string option"

fun insert_staged :: "time \<Rightarrow> staged list \<Rightarrow> db_table \<Rightarrow> (sql_error + db_job list) \<times> db_table" where
  "insert_staged now [] t = (Inr [], t)"
| "insert_staged now (x # xs) t =
     (case insert_row (\<lambda>jid. new_job jid now (st_kind x) (st_queue x) (st_args x)
             (st_scheduled_at x) (st_unique_key x)) t of
        (Inl e, t1) \<Rightarrow> (Inl e, t1)
      | (Inr j, t1) \<Rightarrow>
          (case insert_staged now xs t1 of
             (Inl e, t2) \<Rightarrow> (Inl e, t2)
           | (Inr js, t2) \<Rightarrow> (Inr (j # js), t2)))"

text \<open>A failing statement leaves no row behind; only the sequence has moved.\<close>

definition q_InsertJobsFromStaging ::
  "time \<Rightarrow> staged list \<Rightarrow> db_table \<Rightarrow> (sql_error + db_job list) \<times> db_table" where
  "q_InsertJobsFromStaging now staging t =
     (case insert_staged now (sort_key st_ord staging) t of
        (Inl e, t1) \<Rightarrow> (Inl e, t1\<lparr>db_rows := db_rows t\<rparr>)
      | (Inr js, t1) \<Rightarrow> (Inr js, t1))"

definition state_of_name :: "string \<Rightarrow> job_state option" where
  "state_of_name s =
     find (\<lambda>st. state_name st = s)
       [Available, Scheduled, Running, Retryable, Completed, Cancelled, Dead]"

definition q_ListJobs :: "string \<Rightarrow> string \<Rightarrow> int \<Rightarrow> db_table \<Rightarrow> sql_error + db_job list" where
  "q_ListJobs queue state maxJobs t =
     (if state \<noteq> [] \<and> state_of_name state = None then Inl invalid_text
      else Inr (take (nat maxJobs) (sort_key (\<lambda>j. - db_ID j)
        (filter (\<lambda>j. (queue = [] \<or> db_Queue j = queue) \<and>
                     (state = [] \<or> state_of_name state = Some (db_State j))) (db_rows t)))))"

text \<open>The guard of every finalizer, and \<^verbatim>\<open>errors || $1::jsonb\<close>: a NULL argument makes
  the whole value NULL, which the column refuses.\<close>

definition held :: "int \<Rightarrow> int \<Rightarrow> db_job \<Rightarrow> bool" where
  "held jid attempt j \<longleftrightarrow> db_ID j = jid \<and> db_Attempt j = attempt \<and> db_State j = Running"

definition with_error ::
  "pg_service \<Rightarrow> raw_message option \<Rightarrow> (db_job \<Rightarrow> bool) \<Rightarrow> (db_job \<Rightarrow> db_job) \<Rightarrow> db_table \<Rightarrow>
   (sql_error + int) \<times> db_table" where
  "with_error svc error cond assign t =
     (case error of
        None \<Rightarrow>
          if \<exists>j \<in> set (db_rows t). cond j then (Inl not_null_violation, t) else (Inr 0, t)
      | Some raw \<Rightarrow>
          (case jsonb_in svc raw of
             None \<Rightarrow> (Inl invalid_text, t)
           | Some e \<Rightarrow>
               execrows (sql_update cond
                 (\<lambda>j. (assign j)\<lparr>db_Errors := jsonb_cat svc (db_Errors j) e\<rparr>) t)))"

definition q_MarkCancelled ::
  "pg_service \<Rightarrow> time \<Rightarrow> raw_message option \<Rightarrow> int \<Rightarrow> int \<Rightarrow> db_table \<Rightarrow> (sql_error + int) \<times> db_table" where
  "q_MarkCancelled svc now error jid attempt =
     with_error svc error (held jid attempt)
       (\<lambda>j. j\<lparr>db_State := Cancelled, db_FinalizedAt := Some now, db_LeasedUntil := None\<rparr>)"

definition q_MarkCompleted :: "time \<Rightarrow> int \<Rightarrow> int \<Rightarrow> db_table \<Rightarrow> (sql_error + int) \<times> db_table" where
  "q_MarkCompleted now jid attempt t =
     execrows (sql_update (held jid attempt)
       (\<lambda>j. j\<lparr>db_State := Completed, db_FinalizedAt := Some now, db_LeasedUntil := None\<rparr>) t)"

definition q_MarkDead ::
  "pg_service \<Rightarrow> time \<Rightarrow> raw_message option \<Rightarrow> int \<Rightarrow> int \<Rightarrow> db_table \<Rightarrow> (sql_error + int) \<times> db_table" where
  "q_MarkDead svc now error jid attempt =
     with_error svc error (held jid attempt)
       (\<lambda>j. j\<lparr>db_State := Dead, db_FinalizedAt := Some now, db_LeasedUntil := None\<rparr>)"

definition q_MarkRetryable ::
  "pg_service \<Rightarrow> time \<Rightarrow> raw_message option \<Rightarrow> int \<Rightarrow> int \<Rightarrow> db_table \<Rightarrow> (sql_error + int) \<times> db_table" where
  "q_MarkRetryable svc retryAt error jid attempt =
     with_error svc error (held jid attempt)
       (\<lambda>j. j\<lparr>db_State := Retryable, db_ScheduledAt := tstz svc retryAt, db_LeasedUntil := None\<rparr>)"

definition q_MarkSnoozed ::
  "pg_service \<Rightarrow> time \<Rightarrow> int \<Rightarrow> int \<Rightarrow> db_table \<Rightarrow> (sql_error + int) \<times> db_table" where
  "q_MarkSnoozed svc runAt jid attempt t =
     execrows (sql_update (held jid attempt)
       (\<lambda>j. j\<lparr>db_State := Scheduled, db_ScheduledAt := tstz svc runAt, db_LeasedUntil := None,
              db_Attempt := max (db_Attempt j - 1) 0\<rparr>) t)"

definition q_OldestClaimable :: "time \<Rightarrow> db_table \<Rightarrow> queue_age list" where
  "q_OldestClaimable now t =
     (let rows = filter (\<lambda>j. db_State j \<in> {Available, Retryable, Scheduled} \<and>
                             db_ScheduledAt j \<le> now) (db_rows t)
      in map (\<lambda>q. \<lparr>qa_Queue = q, qa_AgeSeconds = real_of_int
              (now - Min (set (map db_ScheduledAt (filter (\<lambda>j. db_Queue j = q) rows)))) / 10 ^ 9\<rparr>)
           (remdups (map db_Queue rows)))"

definition q_OperatorCancel :: "time \<Rightarrow> int \<Rightarrow> db_table \<Rightarrow> (sql_error + db_job) \<times> db_table" where
  "q_OperatorCancel now jid t =
     one_row (sql_update
       (\<lambda>j. db_ID j = jid \<and> db_State j \<in> {Available, Scheduled, Retryable, Dead})
       (\<lambda>j. j\<lparr>db_State := Cancelled, db_FinalizedAt := Some now, db_LeasedUntil := None\<rparr>) t)"

definition q_QueueDepths :: "db_table \<Rightarrow> queue_depth list" where
  "q_QueueDepths t =
     (let keys = map (\<lambda>j. (db_Queue j, state_name (db_State j)))
            (filter (\<lambda>j. db_State j \<in> {Available, Scheduled, Retryable, Running, Dead}) (db_rows t))
      in map (\<lambda>key. \<lparr>qd_Queue = fst key, qd_State = snd key,
              qd_Count = int (length (filter (\<lambda>k. k = key) keys))\<rparr>) (remdups keys))"

definition q_RedriveDead :: "time \<Rightarrow> int \<Rightarrow> db_table \<Rightarrow> (sql_error + db_job) \<times> db_table" where
  "q_RedriveDead now jid t =
     one_row (sql_update (\<lambda>j. db_ID j = jid \<and> db_State j = Dead)
       (\<lambda>j. j\<lparr>db_State := Available, db_Attempt := 0, db_LeasedUntil := None,
              db_FinalizedAt := None, db_ScheduledAt := now\<rparr>) t)"

end
