(* ===== verification/PgDriver.thy ===== *)
theory PgDriver
  imports Sql
begin

text \<open>
  The PostgreSQL driver of \<^verbatim>\<open>internal/pgdriver/pgdriver.go\<close> over the statements of
  \<^theory_text>\<open>Sql\<close>. A method is a function on the table. Its environment \<open>sql_env\<close> says how
  each statement it issues goes: the transaction timestamp, the rows others have locked, a
  failure of the connection. \<open>gap i\<close> is what other sessions commit before its
  \<open>i\<close>th statement.
\<close>

section \<open>Environment and conversions\<close>

record sql_env =
  se_now :: "nat \<Rightarrow> time"
  se_locked :: "int list"
  se_fault :: "nat \<Rightarrow> fault"

type_synonym interference = "nat \<Rightarrow> db_table \<Rightarrow> db_table"

text \<open>Statement \<open>i\<close> of a method.\<close>

definition run_stmt ::
  "interference \<Rightarrow> sql_env \<Rightarrow> nat \<Rightarrow> (db_table \<Rightarrow> (sql_error + 'a) \<times> db_table) \<Rightarrow>
   db_table \<Rightarrow> (sql_error + 'a) \<times> db_table" where
  "run_stmt gap env i stmt t = exec_stmt (se_fault env i) stmt (gap i t)"

text \<open>\<^verbatim>\<open>fmt.Errorf("...: %w", err)\<close> around an error of the database.\<close>

definition wrap_err :: "string \<Rightarrow> sql_error \<Rightarrow> driver_error" where
  "wrap_err what e = ErrOther what"

definition attemptArg :: "int \<Rightarrow> int" where
  "attemptArg attempt =
     (if attempt < 0 then 0 else if attempt > MaxInt32 then MaxInt32 else attempt)"

definition isUniqueActiveViolation :: "sql_error \<Rightarrow> bool" where
  "isUniqueActiveViolation e =
     (case e of PgError code con \<Rightarrow> code = pgUniqueViolation \<and> con = uniqueActiveIndex | _ \<Rightarrow> False)"

definition wrapInsertErr :: "sql_error \<Rightarrow> string \<Rightarrow> driver_error" where
  "wrapInsertErr e what = (if isUniqueActiveViolation e then ErrDuplicateJob else wrap_err what e)"

definition insertParams :: "insert_params \<Rightarrow> insert_job_params" where
  "insertParams params =
     \<lparr>ijp_Kind = ip_Kind params, ijp_Queue = ip_Queue params, ijp_Args = ip_Args params,
      ijp_ScheduledAt = (if IsZero (ip_ScheduledAt params) then None else Some (ip_ScheduledAt params)),
      ijp_UniqueKey = (if ip_UniqueKey params = [] then None else Some (ip_UniqueKey params))\<rparr>"

definition rowFromDB :: "db_job \<Rightarrow> job_row" where
  "rowFromDB job =
     \<lparr>ID = db_ID job, Kind = db_Kind job, Queue = db_Queue job, Args = Valid (db_Args job),
      State = db_State job, Attempt = db_Attempt job, MaxAttempts = db_MaxAttempts job,
      Errors = Valid (db_Errors job), ScheduledAt = db_ScheduledAt job,
      LeasedUntil = db_LeasedUntil job, CreatedAt = db_CreatedAt job,
      FinalizedAt = db_FinalizedAt job,
      UniqueKey = (case db_UniqueKey job of None \<Rightarrow> [] | Some k \<Rightarrow> k)\<rparr>"

text \<open>The comparison of \<^verbatim>\<open>sortedRows\<close>, \<^verbatim>\<open>int(a.ID - b.ID)\<close>, on 64-bit integers.\<close>

definition idCompare :: "int \<Rightarrow> int \<Rightarrow> int" where
  "idCompare a b = sint (word_of_int a - word_of_int b :: 64 word)"

definition sortedRows :: "db_job list \<Rightarrow> job_row list" where
  "sortedRows jobs = sort_key ID (map rowFromDB jobs)"

section \<open>Inserting\<close>

definition pg_Insert ::
  "pg_service \<Rightarrow> interference \<Rightarrow> sql_env \<Rightarrow> insert_params \<Rightarrow> db_table \<Rightarrow>
   (driver_error + job_row) \<times> db_table" where
  "pg_Insert svc gap env params t =
     (case run_stmt gap env 0 (q_InsertJob svc (se_now env 0) (insertParams params)) t of
        (Inl e, t1) \<Rightarrow> (Inl (wrapInsertErr e ''insert job''), t1)
      | (Inr job, t1) \<Rightarrow> (Inr (rowFromDB job), t1))"

text \<open>\<open>is_tx\<close> is the outcome of the type assertion \<^verbatim>\<open>tx.(pgx.Tx)\<close>; the table is the one
  the caller's transaction sees.\<close>

definition pg_InsertTx ::
  "pg_service \<Rightarrow> interference \<Rightarrow> sql_env \<Rightarrow> bool \<Rightarrow> insert_params \<Rightarrow> db_table \<Rightarrow>
   (driver_error + job_row) \<times> db_table" where
  "pg_InsertTx svc gap env is_tx params t =
     (if \<not> is_tx then (Inl ErrTxUnsupported, t)
      else case run_stmt gap env 0 (q_InsertJob svc (se_now env 0) (insertParams params)) t of
        (Inl e, t1) \<Rightarrow> (Inl (wrapInsertErr e ''insert job in tx''), t1)
      | (Inr job, t1) \<Rightarrow> (Inr (rowFromDB job), t1))"

text \<open>\<^verbatim>\<open>CopyFrom\<close> into the staging table: the server reads every value, or refuses all.\<close>

fun copy_rows :: "pg_service \<Rightarrow> nat \<Rightarrow> insert_params list \<Rightarrow> sql_error + staged list" where
  "copy_rows svc i [] = Inr []"
| "copy_rows svc i (params # batch) =
     (case jsonb_in svc (ip_Args params) of
        None \<Rightarrow> Inl invalid_text
      | Some args \<Rightarrow>
          (case copy_rows svc (Suc i) batch of
             Inl e \<Rightarrow> Inl e
           | Inr rest \<Rightarrow> Inr (
               \<lparr>st_ord = i, st_kind = ip_Kind params, st_queue = ip_Queue params, st_args = args,
                st_scheduled_at =
                  (if IsZero (ip_ScheduledAt params) then None else Some (tstz svc (ip_ScheduledAt params))),
                st_unique_key = (if ip_UniqueKey params = [] then None else Some (ip_UniqueKey params))\<rparr>
               # rest)))"

text \<open>Inside a transaction, from its \<open>i\<close>th statement on: create the staging table, empty
  it, fill it, insert from it. No other session's commits matter to the staging table.\<close>

definition insertMany ::
  "pg_service \<Rightarrow> interference \<Rightarrow> sql_env \<Rightarrow> nat \<Rightarrow> insert_params list \<Rightarrow> db_table \<Rightarrow>
   (driver_error + job_row list) \<times> db_table" where
  "insertMany svc gap env i batch t =
     (case run_stmt gap env i (\<lambda>t. (Inr (), t)) t of
        (Inl e, t1) \<Rightarrow> (Inl (wrap_err ''create insert-many staging table'' e), t1)
      | (Inr _, t1) \<Rightarrow>
     (case run_stmt gap env (i + 1) (\<lambda>t. (Inr (), t)) t1 of
        (Inl e, t2) \<Rightarrow> (Inl (wrap_err ''truncate insert-many staging table'' e), t2)
      | (Inr _, t2) \<Rightarrow>
     (case run_stmt gap env (i + 2) (\<lambda>t. (copy_rows svc 0 batch, t)) t2 of
        (Inl e, t3) \<Rightarrow> (Inl (wrap_err ''copy insert-many batch'' e), t3)
      | (Inr staging, t3) \<Rightarrow>
     (case run_stmt gap env (i + 3) (q_InsertJobsFromStaging (se_now env i) staging) t3 of
        (Inl e, t4) \<Rightarrow> (Inl (wrapInsertErr e ''insert many jobs from staging''), t4)
      | (Inr jobs, t4) \<Rightarrow> (Inr (map rowFromDB jobs), t4)))))"

text \<open>Statement 0 opens the transaction; a failure after it rolls back, which restores the
  rows the table had, with what others committed; statement 5 is the commit.\<close>

definition pg_InsertMany ::
  "pg_service \<Rightarrow> sql_env \<Rightarrow> insert_params list \<Rightarrow> db_table \<Rightarrow>
   (driver_error + job_row list) \<times> db_table" where
  "pg_InsertMany svc env batch t =
     (if batch = [] then (Inr [], t)
      else case se_fault env 0 of
        NoFault \<Rightarrow>
          (case insertMany svc (\<lambda>_ t. t) env 1 batch t of
             (Inl e, t1) \<Rightarrow> (Inl e, t1\<lparr>db_rows := db_rows t\<rparr>)
           | (Inr rows, t1) \<Rightarrow>
               (case se_fault env 5 of
                  NoFault \<Rightarrow> (Inr rows, t1)
                | FailBefore msg \<Rightarrow>
                    (Inl (wrap_err ''commit insert many'' (ConnError msg)), t1\<lparr>db_rows := db_rows t\<rparr>)
                | FailAfter msg \<Rightarrow> (Inl (wrap_err ''commit insert many'' (ConnError msg)), t1)))
      | FailBefore msg \<Rightarrow> (Inl (wrap_err ''begin insert many'' (ConnError msg)), t)
      | FailAfter msg \<Rightarrow> (Inl (wrap_err ''begin insert many'' (ConnError msg)), t))"

definition pg_InsertManyTx ::
  "pg_service \<Rightarrow> interference \<Rightarrow> sql_env \<Rightarrow> bool \<Rightarrow> insert_params list \<Rightarrow> db_table \<Rightarrow>
   (driver_error + job_row list) \<times> db_table" where
  "pg_InsertManyTx svc gap env is_tx batch t =
     (if \<not> is_tx then (Inl ErrTxUnsupported, t)
      else if batch = [] then (Inr [], t)
      else insertMany svc gap env 0 batch t)"

section \<open>Claiming\<close>

definition pg_FetchAvailable ::
  "pg_service \<Rightarrow> interference \<Rightarrow> sql_env \<Rightarrow> string \<Rightarrow> duration \<Rightarrow> int \<Rightarrow> db_table \<Rightarrow>
   (driver_error + job_row list) \<times> db_table" where
  "pg_FetchAvailable svc gap env queue leaseFor limit t =
     (if limit < 0 \<or> limit > MaxInt32 then (Inl (ErrOther ''fetch limit out of range''), t)
      else case run_stmt gap env 0
             (q_FetchAvailable svc (se_now env 0) (se_locked env) leaseFor queue limit) t of
        (Inl e, t1) \<Rightarrow> (Inl (wrap_err ''fetch available jobs'' e), t1)
      | (Inr jobs, t1) \<Rightarrow> (Inr (sortedRows jobs), t1))"

definition pg_FetchExpired ::
  "pg_service \<Rightarrow> interference \<Rightarrow> sql_env \<Rightarrow> duration \<Rightarrow> int \<Rightarrow> db_table \<Rightarrow>
   (driver_error + job_row list) \<times> db_table" where
  "pg_FetchExpired svc gap env leaseFor limit t =
     (if limit < 0 \<or> limit > MaxInt32 then (Inl (ErrOther ''fetch limit out of range''), t)
      else case run_stmt gap env 0 (q_FetchExpired svc (se_now env 0) (se_locked env) leaseFor limit) t of
        (Inl e, t1) \<Rightarrow> (Inl (wrap_err ''fetch expired jobs'' e), t1)
      | (Inr jobs, t1) \<Rightarrow> (Inr (sortedRows jobs), t1))"

definition pg_ExtendLeases ::
  "pg_service \<Rightarrow> interference \<Rightarrow> sql_env \<Rightarrow> lease list \<Rightarrow> duration \<Rightarrow> db_table \<Rightarrow>
   (driver_error + unit) \<times> db_table" where
  "pg_ExtendLeases svc gap env leases leaseFor t =
     (if leases = [] then (Inr (), t)
      else case run_stmt gap env 0 (q_ExtendLeases svc (se_now env 0) leaseFor
             (map lease_ID leases) (map (\<lambda>l. attemptArg (lease_Attempt l)) leases)) t of
        (Inl e, t1) \<Rightarrow> (Inl (wrap_err ''extend leases'' e), t1)
      | (Inr _, t1) \<Rightarrow> (Inr (), t1))"

section \<open>Finishing an attempt\<close>

definition finalizeFailure ::
  "interference \<Rightarrow> sql_env \<Rightarrow> lease \<Rightarrow> db_table \<Rightarrow> (driver_error + unit) \<times> db_table" where
  "finalizeFailure gap env l t =
     (case run_stmt gap env 1 (\<lambda>t. (q_GetJob (lease_ID l) t, t)) t of
        (Inl NoRows, t1) \<Rightarrow> (Inl ErrNotFound, t1)
      | (Inl e, t1) \<Rightarrow> (Inl (wrap_err ''inspect job'' e), t1)
      | (Inr job, t1) \<Rightarrow>
          if db_State job \<noteq> Running then (Inl ErrInvalidTransition, t1) else (Inl ErrLeaseLost, t1))"

definition explain ::
  "interference \<Rightarrow> sql_env \<Rightarrow> lease \<Rightarrow> int \<Rightarrow> db_table \<Rightarrow> (driver_error + unit) \<times> db_table" where
  "explain gap env l affected t = (if affected = 0 then finalizeFailure gap env l t else (Inr (), t))"

text \<open>What the five Mark methods share: run the guarded update, wrap its error, explain its
  count.\<close>

definition mark ::
  "interference \<Rightarrow> sql_env \<Rightarrow> string \<Rightarrow> lease \<Rightarrow> (db_table \<Rightarrow> (sql_error + int) \<times> db_table) \<Rightarrow>
   db_table \<Rightarrow> (driver_error + unit) \<times> db_table" where
  "mark gap env what l stmt t =
     (case run_stmt gap env 0 stmt t of
        (Inl e, t1) \<Rightarrow> (Inl (wrap_err what e), t1)
      | (Inr affected, t1) \<Rightarrow> explain gap env l affected t1)"

definition pg_MarkCompleted ::
  "interference \<Rightarrow> sql_env \<Rightarrow> lease \<Rightarrow> db_table \<Rightarrow> (driver_error + unit) \<times> db_table" where
  "pg_MarkCompleted gap env l =
     mark gap env ''mark job completed'' l
       (q_MarkCompleted (se_now env 0) (lease_ID l) (attemptArg (lease_Attempt l)))"

definition pg_MarkRetryable ::
  "pg_service \<Rightarrow> interference \<Rightarrow> sql_env \<Rightarrow> lease \<Rightarrow> time \<Rightarrow> raw_message option \<Rightarrow> db_table \<Rightarrow>
   (driver_error + unit) \<times> db_table" where
  "pg_MarkRetryable svc gap env l retryAt errDetail =
     mark gap env ''mark job retryable'' l
       (q_MarkRetryable svc retryAt errDetail (lease_ID l) (attemptArg (lease_Attempt l)))"

definition pg_MarkDead ::
  "pg_service \<Rightarrow> interference \<Rightarrow> sql_env \<Rightarrow> lease \<Rightarrow> raw_message option \<Rightarrow> db_table \<Rightarrow>
   (driver_error + unit) \<times> db_table" where
  "pg_MarkDead svc gap env l errDetail =
     mark gap env ''mark job dead'' l
       (q_MarkDead svc (se_now env 0) errDetail (lease_ID l) (attemptArg (lease_Attempt l)))"

definition pg_MarkCancelled ::
  "pg_service \<Rightarrow> interference \<Rightarrow> sql_env \<Rightarrow> lease \<Rightarrow> raw_message option \<Rightarrow> db_table \<Rightarrow>
   (driver_error + unit) \<times> db_table" where
  "pg_MarkCancelled svc gap env l errDetail =
     mark gap env ''mark job cancelled'' l
       (q_MarkCancelled svc (se_now env 0) errDetail (lease_ID l) (attemptArg (lease_Attempt l)))"

definition pg_MarkSnoozed ::
  "pg_service \<Rightarrow> interference \<Rightarrow> sql_env \<Rightarrow> lease \<Rightarrow> time \<Rightarrow> db_table \<Rightarrow>
   (driver_error + unit) \<times> db_table" where
  "pg_MarkSnoozed svc gap env l runAt =
     mark gap env ''mark job snoozed'' l
       (q_MarkSnoozed svc runAt (lease_ID l) (attemptArg (lease_Attempt l)))"

section \<open>Operator actions and reads\<close>

definition pg_GetJob ::
  "interference \<Rightarrow> sql_env \<Rightarrow> int \<Rightarrow> db_table \<Rightarrow> (driver_error + job_row) \<times> db_table" where
  "pg_GetJob gap env jid t =
     (case run_stmt gap env 0 (\<lambda>t. (q_GetJob jid t, t)) t of
        (Inl NoRows, t1) \<Rightarrow> (Inl ErrNotFound, t1)
      | (Inl e, t1) \<Rightarrow> (Inl (wrap_err ''get job'' e), t1)
      | (Inr job, t1) \<Rightarrow> (Inr (rowFromDB job), t1))"

datatype operator_want = WantCancellable | WantDead

fun operatorEligible :: "job_state \<Rightarrow> operator_want \<Rightarrow> bool" where
  "operatorEligible state WantCancellable =
     (case state of Available \<Rightarrow> True | Scheduled \<Rightarrow> True | Retryable \<Rightarrow> True | Dead \<Rightarrow> True | _ \<Rightarrow> False)"
| "operatorEligible state WantDead = (state = Dead)"

definition pg_afterOperatorMiss ::
  "interference \<Rightarrow> sql_env \<Rightarrow> nat \<Rightarrow> int \<Rightarrow> operator_want \<Rightarrow> bool \<Rightarrow>
   (db_table \<Rightarrow> (driver_error + job_row) \<times> db_table) \<Rightarrow>
   db_table \<Rightarrow> (driver_error + job_row) \<times> db_table" where
  "pg_afterOperatorMiss gap env i jid want allowRetry retry t =
     (case run_stmt gap env i (\<lambda>t. (q_GetJob jid t, t)) t of
        (Inl NoRows, t1) \<Rightarrow> (Inl ErrNotFound, t1)
      | (Inl e, t1) \<Rightarrow> (Inl (wrap_err ''inspect job'' e), t1)
      | (Inr job, t1) \<Rightarrow>
          if allowRetry \<and> operatorEligible (db_State job) want then retry t1
          else (Inl ErrInvalidTransition, t1))"

text \<open>One try of an operator update, whose first statement is the \<open>i\<close>th of the call.\<close>

definition operator_try ::
  "interference \<Rightarrow> sql_env \<Rightarrow> nat \<Rightarrow> string \<Rightarrow>
   (time \<Rightarrow> int \<Rightarrow> db_table \<Rightarrow> (sql_error + db_job) \<times> db_table) \<Rightarrow> operator_want \<Rightarrow> int \<Rightarrow> bool \<Rightarrow>
   (db_table \<Rightarrow> (driver_error + job_row) \<times> db_table) \<Rightarrow>
   db_table \<Rightarrow> (driver_error + job_row) \<times> db_table" where
  "operator_try gap env i what stmt want jid allowRetry retry t =
     (case run_stmt gap env i (stmt (se_now env i) jid) t of
        (Inl NoRows, t1) \<Rightarrow> pg_afterOperatorMiss gap env (i + 1) jid want allowRetry retry t1
      | (Inl e, t1) \<Rightarrow> (Inl (wrap_err what e), t1)
      | (Inr job, t1) \<Rightarrow> (Inr (rowFromDB job), t1))"

definition pg_OperatorCancel ::
  "interference \<Rightarrow> sql_env \<Rightarrow> int \<Rightarrow> db_table \<Rightarrow> (driver_error + job_row) \<times> db_table" where
  "pg_OperatorCancel gap env jid =
     operator_try gap env 0 ''cancel job'' q_OperatorCancel WantCancellable jid True
       (operator_try gap env 2 ''cancel job'' q_OperatorCancel WantCancellable jid False
          (\<lambda>t. (Inl ErrInvalidTransition, t)))"

definition pg_RedriveDead ::
  "interference \<Rightarrow> sql_env \<Rightarrow> int \<Rightarrow> db_table \<Rightarrow> (driver_error + job_row) \<times> db_table" where
  "pg_RedriveDead gap env jid =
     operator_try gap env 0 ''redrive job'' q_RedriveDead WantDead jid True
       (operator_try gap env 2 ''redrive job'' q_RedriveDead WantDead jid False
          (\<lambda>t. (Inl ErrInvalidTransition, t)))"

definition pg_ListJobs ::
  "interference \<Rightarrow> sql_env \<Rightarrow> list_params \<Rightarrow> db_table \<Rightarrow> (driver_error + job_row list) \<times> db_table" where
  "pg_ListJobs gap env p t =
     (if lp_Limit p \<le> 0 then (Inl (ErrOther ''list limit must be positive''), t)
      else if lp_Limit p > MaxInt32 then (Inl (ErrOther ''list limit out of range''), t)
      else case run_stmt gap env 0
             (\<lambda>t. (q_ListJobs (lp_Queue p) (lp_State p) (lp_Limit p) t, t)) t of
        (Inl e, t1) \<Rightarrow> (Inl (wrap_err ''list jobs'' e), t1)
      | (Inr jobs, t1) \<Rightarrow> (Inr (map rowFromDB jobs), t1))"

definition pg_Stats ::
  "interference \<Rightarrow> sql_env \<Rightarrow> db_table \<Rightarrow> (driver_error + stats) \<times> db_table" where
  "pg_Stats gap env t =
     (case run_stmt gap env 0 (\<lambda>t. (Inr (q_QueueDepths t), t)) t of
        (Inl e, t1) \<Rightarrow> (Inl (wrap_err ''count jobs by queue and state'' e), t1)
      | (Inr depths, t1) \<Rightarrow>
     (case run_stmt gap env 1 (\<lambda>t. (Inr (q_OldestClaimable (se_now env 1) t), t)) t1 of
        (Inl e, t2) \<Rightarrow> (Inl (wrap_err ''age the oldest claimable job of each queue'' e), t2)
      | (Inr oldest, t2) \<Rightarrow>
          (Inr \<lparr>Depths = sort_key (\<lambda>d. (qd_Queue d, qd_State d)) depths,
                Oldest = sort_key qa_Queue oldest\<rparr>, t2)))"

end
