(* ===== verification/PgRows.thy ===== *)
theory PgRows
  imports PgDriver Lifecycle
begin

text \<open>
  The PostgreSQL driver implements the storage contract: what each method does to the rows
  the table holds, under any failure of the connection, with the same predicates and row
  updates as the in-memory driver.
\<close>


section \<open>Well-formed tables\<close>

definition job_ok :: "int \<Rightarrow> db_job \<Rightarrow> bool" where
  "job_ok seq j \<longleftrightarrow> 1 \<le> db_ID j \<and> db_ID j \<le> seq \<and> row_wf (rowFromDB j) \<and> int4 (db_Attempt j) \<and>
     (\<exists>js. db_Errors j = JArr js) \<and> db_UniqueKey j \<noteq> Some []"

definition table_wf :: "db_table \<Rightarrow> bool" where
  "table_wf t \<longleftrightarrow> distinct (map db_ID (db_rows t)) \<and> 0 \<le> db_seq t \<and>
     unique_active_ok (db_rows t) \<and> (\<forall>j \<in> set (db_rows t). job_ok (db_seq t) j)"

abbreviation job_of :: "db_table \<Rightarrow> int \<Rightarrow> db_job option" where
  "job_of t \<equiv> map_of (map (\<lambda>j. (db_ID j, j)) (db_rows t))"

text \<open>The rows the table holds, as the driver hands them out.\<close>

definition db_abs :: "db_table \<Rightarrow> rows" where
  "db_abs t = (\<lambda>k. map_option rowFromDB (job_of t k))"

lemma table_wf_distinct: "table_wf t \<Longrightarrow> distinct (map fst (map (\<lambda>j. (db_ID j, j)) (db_rows t)))"
  by (simp add: table_wf_def comp_def)

lemma job_of_mem:
  assumes "table_wf t" shows "job_of t k = Some j \<longleftrightarrow> j \<in> set (db_rows t) \<and> db_ID j = k"
  using map_of_iff_mem[OF table_wf_distinct[OF assms], of k j] by auto

lemma job_of_ok: "table_wf t \<Longrightarrow> job_of t k = Some j \<Longrightarrow> job_ok (db_seq t) j \<and> db_ID j = k"
  by (simp add: job_of_mem) (simp add: table_wf_def)

lemma map_of_rows_map:
  assumes "\<And>j. db_ID (f j) = db_ID j"
  shows "map_of (map (\<lambda>j. (db_ID j, j)) (map f js)) k = map_option f (map_of (map (\<lambda>j. (db_ID j, j)) js) k)"
  by (induction js) (simp_all add: assms)

lemma unique_active_map:
  assumes "unique_active_ok rows"
    and "\<And>j. j \<in> set rows \<Longrightarrow> index_key (f j) = index_key j \<and> (indexed (f j) \<longrightarrow> indexed j)"
  shows "unique_active_ok (map f rows)"
proof -
  have "set (map index_key (filter indexed (map f rows))) \<subseteq> set (map index_key (filter indexed rows)) \<and>
    unique_active_ok (map f rows)"
    using assms
  proof (induction rows)
    case (Cons j rows)
    have r: "unique_active_ok rows" and n: "indexed j \<longrightarrow> index_key j \<notin> set (map index_key (filter indexed rows))"
      using Cons.prems(1) by (auto simp: unique_active_ok_def split: if_splits)
    have IH: "set (map index_key (filter indexed (map f rows))) \<subseteq> set (map index_key (filter indexed rows))"
      "unique_active_ok (map f rows)"
      using Cons.IH[OF r] Cons.prems(2) by auto
    have j: "index_key (f j) = index_key j" "indexed (f j) \<longrightarrow> indexed j" using Cons.prems(2) by auto
    show ?case using IH j n by (auto simp: unique_active_ok_def)
  qed (simp add: unique_active_ok_def)
  then show ?thesis by blast
qed

text \<open>An update that keeps ids and slots, fits its columns and makes no row active that was
  not: it succeeds, and the table stays well formed.\<close>

definition tame :: "(db_job \<Rightarrow> bool) \<Rightarrow> (db_job \<Rightarrow> db_job) \<Rightarrow> db_table \<Rightarrow> bool" where
  "tame cond assign t \<longleftrightarrow>
     (\<forall>j. db_ID (assign j) = db_ID j \<and> db_Kind (assign j) = db_Kind j \<and>
        db_Queue (assign j) = db_Queue j \<and> db_UniqueKey (assign j) = db_UniqueKey j) \<and>
     (\<forall>j \<in> set (db_rows t). cond j \<longrightarrow>
        (indexed (assign j) \<longrightarrow> indexed j) \<and> job_ok (db_seq t) (assign j))"

definition updated :: "(db_job \<Rightarrow> bool) \<Rightarrow> (db_job \<Rightarrow> db_job) \<Rightarrow> db_table \<Rightarrow> db_table" where
  "updated cond assign t = t\<lparr>db_rows := map (\<lambda>j. if cond j then assign j else j) (db_rows t)\<rparr>"

lemma sql_update_tame:
  assumes "table_wf t" "tame cond assign t"
  shows "sql_update cond assign t = (Inr (map assign (filter cond (db_rows t))), updated cond assign t)"
    and "table_wf (updated cond assign t)"
    and "db_abs (updated cond assign t) k =
      map_option (\<lambda>j. rowFromDB (if cond j then assign j else j)) (job_of t k)"
proof -
  have u: "unique_active_ok (db_rows (updated cond assign t))"
    using assms unfolding updated_def
    by (auto intro!: unique_active_map simp: table_wf_def tame_def index_key_def split: if_splits)
  then show "sql_update cond assign t = (Inr (map assign (filter cond (db_rows t))), updated cond assign t)"
    using assms(2) by (auto simp: sql_update_def updated_def tame_def Let_def job_ok_def)
  have ids: "map db_ID (db_rows (updated cond assign t)) = map db_ID (db_rows t)"
    using assms(2) by (auto simp: updated_def tame_def)
  show "table_wf (updated cond assign t)"
    unfolding table_wf_def ids using assms u by (auto simp: table_wf_def updated_def tame_def)
  have "db_ID (if cond j then assign j else j) = db_ID j" for j
    using assms(2) by (simp add: tame_def)
  then show "db_abs (updated cond assign t) k =
      map_option (\<lambda>j. rowFromDB (if cond j then assign j else j)) (job_of t k)"
    by (simp add: db_abs_def updated_def map_of_rows_map option.map_comp comp_def del: map_map)
qed

section \<open>The Mark methods\<close>

lemma filter_held:
  assumes "table_wf t"
  shows "filter (held k a) (db_rows t) =
    (case job_of t k of None \<Rightarrow> [] | Some j \<Rightarrow> if db_Attempt j = a \<and> db_State j = Running then [j] else [])"
proof -
  have "distinct (map db_ID rows) \<Longrightarrow> filter (held k a) rows =
    (case map_of (map (\<lambda>j. (db_ID j, j)) rows) k of None \<Rightarrow> []
     | Some j \<Rightarrow> if db_Attempt j = a \<and> db_State j = Running then [j] else [])" for rows
  proof (induction rows)
    case (Cons j rows)
    then have "db_ID j = k \<Longrightarrow> map_of (map (\<lambda>j. (db_ID j, j)) rows) k = None"
      by (auto simp: map_of_eq_None_iff)
    with Cons show ?case by (auto simp: held_def)
  qed simp
  then show ?thesis using assms by (simp add: table_wf_def)
qed

text \<open>What the server is documented to do, as far as the finalizers rely on it: the
  concatenation of an array and an object appends the object.\<close>

definition jsonb_appends :: "pg_service \<Rightarrow> bool" where
  "jsonb_appends svc \<longleftrightarrow> (\<forall>js obj. jsonb_cat svc (JArr js) (JObj obj) = JArr (js @ [JObj obj]))"

text \<open>No other session gets in between the statements of a call.\<close>

abbreviation (input) alone :: interference where
  "alone \<equiv> (\<lambda>_ t. t)"

text \<open>A call may fail with an error of its own, having done nothing or all of its work;
  otherwise it is what the contract says.\<close>

definition call_ok :: "(driver_error + 'a) \<times> rows \<Rightarrow> rows \<Rightarrow> (driver_error + 'a) \<times> rows \<Rightarrow> bool" where
  "call_ok spec m out \<longleftrightarrow> out = spec \<or>
     ((\<exists>msg. fst out = Inl (ErrOther msg)) \<and> snd out \<in> {m, snd spec})"

definition reliable :: "sql_env \<Rightarrow> bool" where
  "reliable env \<longleftrightarrow> (\<forall>i. se_fault env i = NoFault)"

lemma find_job: "find (\<lambda>j. db_ID j = k) rows = map_of (map (\<lambda>j. (db_ID j, j)) rows) k"
  by (induction rows) auto

lemma attemptArg_matches:
  "lease_Attempt l \<le> MaxInt32 \<Longrightarrow> 1 \<le> n \<Longrightarrow> attemptArg (lease_Attempt l) = n \<longleftrightarrow> lease_Attempt l = n"
  by (auto simp: attemptArg_def)

text \<open>The guarded update alone: it changes the one held row, or nothing.\<close>

text \<open>An update that meets one row, whose id its condition names.\<close>

lemma updated_one:
  assumes wf: "table_wf t" and tame: "tame cond assign t" and j: "job_of t k = Some j"
    and key: "\<And>x. cond x \<Longrightarrow> db_ID x = k" and "cond j" and row: "rowFromDB (assign j) = r"
  shows "db_abs (updated cond assign t) = (db_abs t)(k \<mapsto> r)"
proof
  fix i
  have only: "cond x \<longleftrightarrow> x = j" if "job_of t i = Some x" for x
    using key[of x] job_of_ok[OF wf that] that j \<open>cond j\<close> by auto
  show "db_abs (updated cond assign t) i = ((db_abs t)(k \<mapsto> r)) i"
  proof (cases "job_of t i")
    case None
    then show ?thesis unfolding sql_update_tame(3)[OF wf tame] using j by (auto simp: db_abs_def)
  next
    case (Some x)
    then show ?thesis
      unfolding sql_update_tame(3)[OF wf tame] using only[OF Some] row j job_of_ok[OF wf Some] job_of_ok[OF wf j]
      by (auto simp: db_abs_def)
  qed
qed

lemma held_update:
  fixes t :: db_table and l :: lease
  defines "cond \<equiv> held (lease_ID l) (attemptArg (lease_Attempt l))"
  assumes wf: "table_wf t" and max: "lease_Attempt l \<le> MaxInt32" and tame: "tame cond assign t"
    and change: "\<And>j. j \<in> set (db_rows t) \<Longrightarrow> cond j \<Longrightarrow> rowFromDB (assign j) = change (rowFromDB j)"
  shows "case job_of t (lease_ID l) of
     None \<Rightarrow> execrows (sql_update cond assign t) = (Inr 0, t)
   | Some j \<Rightarrow>
       if db_State j = Running \<and> db_Attempt j = lease_Attempt l
       then execrows (sql_update cond assign t) = (Inr 1, updated cond assign t) \<and>
         db_abs (updated cond assign t) = (db_abs t)(lease_ID l \<mapsto> change (rowFromDB j))
       else execrows (sql_update cond assign t) = (Inr 0, t)"
proof -
  note up = sql_update_tame[OF wf tame]
  have count: "execrows (sql_update cond assign t) =
      (Inr (int (length (filter cond (db_rows t)))), updated cond assign t)"
    by (simp add: up(1) execrows_def)
  have none: "updated cond assign t = t" if "filter cond (db_rows t) = []"
    using that by (auto simp: updated_def filter_empty_conv intro!: map_idI db_table.equality)
  show ?thesis
  proof (cases "job_of t (lease_ID l)")
    case None
    then have "filter cond (db_rows t) = []"
      using filter_held[OF wf, of "lease_ID l"] by (simp add: cond_def)
    then show ?thesis using None none by (simp add: count)
  next
    case (Some j)
    have j: "job_ok (db_seq t) j" "db_ID j = lease_ID l" "j \<in> set (db_rows t)"
      using job_of_ok[OF wf Some] Some by (simp_all add: job_of_mem[OF wf])
    show ?thesis
    proof (cases "db_State j = Running \<and> db_Attempt j = lease_Attempt l")
      case True
      then have pos: "1 \<le> db_Attempt j" using j(1) by (simp add: job_ok_def row_wf_def rowFromDB_def)
      then have at: "attemptArg (lease_Attempt l) = db_Attempt j"
        using True attemptArg_matches[OF max] by simp
      have "cond j" using at True j(2) by (simp add: cond_def held_def)
      have "db_abs (updated cond assign t) = (db_abs t)(lease_ID l \<mapsto> change (rowFromDB j))"
        by (rule updated_one[OF wf tame Some _ \<open>cond j\<close> change[OF j(3) \<open>cond j\<close>]]) (simp add: cond_def held_def)
      moreover have "filter cond (db_rows t) = [j]"
        using True Some at filter_held[OF wf, of "lease_ID l"] by (simp add: cond_def)
      ultimately show ?thesis using True Some by (simp add: count)
    next
      case False
      have "db_State j = Running \<Longrightarrow> db_Attempt j \<noteq> attemptArg (lease_Attempt l)"
        using False attemptArg_matches[OF max, of "db_Attempt j"] j(1)
        by (auto simp: job_ok_def row_wf_def rowFromDB_def)
      then have "filter cond (db_rows t) = []"
        using Some filter_held[OF wf, of "lease_ID l"] by (auto simp: cond_def)
      then show ?thesis using False Some none count by simp
    qed
  qed
qed

lemma mark_guarded:
  fixes t :: db_table and l :: lease
  defines "cond \<equiv> held (lease_ID l) (attemptArg (lease_Attempt l))"
  assumes wf: "table_wf t" and max: "lease_Attempt l \<le> MaxInt32"
    and stmt: "stmt t = execrows (sql_update cond assign t)" and tame: "tame cond assign t"
    and change: "\<And>j. j \<in> set (db_rows t) \<Longrightarrow> cond j \<Longrightarrow> rowFromDB (assign j) = change (rowFromDB j)"
    and out: "mark alone env what l stmt t = (res, t')"
  shows "call_ok (guarded l change (db_abs t)) (db_abs t) (res, db_abs t') \<and> table_wf t' \<and>
    (reliable env \<longrightarrow> (res, db_abs t') = guarded l change (db_abs t))"
proof -
  note up = held_update[OF wf max tame[unfolded cond_def] change[unfolded cond_def], folded cond_def]
  have wf': "table_wf (updated cond assign t)" by (rule sql_update_tame(2)[OF wf tame])
  show ?thesis
  proof (cases "job_of t (lease_ID l)")
    case None
    then have "guarded l change (db_abs t) = (Inl ErrNotFound, db_abs t)" "stmt t = (Inr 0, t)"
      using up stmt by (simp_all add: guarded_def db_abs_def)
    then show ?thesis
      using out wf None
      by (cases "se_fault env 0"; cases "se_fault env 1")
        (auto simp: mark_def run_stmt_def explain_def finalizeFailure_def q_GetJob_def find_job
          wrap_err_def call_ok_def reliable_def)
  next
    case (Some j)
    show ?thesis
    proof (cases "db_State j = Running \<and> db_Attempt j = lease_Attempt l")
      case True
      then have "guarded l change (db_abs t) = (Inr (), (db_abs t)(lease_ID l \<mapsto> change (rowFromDB j)))"
        "stmt t = (Inr 1, updated cond assign t)"
        "db_abs (updated cond assign t) = (db_abs t)(lease_ID l \<mapsto> change (rowFromDB j))"
        using up stmt Some by (simp_all add: guarded_def db_abs_def rowFromDB_def)
      then show ?thesis
        using out wf wf'
        by (cases "se_fault env 0")
          (auto simp: mark_def run_stmt_def explain_def wrap_err_def call_ok_def reliable_def)
    next
      case False
      then have "guarded l change (db_abs t) =
          (Inl (if db_State j \<noteq> Running then ErrInvalidTransition else ErrLeaseLost), db_abs t)"
        "stmt t = (Inr 0, t)"
        using up stmt Some by (auto simp: guarded_def db_abs_def rowFromDB_def)
      then show ?thesis
        using out wf Some
        by (cases "se_fault env 0"; cases "se_fault env 1")
          (auto simp: mark_def run_stmt_def explain_def finalizeFailure_def q_GetJob_def find_job
            wrap_err_def call_ok_def reliable_def)
    qed
  qed
qed

lemmas q_mark_defs = q_MarkCompleted_def q_MarkDead_def q_MarkCancelled_def q_MarkRetryable_def
  q_MarkSnoozed_def with_error_def

lemma tame_held:
  assumes "table_wf t"
    and "\<And>j. db_ID (assign j) = db_ID j \<and> db_Kind (assign j) = db_Kind j \<and>
        db_Queue (assign j) = db_Queue j \<and> db_UniqueKey (assign j) = db_UniqueKey j"
    and "\<And>j. job_ok (db_seq t) j \<Longrightarrow> db_State j = Running \<Longrightarrow> job_ok (db_seq t) (assign j)"
  shows "tame (held k a) assign t"
  using assms by (auto simp: tame_def held_def indexed_def table_wf_def)

lemma job_ok_Errors: "job_ok seq j \<Longrightarrow> \<exists>js. db_Errors j = JArr js"
  by (simp add: job_ok_def)

lemma pg_MarkCompleted_guarded:
  assumes "table_wf t" "lease_Attempt l \<le> MaxInt32"
    and "pg_MarkCompleted alone env l t = (res, t')"
  shows "call_ok (guarded l (completed_row (se_now env 0)) (db_abs t)) (db_abs t) (res, db_abs t') \<and>
    table_wf t' \<and> (reliable env \<longrightarrow> (res, db_abs t') = guarded l (completed_row (se_now env 0)) (db_abs t))"
  by (rule mark_guarded[OF assms(1,2) _ _ _ assms(3)[unfolded pg_MarkCompleted_def]])
    (auto simp: q_mark_defs rowFromDB_def completed_row_def job_ok_def row_wf_def intro!: tame_held[OF assms(1)])

lemma pg_MarkSnoozed_guarded:
  assumes "table_wf t" "lease_Attempt l \<le> MaxInt32"
    and "pg_MarkSnoozed svc alone env l runAt t = (res, t')"
  shows "call_ok (guarded l (snoozed_row (tstz svc runAt)) (db_abs t)) (db_abs t) (res, db_abs t') \<and>
    table_wf t' \<and> (reliable env \<longrightarrow> (res, db_abs t') = guarded l (snoozed_row (tstz svc runAt)) (db_abs t))"
  by (rule mark_guarded[OF assms(1,2) _ _ _ assms(3)[unfolded pg_MarkSnoozed_def]])
    (auto simp: q_mark_defs rowFromDB_def snoozed_row_def job_ok_def row_wf_def int4_def intro!: tame_held[OF assms(1)])

lemma pg_error_marks_guarded:
  assumes wf: "table_wf t" "lease_Attempt l \<le> MaxInt32"
    and err: "jsonb_appends svc" "jsonb_in svc raw = Some (JObj obj)"
  shows pg_MarkDead_guarded:
    "pg_MarkDead svc alone env l (Some raw) t = (res, t') \<Longrightarrow>
     call_ok (guarded l (dead_row (se_now env 0) (JObj obj)) (db_abs t)) (db_abs t) (res, db_abs t') \<and>
     table_wf t' \<and> (reliable env \<longrightarrow> (res, db_abs t') = guarded l (dead_row (se_now env 0) (JObj obj)) (db_abs t))"
    and pg_MarkCancelled_guarded:
    "pg_MarkCancelled svc alone env l (Some raw) t = (res, t') \<Longrightarrow>
     call_ok (guarded l (cancelled_row (se_now env 0) (JObj obj)) (db_abs t)) (db_abs t) (res, db_abs t') \<and>
     table_wf t' \<and> (reliable env \<longrightarrow> (res, db_abs t') = guarded l (cancelled_row (se_now env 0) (JObj obj)) (db_abs t))"
    and pg_MarkRetryable_guarded:
    "pg_MarkRetryable svc alone env l retryAt (Some raw) t = (res, t') \<Longrightarrow>
     call_ok (guarded l (retryable_row (tstz svc retryAt) (JObj obj)) (db_abs t)) (db_abs t) (res, db_abs t') \<and>
     table_wf t' \<and> (reliable env \<longrightarrow> (res, db_abs t') = guarded l (retryable_row (tstz svc retryAt) (JObj obj)) (db_abs t))"
proof -
  have cat: "jsonb_cat svc (db_Errors j) (JObj obj) = (case db_Errors j of JArr js \<Rightarrow> JArr (js @ [JObj obj]))"
    if "\<exists>js. db_Errors j = JArr js" for j
    using that err(1) by (auto simp: jsonb_appends_def)
  have table: "\<exists>js. db_Errors j = JArr js" if "j \<in> set (db_rows t)" for j
    using that wf(1) by (simp add: table_wf_def job_ok_def)
  note facts = q_mark_defs err(2) rowFromDB_def row_defs job_ok_def row_wf_def
  show "call_ok (guarded l (dead_row (se_now env 0) (JObj obj)) (db_abs t)) (db_abs t) (res, db_abs t') \<and>
     table_wf t' \<and> (reliable env \<longrightarrow> (res, db_abs t') = guarded l (dead_row (se_now env 0) (JObj obj)) (db_abs t))"
    if "pg_MarkDead svc alone env l (Some raw) t = (res, t')"
    by (rule mark_guarded[OF wf _ _ _ that[unfolded pg_MarkDead_def],
          where assign = "\<lambda>j. j\<lparr>db_State := Dead, db_FinalizedAt := Some (se_now env 0), db_LeasedUntil := None,
            db_Errors := jsonb_cat svc (db_Errors j) (JObj obj)\<rparr>"])
      (use table in \<open>fastforce simp: facts cat intro!: tame_held[OF wf(1)]\<close>)+
  show "call_ok (guarded l (cancelled_row (se_now env 0) (JObj obj)) (db_abs t)) (db_abs t) (res, db_abs t') \<and>
     table_wf t' \<and> (reliable env \<longrightarrow> (res, db_abs t') = guarded l (cancelled_row (se_now env 0) (JObj obj)) (db_abs t))"
    if "pg_MarkCancelled svc alone env l (Some raw) t = (res, t')"
    by (rule mark_guarded[OF wf _ _ _ that[unfolded pg_MarkCancelled_def],
          where assign = "\<lambda>j. j\<lparr>db_State := Cancelled, db_FinalizedAt := Some (se_now env 0), db_LeasedUntil := None,
            db_Errors := jsonb_cat svc (db_Errors j) (JObj obj)\<rparr>"])
      (use table in \<open>fastforce simp: facts cat intro!: tame_held[OF wf(1)]\<close>)+
  show "call_ok (guarded l (retryable_row (tstz svc retryAt) (JObj obj)) (db_abs t)) (db_abs t) (res, db_abs t') \<and>
     table_wf t' \<and> (reliable env \<longrightarrow> (res, db_abs t') = guarded l (retryable_row (tstz svc retryAt) (JObj obj)) (db_abs t))"
    if "pg_MarkRetryable svc alone env l retryAt (Some raw) t = (res, t')"
    by (rule mark_guarded[OF wf _ _ _ that[unfolded pg_MarkRetryable_def],
          where assign = "\<lambda>j. j\<lparr>db_State := Retryable, db_ScheduledAt := tstz svc retryAt, db_LeasedUntil := None,
            db_Errors := jsonb_cat svc (db_Errors j) (JObj obj)\<rparr>"])
      (use table in \<open>fastforce simp: facts cat intro!: tame_held[OF wf(1)]\<close>)+
qed

section \<open>The table as an in-memory store\<close>

definition mem_of :: "db_table \<Rightarrow> mem_store" where
  "mem_of t = \<lparr>nextID = db_seq t, jobs = map (\<lambda>j. (db_ID j, rowFromDB j)) (db_rows t)\<rparr>"

lemma row_of_mem_of: "row_of (mem_of t) = db_abs t"
proof
  fix k
  have "map_of (map (\<lambda>j. (db_ID j, rowFromDB j)) rows) k =
    map_option rowFromDB (map_of (map (\<lambda>j. (db_ID j, j)) rows) k)" for rows
    by (induction rows) auto
  then show "row_of (mem_of t) k = db_abs t k" by (simp add: mem_of_def db_abs_def)
qed

lemma rowFromDB_ID [simp]: "ID (rowFromDB j) = db_ID j"
  by (simp add: rowFromDB_def)

lemma store_wf_mem_of: "table_wf t \<Longrightarrow> store_wf (mem_of t)"
  by (auto simp: store_wf_def mem_of_def table_wf_def job_ok_def comp_def)

lemma sort_key_map: "sort_key f (map g xs) = map g (sort_key (\<lambda>x. f (g x)) xs)"
proof -
  have "insort_key f (g x) (map g xs) = map g (insort_key (\<lambda>x. f (g x)) x xs)" for x xs
    by (induction xs) auto
  then show ?thesis by (induction xs) auto
qed

lemma selectRows_mem_of:
  "selectRows order keep (mem_of t) =
     map rowFromDB (sort_key (\<lambda>j. (order (rowFromDB j), db_ID j))
       (filter (\<lambda>j. keep (rowFromDB j)) (db_rows t)))"
  by (simp add: selectRows_def mem_of_def filter_map comp_def sort_key_map)

section \<open>The claims\<close>

text \<open>The rows a \<^verbatim>\<open>SKIP LOCKED\<close> subquery names, given as rows of the driver.\<close>

lemma skip_locked_rows:
  assumes wf: "table_wf t" and "0 \<le> maxJobs"
  obtains picked where
    "picks (\<lambda>r. keep r \<and> ID r \<notin> set locked) key maxJobs (db_abs t) (map rowFromDB picked)"
    "skip_locked locked (\<lambda>j. keep (rowFromDB j)) (\<lambda>j. key (rowFromDB j)) maxJobs t = map db_ID picked"
    "set picked \<subseteq> set (db_rows t)"
proof
  let ?keep = "\<lambda>r. keep r \<and> ID r \<notin> set locked"
  let ?p = "take (nat maxJobs) (sort_key (\<lambda>j. (key (rowFromDB j), db_ID j))
    (filter (\<lambda>j. keep (rowFromDB j) \<and> db_ID j \<notin> set locked) (db_rows t)))"
  show "picks ?keep key maxJobs (db_abs t) (map rowFromDB ?p)"
    using picks_limited[OF store_wf_mem_of[OF wf] assms(2), of ?keep key] assms(2)
    by (simp add: row_of_mem_of selectRows_mem_of limited_def take_map)
  show "skip_locked locked (\<lambda>j. keep (rowFromDB j)) (\<lambda>j. key (rowFromDB j)) maxJobs t = map db_ID ?p"
    by (simp add: skip_locked_def)
  show "set ?p \<subseteq> set (db_rows t)" by (auto dest!: in_set_takeD)
qed

lemma picked_filter:
  assumes wf: "table_wf t" and sub: "set picked \<subseteq> set (db_rows t)" and d: "distinct (map db_ID picked)"
  shows "mset (filter (\<lambda>j. db_ID j \<in> set (map db_ID picked)) (db_rows t)) = mset picked"
proof -
  have inj: "inj_on db_ID (set (db_rows t))" and dr: "distinct (db_rows t)"
    using wf by (auto simp: table_wf_def distinct_map)
  have "set (filter (\<lambda>j. db_ID j \<in> set (map db_ID picked)) (db_rows t)) = set picked"
    using sub inj by (auto dest: inj_onD)
  then show ?thesis
    using dr d by (metis distinct_filter distinct_map set_eq_iff_mset_eq_distinct)
qed

text \<open>An update of the picked rows: what is returned, what the table then holds.\<close>

lemma update_picked:
  fixes picked :: "db_job list"
  defines "cond \<equiv> (\<lambda>j. db_ID j \<in> set (map db_ID picked))"
  assumes wf: "table_wf t" and sub: "set picked \<subseteq> set (db_rows t)" and d: "distinct (map db_ID picked)"
    and tame: "tame cond assign t"
    and change: "\<And>j. rowFromDB (assign j) = change (rowFromDB j)" and ids: "\<And>r. ID (change r) = ID r"
  shows "\<exists>js. sql_update cond assign t = (Inr js, updated cond assign t) \<and>
      sortedRows js = sort_key ID (map change (map rowFromDB picked))"
    and "db_abs (updated cond assign t) = change_rows change (map rowFromDB picked) (db_abs t)"
proof -
  note up = sql_update_tame[OF wf tame]
  have "mset (map assign (filter cond (db_rows t))) = mset (map assign picked)"
    using picked_filter[OF wf sub d] by (simp add: cond_def)
  then have "mset (map rowFromDB (map assign (filter cond (db_rows t)))) =
      mset (map change (map rowFromDB picked))"
    by (simp add: change comp_def flip: mset_map)
     (metis (no_types, lifting) change comp_apply image_mset_cong mset_map multiset.map_comp)
  moreover have "distinct (map ID (map change (map rowFromDB picked)))"
    using d by (simp add: ids comp_def)
  then have "inj_on ID (set (map change (map rowFromDB picked)))" using distinct_map by blast
  ultimately have "sortedRows (map assign (filter cond (db_rows t))) =
      sort_key ID (map change (map rowFromDB picked))"
    unfolding sortedRows_def
    by (intro sort_func_unique) simp_all
  then show "\<exists>js. sql_update cond assign t = (Inr js, updated cond assign t) \<and>
      sortedRows js = sort_key ID (map change (map rowFromDB picked))"
    using up(1) by blast
  have "db_abs (updated cond assign t) k = change_rows change (map rowFromDB picked) (db_abs t) k" for k
    unfolding up(3) using job_of_ok[OF wf, of k]
    by (cases "job_of t k") (auto simp: db_abs_def change_rows_def cond_def change image_image)
  then show "db_abs (updated cond assign t) = change_rows change (map rowFromDB picked) (db_abs t)" by auto
qed


lemma picks_distinct: "picks keep key n m (map rowFromDB picked) \<Longrightarrow> distinct (map db_ID picked)"
  by (simp add: picks_def comp_def)

lemma due_rowFromDB:
  "db_State j \<in> {Available, Retryable, Scheduled} \<and> db_Queue j = queue \<and> db_ScheduledAt j \<le> now \<longleftrightarrow>
   due queue now (rowFromDB j)"
  by (cases "db_State j") (auto simp: due_def rowFromDB_def)

lemma expired_rowFromDB:
  "db_State j = Running \<and> (case db_LeasedUntil j of None \<Rightarrow> False | Some u \<Rightarrow> u \<le> now) \<longleftrightarrow>
   expired now (rowFromDB j)"
  by (auto simp: expired_def rowFromDB_def split: option.splits)

lemma keys_rowFromDB:
  "db_ScheduledAt j = ScheduledAt (rowFromDB j)"
  "(case db_LeasedUntil j of None \<Rightarrow> 0 | Some u \<Rightarrow> u) = byLeasedUntil (rowFromDB j)"
  by (simp_all add: rowFromDB_def byLeasedUntil_def)

lemma picked_eligible:
  assumes "table_wf t" "picks keep key n (db_abs t) (map rowFromDB picked)" "j \<in> set (db_rows t)"
    "db_ID j \<in> set (map db_ID picked)" "set picked \<subseteq> set (db_rows t)"
  shows "keep (rowFromDB j)"
proof -
  obtain p where "p \<in> set picked" "db_ID p = db_ID j" using assms(4) by auto
  then have "p = j" using assms(1,3,5) by (auto simp: table_wf_def distinct_map dest: inj_onD)
  then show ?thesis using assms(2) \<open>p \<in> set picked\<close> by (auto simp: picks_def eligible_rows_def)
qed

lemma pg_FetchAvailable_rows:
  assumes wf: "table_wf t" and limit: "0 \<le> limit" "limit \<le> MaxInt32"
    and out: "pg_FetchAvailable svc alone env queue leaseFor limit t = (res, t')"
  shows "\<exists>picked.
    picks (\<lambda>r. due queue (se_now env 0) r \<and> ID r \<notin> set (se_locked env)) ScheduledAt limit (db_abs t) picked \<and>
    (let change = claimRow (se_now env 0) (make_interval svc leaseFor);
         spec = (Inr (sort_key ID (map change picked)), change_rows change picked (db_abs t))
     in call_ok spec (db_abs t) (res, db_abs t') \<and> table_wf t' \<and>
        (reliable env \<longrightarrow> (\<forall>j \<in> set (db_rows t). db_Attempt j < MaxInt32) \<longrightarrow> (res, db_abs t') = spec))"
proof -
  let ?keep = "due queue (se_now env 0)" and ?change = "claimRow (se_now env 0) (make_interval svc leaseFor)"
  obtain picked where p:
    "picks (\<lambda>r. ?keep r \<and> ID r \<notin> set (se_locked env)) ScheduledAt limit (db_abs t) (map rowFromDB picked)"
    "skip_locked (se_locked env) (\<lambda>j. ?keep (rowFromDB j)) (\<lambda>j. ScheduledAt (rowFromDB j)) limit t = map db_ID picked"
    "set picked \<subseteq> set (db_rows t)"
    by (rule skip_locked_rows[OF wf limit(1)])
  let ?cond = "\<lambda>j. db_ID j \<in> set (map db_ID picked)"
  let ?assign = "\<lambda>j. j\<lparr>db_State := Running, db_Attempt := db_Attempt j + 1,
                  db_LeasedUntil := Some (se_now env 0 + make_interval svc leaseFor)\<rparr>"
  have q: "q_FetchAvailable svc (se_now env 0) (se_locked env) leaseFor queue limit t =
      sql_update ?cond ?assign t"
    unfolding q_FetchAvailable_def due_rowFromDB p(2)[folded keys_rowFromDB(1)] by (simp add: Let_def)
  show ?thesis
  proof (cases "\<exists>j \<in> set (db_rows t). ?cond j \<and> \<not> int4 (db_Attempt (?assign j))")
    case True
    then have "q_FetchAvailable svc (se_now env 0) (se_locked env) leaseFor queue limit t = (Inl out_of_range, t)"
      unfolding q by (simp add: sql_update_def)
    moreover have "\<not> (\<forall>j \<in> set (db_rows t). db_Attempt j < MaxInt32)"
      using True wf by (fastforce simp: table_wf_def job_ok_def int4_def)
    ultimately show ?thesis
      using out limit p(1) wf
      by (intro exI[of _ "map rowFromDB picked"], cases "se_fault env 0")
        (auto simp: pg_FetchAvailable_def run_stmt_def call_ok_def wrap_err_def Let_def)
  next
    case False
    have tame: "tame ?cond ?assign t"
      unfolding tame_def
    proof (intro conjI ballI impI allI)
      fix j assume j: "j \<in> set (db_rows t)" "?cond j"
      have "due queue (se_now env 0) (rowFromDB j)"
        using picked_eligible[OF wf p(1) j p(3)] by simp
      then have w: "db_State j \<in> {Available, Retryable, Scheduled}" by (simp flip: due_rowFromDB)
      show "indexed j" if "indexed (?assign j)" using that w by (auto simp: indexed_def)
      have "job_ok (db_seq t) j" "int4 (db_Attempt j + 1)" using wf j False by (auto simp: table_wf_def)
      then show "job_ok (db_seq t) (?assign j)"
        using w by (auto simp: job_ok_def row_wf_def rowFromDB_def)
    qed auto
    have change: "rowFromDB (?assign j) = ?change (rowFromDB j)" for j
      by (simp add: rowFromDB_def claimRow_def)
    note up = update_picked[OF wf p(3) picks_distinct[OF p(1)] tame change ID_claimRow]
    have "table_wf (updated ?cond ?assign t)" by (rule sql_update_tame(2)[OF wf tame])
    with up out limit p(1) wf show ?thesis
      by (intro exI[of _ "map rowFromDB picked"], cases "se_fault env 0")
        (auto simp: pg_FetchAvailable_def run_stmt_def call_ok_def wrap_err_def Let_def q reliable_def)
  qed
qed

lemma pg_FetchExpired_rows:
  assumes wf: "table_wf t" and limit: "0 \<le> limit" "limit \<le> MaxInt32"
    and out: "pg_FetchExpired svc alone env leaseFor limit t = (res, t')"
  shows "\<exists>picked.
    picks (\<lambda>r. expired (se_now env 0) r \<and> ID r \<notin> set (se_locked env)) byLeasedUntil limit (db_abs t) picked \<and>
    (let change = reclaimRow (se_now env 0) (make_interval svc leaseFor);
         spec = (Inr (sort_key ID (map change picked)), change_rows change picked (db_abs t))
     in call_ok spec (db_abs t) (res, db_abs t') \<and> table_wf t' \<and> (reliable env \<longrightarrow> (res, db_abs t') = spec))"
proof -
  let ?keep = "expired (se_now env 0)" and ?change = "reclaimRow (se_now env 0) (make_interval svc leaseFor)"
  obtain picked where p:
    "picks (\<lambda>r. ?keep r \<and> ID r \<notin> set (se_locked env)) byLeasedUntil limit (db_abs t) (map rowFromDB picked)"
    "skip_locked (se_locked env) (\<lambda>j. ?keep (rowFromDB j)) (\<lambda>j. byLeasedUntil (rowFromDB j)) limit t = map db_ID picked"
    "set picked \<subseteq> set (db_rows t)"
    by (rule skip_locked_rows[OF wf limit(1)])
  let ?cond = "\<lambda>j. db_ID j \<in> set (map db_ID picked)"
  let ?assign = "\<lambda>j. j\<lparr>db_LeasedUntil := Some (se_now env 0 + make_interval svc leaseFor)\<rparr>"
  have q: "q_FetchExpired svc (se_now env 0) (se_locked env) leaseFor limit t = sql_update ?cond ?assign t"
    unfolding q_FetchExpired_def expired_rowFromDB p(2)[folded keys_rowFromDB(2)] by (simp add: Let_def)
  have tame: "tame ?cond ?assign t"
    unfolding tame_def
  proof (intro conjI ballI impI allI)
    fix j assume j: "j \<in> set (db_rows t)" "?cond j"
    have "db_State j = Running"
      using picked_eligible[OF wf p(1) j p(3)] by (simp flip: expired_rowFromDB)
    moreover have "job_ok (db_seq t) j" using wf j by (auto simp: table_wf_def)
    ultimately show "job_ok (db_seq t) (?assign j)"
      by (auto simp: job_ok_def row_wf_def rowFromDB_def)
    show "indexed j" if "indexed (?assign j)" using that by (simp add: indexed_def)
  qed auto
  have change: "rowFromDB (?assign j) = ?change (rowFromDB j)" for j
    by (simp add: rowFromDB_def reclaimRow_def)
  note up = update_picked[OF wf p(3) picks_distinct[OF p(1)] tame change ID_reclaimRow]
  have "table_wf (updated ?cond ?assign t)" by (rule sql_update_tame(2)[OF wf tame])
  with up out limit p(1) wf show ?thesis
    by (intro exI[of _ "map rowFromDB picked"], cases "se_fault env 0")
      (auto simp: pg_FetchExpired_def run_stmt_def call_ok_def wrap_err_def Let_def q reliable_def)
qed

section \<open>Heartbeats\<close>

lemma pg_ExtendLeases_rows:
  assumes wf: "table_wf t" and max: "\<forall>l \<in> set leases. lease_Attempt l \<le> MaxInt32"
    and out: "pg_ExtendLeases svc alone env leases leaseFor t = (res, t')"
  defines "spec \<equiv> (Inr (), extended (se_now env 0 + make_interval svc leaseFor) leases (db_abs t))"
  shows "call_ok spec (db_abs t) (res, db_abs t') \<and> table_wf t' \<and> (reliable env \<longrightarrow> (res, db_abs t') = spec)"
proof (cases "leases = []")
  case True
  then show ?thesis using out wf by (simp add: pg_ExtendLeases_def call_ok_def spec_def extended_Nil)
next
  case False
  let ?cond = "\<lambda>j. \<exists>held \<in> set (zip (map lease_ID leases) (map (\<lambda>l. attemptArg (lease_Attempt l)) leases)).
          db_ID j = fst held \<and> db_Attempt j = snd held \<and> db_State j = Running"
  let ?assign = "\<lambda>j. j\<lparr>db_LeasedUntil := Some (se_now env 0 + make_interval svc leaseFor)\<rparr>"
  have tame: "tame ?cond ?assign t"
    using wf by (auto simp: tame_def table_wf_def job_ok_def row_wf_def rowFromDB_def indexed_def)
  have cond: "?cond j \<longleftrightarrow> holds_lease leases k (rowFromDB j)" if "job_of t k = Some j" for j k
  proof -
    have "job_ok (db_seq t) j" "db_ID j = k" using job_of_ok[OF wf that] by auto
    then have eq: "db_State j = Running \<Longrightarrow> l \<in> set leases \<Longrightarrow>
        db_Attempt j = attemptArg (lease_Attempt l) \<longleftrightarrow> lease_Attempt l = db_Attempt j" for l
      using max attemptArg_matches[of l "db_Attempt j"] by (auto simp: job_ok_def row_wf_def rowFromDB_def)
    have "set (zip (map lease_ID leases) (map (\<lambda>l. attemptArg (lease_Attempt l)) leases)) =
        (\<lambda>l. (lease_ID l, attemptArg (lease_Attempt l))) ` set leases"
      by (auto simp: zip_map_map zip_same_conv_map)
    then have "?cond j \<longleftrightarrow> (\<exists>l \<in> set leases. k = lease_ID l \<and> db_Attempt j = attemptArg (lease_Attempt l) \<and> db_State j = Running)"
      using \<open>db_ID j = k\<close> by simp
    also have "\<dots> \<longleftrightarrow> holds_lease leases k (rowFromDB j)"
      using eq by (auto simp: holds_lease_def rowFromDB_def intro: rev_bexI)
    finally show ?thesis .
  qed
  note up = sql_update_tame[OF wf tame]
  have "db_abs (updated ?cond ?assign t) k = extended (se_now env 0 + make_interval svc leaseFor) leases (db_abs t) k" for k
    unfolding up(3) using cond[of k]
    by (cases "job_of t k") (simp_all add: extended_def db_abs_def, simp add: rowFromDB_def)
  then have "db_abs (updated ?cond ?assign t) = extended (se_now env 0 + make_interval svc leaseFor) leases (db_abs t)"
    by (rule ext)
  then show ?thesis
    using False out up(1,2) wf unfolding spec_def
    by (cases "se_fault env 0")
      (auto simp: pg_ExtendLeases_def run_stmt_def q_ExtendLeases_def execrows_def call_ok_def wrap_err_def
        reliable_def simp del: zip_map_map)
qed

section \<open>Inserts\<close>

text \<open>The parameters as the server stores them.\<close>

definition stored_as :: "pg_service \<Rightarrow> insert_params \<Rightarrow> insert_params \<Rightarrow> bool" where
  "stored_as svc p p' \<longleftrightarrow>
     (\<exists>a. jsonb_in svc (ip_Args p) = Some a \<and> p' = p\<lparr>ip_Args := Valid a,
        ip_ScheduledAt := (if IsZero (ip_ScheduledAt p) then 0 else tstz svc (ip_ScheduledAt p))\<rparr>) \<and>
     (ip_ScheduledAt p \<noteq> 0 \<longrightarrow> tstz svc (ip_ScheduledAt p) \<noteq> 0)"

lemma unique_active_snoc:
  assumes "unique_active_ok rows"
  shows "unique_active_ok (rows @ [j]) \<longleftrightarrow> \<not> (indexed j \<and> (\<exists>x \<in> set rows. indexed x \<and> index_key x = index_key j))"
  using assms by (auto simp: unique_active_ok_def intro: rev_image_eqI)

lemma insert_row_mem:
  assumes wf: "table_wf t" and j: "rowFromDB (row (db_seq t + 1)) = jobFromParams (db_seq t + 1) p now"
    "db_UniqueKey (row (db_seq t + 1)) = (if ip_UniqueKey p = [] then None else Some (ip_UniqueKey p))"
  shows "case mem_Insert now p (mem_of t) of
      (Inl e, _) \<Rightarrow> e = ErrDuplicateJob \<and> insert_row row t =
        (Inl (PgError pgUniqueViolation uniqueActiveIndex), t\<lparr>db_seq := db_seq t + 1\<rparr>)
    | (Inr r, s') \<Rightarrow> (\<exists>job t'. insert_row row t = (Inr job, t') \<and> rowFromDB job = r \<and> mem_of t' = s')"
proof -
  let ?j = "row (db_seq t + 1)"
  have u: "unique_active_ok (db_rows t)" using wf by (simp add: table_wf_def)
  have fields: "db_ID ?j = db_seq t + 1" "db_Queue ?j = ip_Queue p" "db_Kind ?j = ip_Kind p" "\<not> terminal (db_State ?j)"
    using j(1) by (auto simp: rowFromDB_def jobFromParams_def Let_def)
  have idx: "indexed x \<longleftrightarrow> db_UniqueKey x \<noteq> None \<and> uniqueActive (db_State x)" for x
    by (cases "db_State x") (auto simp: indexed_def)
  have "unique_active_ok (db_rows t @ [?j]) \<longleftrightarrow>
      \<not> uniqueConflict (mem_of t) (ip_Queue p) (ip_Kind p) (ip_UniqueKey p) []"
  proof (cases "ip_UniqueKey p = []")
    case True
    then show ?thesis using j(2) by (simp add: unique_active_snoc[OF u] idx uniqueConflict_def)
  next
    case False
    have "UniqueKey (rowFromDB x) = ip_UniqueKey p \<longleftrightarrow> db_UniqueKey x = Some (ip_UniqueKey p)" for x
      using False by (auto simp: rowFromDB_def split: option.split)
    then show ?thesis
      using j(2) fields False
      by (auto simp: unique_active_snoc[OF u] idx uniqueActive_iff uniqueConflict_def mem_of_def index_key_def rowFromDB_def)
  qed
  moreover have "db_seq t + 1 \<notin> fst ` set (jobs (mem_of t))"
    using wf by (force simp: mem_of_def table_wf_def job_ok_def)
  then have "jobs (put_row (rowFromDB ?j) (mem_of t)) = jobs (mem_of t) @ [(db_seq t + 1, rowFromDB ?j)]"
    using fields(1) by (simp add: update_fresh)
  ultimately show ?thesis
    using j(1) fields(1) by (auto simp: mem_Insert_def insert_row_def Let_def mem_of_def)
qed


lemma job_ok_mono: "job_ok n j \<Longrightarrow> n \<le> m \<Longrightarrow> job_ok m j"
  by (auto simp: job_ok_def)

lemma insert_row_wf:
  assumes wf: "table_wf t" and "job_ok (db_seq t + 1) (row (db_seq t + 1))" "db_ID (row (db_seq t + 1)) = db_seq t + 1"
  shows "table_wf (snd (insert_row row t))"
proof -
  have "db_seq t + 1 \<notin> set (map db_ID (db_rows t))"
    using wf by (force simp: table_wf_def job_ok_def)
  moreover have "\<forall>j \<in> set (db_rows t). job_ok (db_seq t + 1) j"
    using wf job_ok_mono by (auto simp: table_wf_def)
  ultimately show ?thesis
    using assms by (auto simp: insert_row_def Let_def table_wf_def)
qed

lemma new_job_row:
  assumes "stored_as svc p p'" "jsonb_in svc (ip_Args p) = Some a"
    "sched = (if IsZero (ip_ScheduledAt p) then None else Some (tstz svc (ip_ScheduledAt p)))"
    "key = (if ip_UniqueKey p = [] then None else Some (ip_UniqueKey p))"
  shows "rowFromDB (new_job k now (ip_Kind p) (ip_Queue p) a sched key) = jobFromParams k p' now"
    and "1 \<le> k \<Longrightarrow> job_ok k (new_job k now (ip_Kind p) (ip_Queue p) a sched key)"
    and "db_UniqueKey (new_job k now (ip_Kind p) (ip_Queue p) a sched key) =
      (if ip_UniqueKey p' = [] then None else Some (ip_UniqueKey p'))"
    and "db_ID (new_job k now (ip_Kind p) (ip_Queue p) a sched key) = k"
  using assms
  by (auto simp: stored_as_def new_job_def rowFromDB_def jobFromParams_def Let_def job_ok_def
      row_wf_def int4_def MaxInt32_def)

text \<open>A row written for stored parameters, against the in-memory insert of them.\<close>

lemma insert_stored:
  fixes now :: time
  assumes wf: "table_wf t" and "stored_as svc p p'" "jsonb_in svc (ip_Args p) = Some a"
    "sched = (if IsZero (ip_ScheduledAt p) then None else Some (tstz svc (ip_ScheduledAt p)))"
    "key = (if ip_UniqueKey p = [] then None else Some (ip_UniqueKey p))"
  defines "ins \<equiv> insert_row (\<lambda>k. new_job k now (ip_Kind p) (ip_Queue p) a sched key) t"
  shows "case mem_Insert now p' (mem_of t) of
      (Inl e, _) \<Rightarrow> e = ErrDuplicateJob \<and>
        ins = (Inl (PgError pgUniqueViolation uniqueActiveIndex), t\<lparr>db_seq := db_seq t + 1\<rparr>)
    | (Inr r, s') \<Rightarrow> (\<exists>job t'. ins = (Inr job, t') \<and> rowFromDB job = r \<and> mem_of t' = s')"
    and "table_wf (snd ins)"
proof -
  note row = new_job_row[OF assms(2-5)]
  show "case mem_Insert now p' (mem_of t) of
      (Inl e, _) \<Rightarrow> e = ErrDuplicateJob \<and>
        ins = (Inl (PgError pgUniqueViolation uniqueActiveIndex), t\<lparr>db_seq := db_seq t + 1\<rparr>)
    | (Inr r, s') \<Rightarrow> (\<exists>job t'. ins = (Inr job, t') \<and> rowFromDB job = r \<and> mem_of t' = s')"
    unfolding ins_def by (rule insert_row_mem[OF wf]) (simp_all add: row)
  have "1 \<le> db_seq t + 1" using wf by (simp add: table_wf_def)
  then show "table_wf (snd ins)"
    unfolding ins_def by (intro insert_row_wf[OF wf]) (simp_all add: row)
qed

lemma pg_Insert_mem:
  assumes wf: "table_wf t" and st: "stored_as svc p p'" and "reliable env"
  shows "case mem_Insert (se_now env 0) p' (mem_of t) of
      (Inl e, _) \<Rightarrow> pg_Insert svc alone env p t = (Inl e, t\<lparr>db_seq := db_seq t + 1\<rparr>)
    | (Inr r, s') \<Rightarrow> (\<exists>t'. pg_Insert svc alone env p t = (Inr r, t') \<and> mem_of t' = s' \<and> table_wf t')"
proof -
  obtain a where a: "jsonb_in svc (ip_Args p) = Some a" using st by (auto simp: stored_as_def)
  let ?sched = "if IsZero (ip_ScheduledAt p) then None else Some (tstz svc (ip_ScheduledAt p))"
  let ?key = "if ip_UniqueKey p = [] then None else Some (ip_UniqueKey p)"
  define ins where "ins = insert_row (\<lambda>k. new_job k (se_now env 0) (ip_Kind p) (ip_Queue p) a ?sched ?key) t"
  have "q_InsertJob svc (se_now env 0) (insertParams p) t = ins"
    by (simp add: q_InsertJob_def insertParams_def a ins_def)
  then have pg: "pg_Insert svc alone env p t =
      (case ins of
        (Inl e, t1) \<Rightarrow> (Inl (wrapInsertErr e ''insert job''), t1)
      | (Inr job, t1) \<Rightarrow> (Inr (rowFromDB job), t1))"
    using assms(3) by (simp add: pg_Insert_def run_stmt_def reliable_def)
  note spec = insert_stored[OF wf st a refl refl, of "se_now env 0", folded ins_def]
  obtain x s' where m: "mem_Insert (se_now env 0) p' (mem_of t) = (x, s')" by fastforce
  show ?thesis
  proof (cases x)
    case (Inl e)
    then show ?thesis
      using spec(1) by (simp add: pg m wrapInsertErr_def isUniqueActiveViolation_def)
  next
    case (Inr r)
    then show ?thesis using spec by (auto simp: pg m)
  qed
qed

lemma insert_staged_mem:
  assumes "table_wf t" "list_all2 (stored_as svc) batch batch'" "copy_rows svc i batch = Inr staging"
  shows "case insertEach now batch' (mem_of t) of
      (Inl e, _) \<Rightarrow> e = ErrDuplicateJob \<and>
        fst (insert_staged now staging t) = Inl (PgError pgUniqueViolation uniqueActiveIndex)
    | (Inr rs, s') \<Rightarrow> (\<exists>js t'. insert_staged now staging t = (Inr js, t') \<and> map rowFromDB js = rs \<and>
        mem_of t' = s' \<and> table_wf t')"
  using assms
proof (induction batch arbitrary: batch' i staging t)
  case Nil
  then show ?case by simp
next
  case (Cons p batch)
  obtain p' bs where b': "batch' = p' # bs" "stored_as svc p p'" "list_all2 (stored_as svc) batch bs"
    using Cons.prems(2) by (auto simp: list_all2_Cons1)
  obtain a rest where a: "jsonb_in svc (ip_Args p) = Some a" "copy_rows svc (Suc i) batch = Inr rest"
    and st: "staging = \<lparr>st_ord = i, st_kind = ip_Kind p, st_queue = ip_Queue p, st_args = a,
      st_scheduled_at = (if IsZero (ip_ScheduledAt p) then None else Some (tstz svc (ip_ScheduledAt p))),
      st_unique_key = (if ip_UniqueKey p = [] then None else Some (ip_UniqueKey p))\<rparr> # rest"
    using Cons.prems(3) by (auto split: option.splits sum.splits)
  note ins = insert_stored[OF Cons.prems(1) b'(2) a(1) refl refl, of now]
  show ?case
  proof (cases "fst (mem_Insert now p' (mem_of t))")
    case (Inl e)
    then show ?thesis using ins(1) b'(1) st by (auto split: prod.splits)
  next
    case (Inr r)
    then obtain job t1 where j: "insert_row (\<lambda>k. new_job k now (ip_Kind p) (ip_Queue p) a
        (if IsZero (ip_ScheduledAt p) then None else Some (tstz svc (ip_ScheduledAt p)))
        (if ip_UniqueKey p = [] then None else Some (ip_UniqueKey p))) t = (Inr job, t1)"
      "rowFromDB job = r" "mem_of t1 = snd (mem_Insert now p' (mem_of t))"
      using ins(1) by (auto split: prod.splits)
    have "table_wf t1" using ins(2) j(1) by simp
    note IH = Cons.IH[OF this b'(3) a(2)]
    have m: "mem_Insert now p' (mem_of t) = (Inr r, mem_of t1)" using Inr j(3) by (metis prod.collapse)
    show ?thesis
      using IH by (auto simp: b'(1) st j(1,2) m split: prod.splits sum.splits)
  qed
qed

lemma copy_rows_ord:
  "copy_rows svc i batch = Inr staging \<Longrightarrow> map st_ord staging = [i..<i + length batch]"
proof (induction batch arbitrary: i staging)
  case (Cons p batch)
  then obtain x rest where r: "staging = x # rest" "st_ord x = i" "copy_rows svc (Suc i) batch = Inr rest"
    by (auto split: option.splits sum.splits)
  then have "map st_ord rest = [Suc i..<Suc i + length batch]" using Cons.IH by blast
  moreover have "[i..<i + length (p # batch)] = i # [Suc i..<Suc i + length batch]"
    by (simp add: upt_conv_Cons del: upt_Suc)
  ultimately show ?case using r by (simp del: upt_Suc)
qed simp

lemma sort_key_staged: "copy_rows svc i batch = Inr staging \<Longrightarrow> sort_key st_ord staging = staging"
  by (rule sort_key_id_if_sorted) (simp add: copy_rows_ord)

lemma stored_copy:
  "list_all2 (stored_as svc) batch batch' \<Longrightarrow> \<exists>staging. copy_rows svc i batch = Inr staging"
proof (induction arbitrary: i rule: list_all2_induct)
  case (Cons p batch p' batch')
  obtain rest where "copy_rows svc (Suc i) batch = Inr rest" using Cons.IH by blast
  then show ?case using Cons.hyps(1) by (auto simp: stored_as_def)
qed simp

lemma pg_InsertMany_mem:
  assumes wf: "table_wf t" and st: "list_all2 (stored_as svc) batch batch'" and rel: "reliable env"
  shows "case mem_InsertMany (se_now env 1) batch' (mem_of t) of
      (Inl e, _) \<Rightarrow> (\<exists>t'. pg_InsertMany svc env batch t = (Inl e, t') \<and> db_rows t' = db_rows t)
    | (Inr rs, s') \<Rightarrow> (\<exists>t'. pg_InsertMany svc env batch t = (Inr rs, t') \<and> mem_of t' = s' \<and> table_wf t')"
proof (cases "batch = []")
  case True
  then show ?thesis using st wf by (simp add: pg_InsertMany_def mem_InsertMany_def)
next
  case False
  obtain staging where copy: "copy_rows svc 0 batch = Inr staging" using stored_copy[OF st] by blast
  note many = insert_staged_mem[OF wf st copy, of "se_now env 1"] mem_InsertMany_insertEach[OF store_wf_mem_of[OF wf]]
  have "insertMany svc alone env 1 batch t =
    (case q_InsertJobsFromStaging (se_now env 1) staging t of
        (Inl e, t4) \<Rightarrow> (Inl (wrapInsertErr e ''insert many jobs from staging''), t4)
      | (Inr js, t4) \<Rightarrow> (Inr (map rowFromDB js), t4))"
    using rel by (simp add: insertMany_def run_stmt_def reliable_def copy)
  then have pg: "pg_InsertMany svc env batch t =
    (case q_InsertJobsFromStaging (se_now env 1) staging t of
        (Inl e, t1) \<Rightarrow> (Inl (wrapInsertErr e ''insert many jobs from staging''), t1\<lparr>db_rows := db_rows t\<rparr>)
      | (Inr js, t1) \<Rightarrow> (Inr (map rowFromDB js), t1))"
    using False rel by (simp add: pg_InsertMany_def reliable_def split: prod.split sum.split)
  obtain x s' where m: "insertEach (se_now env 1) batch' (mem_of t) = (x, s')" by fastforce
  obtain y t1 where st1: "insert_staged (se_now env 1) staging t = (y, t1)" by fastforce
  show ?thesis
  proof (cases x)
    case (Inl e)
    then show ?thesis
      using many(1)
      by (simp add: many(2) m st1 pg q_InsertJobsFromStaging_def sort_key_staged[OF copy]
          wrapInsertErr_def isUniqueActiveViolation_def del: One_nat_def)
  next
    case (Inr rs)
    then show ?thesis
      using many(1) by (auto simp: many(2) m st1 pg q_InsertJobsFromStaging_def sort_key_staged[OF copy]
          simp del: One_nat_def)
  qed
qed

section \<open>Every reachable table\<close>

text \<open>Documented of \<^verbatim>\<open>jsonb\<close>: an array concatenated with anything is an array.\<close>

definition jsonb_keeps_arrays :: "pg_service \<Rightarrow> bool" where
  "jsonb_keeps_arrays svc \<longleftrightarrow> (\<forall>js e. \<exists>js'. jsonb_cat svc (JArr js) e = JArr js')"

text \<open>One statement of one session. Sessions interleave at statements; a batch insert
  becomes visible as a whole when its transaction commits, and an insert never writes an
  empty unique key.\<close>

inductive db_step :: "pg_service \<Rightarrow> db_table \<Rightarrow> db_table \<Rightarrow> bool" for svc where
  insert: "ijp_UniqueKey arg \<noteq> Some [] \<Longrightarrow> db_step svc t (snd (q_InsertJob svc now arg t))"
| insert_many: "(\<And>x. x \<in> set staging \<Longrightarrow> st_unique_key x \<noteq> Some []) \<Longrightarrow>
    db_step svc t (snd (q_InsertJobsFromStaging now staging t))"
| fetch: "db_step svc t (snd (q_FetchAvailable svc now locked d queue n t))"
| fetch_expired: "db_step svc t (snd (q_FetchExpired svc now locked d n t))"
| extend: "db_step svc t (snd (q_ExtendLeases svc now d ids attempts t))"
| completed: "db_step svc t (snd (q_MarkCompleted now k a t))"
| retryable: "db_step svc t (snd (q_MarkRetryable svc at' e k a t))"
| dead: "db_step svc t (snd (q_MarkDead svc now e k a t))"
| cancelled: "db_step svc t (snd (q_MarkCancelled svc now e k a t))"
| snoozed: "db_step svc t (snd (q_MarkSnoozed svc at' k a t))"
| op_cancel: "db_step svc t (snd (q_OperatorCancel now k t))"
| redrive: "db_step svc t (snd (q_RedriveDead now k t))"

definition db_empty :: db_table where
  "db_empty = \<lparr>db_seq = 0, db_rows = []\<rparr>"

lemma sql_update_wf:
  assumes wf: "table_wf t" and ids: "\<And>j. db_ID (assign j) = db_ID j"
    and ok: "\<And>j. j \<in> set (db_rows t) \<Longrightarrow> cond j \<Longrightarrow> int4 (db_Attempt (assign j)) \<Longrightarrow> job_ok (db_seq t) (assign j)"
  shows "table_wf (snd (sql_update cond assign t))"
proof (cases "\<exists>j \<in> set (db_rows t). cond j \<and> \<not> int4 (db_Attempt (assign j))")
  case True
  then show ?thesis using wf by (simp add: sql_update_def)
next
  case False
  have "map db_ID (map (\<lambda>j. if cond j then assign j else j) (db_rows t)) = map db_ID (db_rows t)"
    by (simp add: ids)
  then show ?thesis
    using wf ok False by (auto simp: sql_update_def Let_def table_wf_def simp del: map_map)
qed

lemma snd_execrows [simp]: "snd (execrows x) = snd x"
  by (simp add: execrows_def split: prod.split sum.split)

lemma snd_one_row [simp]: "snd (one_row x) = snd x"
  by (simp add: one_row_def split: prod.split sum.split list.split)

lemma job_ok_table: "table_wf t \<Longrightarrow> j \<in> set (db_rows t) \<Longrightarrow> job_ok (db_seq t) j"
  by (simp add: table_wf_def)

lemma skip_locked_cond:
  assumes "table_wf t" "j \<in> set (db_rows t)" "db_ID j \<in> set (skip_locked locked cond order n t)"
  shows "cond j"
proof -
  obtain p where "p \<in> set (db_rows t)" "cond p" "db_ID p = db_ID j"
    using assms(3) by (auto simp: skip_locked_def dest!: in_set_takeD)
  moreover have "inj_on db_ID (set (db_rows t))" using assms(1) by (simp add: table_wf_def distinct_map)
  ultimately show ?thesis using assms(2) by (metis inj_onD)
qed

lemma with_error_wf:
  assumes wf: "table_wf t" and svc: "jsonb_keeps_arrays svc"
    and ids: "\<And>j. db_ID (assign j) = db_ID j"
    and ok: "\<And>j js. j \<in> set (db_rows t) \<Longrightarrow> cond j \<Longrightarrow> job_ok (db_seq t) ((assign j)\<lparr>db_Errors := JArr js\<rparr>)"
  shows "table_wf (snd (with_error svc e cond assign t))"
proof -
  have "table_wf (snd (sql_update cond (\<lambda>j. (assign j)\<lparr>db_Errors := jsonb_cat svc (db_Errors j) x\<rparr>) t))" for x
  proof (rule sql_update_wf[OF wf])
    fix j assume j: "j \<in> set (db_rows t)" "cond j"
    obtain js0 where "db_Errors j = JArr js0" using job_ok_Errors[OF job_ok_table[OF wf j(1)]] by blast
    moreover obtain js where "jsonb_cat svc (JArr js0) x = JArr js"
      using svc unfolding jsonb_keeps_arrays_def by blast
    ultimately have "jsonb_cat svc (db_Errors j) x = JArr js" by simp
    then show "job_ok (db_seq t) ((assign j)\<lparr>db_Errors := jsonb_cat svc (db_Errors j) x\<rparr>)"
      using ok[OF j] by simp
  qed (simp add: ids)
  then show ?thesis using wf by (simp add: with_error_def split: option.split)
qed

lemma insert_staged_wf:
  assumes "table_wf t" "\<And>x. x \<in> set xs \<Longrightarrow> st_unique_key x \<noteq> Some []"
  shows "table_wf (snd (insert_staged now xs t))"
  using assms
proof (induction xs arbitrary: t)
  case (Cons x xs)
  let ?ins = "insert_row (\<lambda>k. new_job k now (st_kind x) (st_queue x) (st_args x) (st_scheduled_at x) (st_unique_key x)) t"
  have "1 \<le> db_seq t + 1" using Cons.prems(1) by (simp add: table_wf_def)
  then have "table_wf (snd ?ins)"
    using Cons.prems by (intro insert_row_wf)
      (auto simp: new_job_def job_ok_def row_wf_def rowFromDB_def Let_def int4_def MaxInt32_def)
  then show ?case
    using Cons.IH[of "snd ?ins"] Cons.prems(2) by (auto split: prod.splits sum.splits)
qed simp

lemma insert_staged_seq: "db_seq t \<le> db_seq (snd (insert_staged now xs t))"
proof (induction xs arbitrary: t)
  case (Cons x xs)
  let ?ins = "insert_row (\<lambda>k. new_job k now (st_kind x) (st_queue x) (st_args x) (st_scheduled_at x) (st_unique_key x)) t"
  have "db_seq t \<le> db_seq (snd ?ins)" by (simp add: insert_row_def Let_def)
  moreover have "db_seq (snd ?ins) \<le> db_seq (snd (insert_staged now xs (snd ?ins)))" by (rule Cons.IH)
  ultimately show ?case by (auto split: prod.splits sum.splits)
qed simp

lemmas job_ok_simps = job_ok_def row_wf_def rowFromDB_def held_def int4_def

lemma db_step_wf:
  assumes svc: "jsonb_keeps_arrays svc" and "db_step svc t t'" and wf: "table_wf t"
  shows "table_wf t'"
  using assms(2) wf
proof (induction rule: db_step.induct)
  case (insert arg t now)
  have "1 \<le> db_seq t + 1" using insert by (simp add: table_wf_def)
  then show ?case
    using insert
    by (auto simp: q_InsertJob_def split: option.split intro!: insert_row_wf)
      (auto simp: new_job_def job_ok_def row_wf_def rowFromDB_def Let_def int4_def MaxInt32_def)
next
  case (insert_many staging t now)
  let ?ins = "insert_staged now (sort_key st_ord staging) t"
  have "table_wf (snd ?ins)" using insert_many by (intro insert_staged_wf) auto
  moreover have "table_wf ((snd ?ins)\<lparr>db_rows := db_rows t\<rparr>)"
    using insert_many.prems insert_staged_seq[of t now "sort_key st_ord staging"] job_ok_mono
    by (auto simp: table_wf_def)
  ultimately show ?case by (auto simp: q_InsertJobsFromStaging_def split: prod.split sum.split)
next
  case (fetch t now locked d queue n)
  note ok = job_ok_table[OF fetch] skip_locked_cond[OF fetch]
  show ?case
    unfolding q_FetchAvailable_def Let_def
    by (rule sql_update_wf[OF fetch])
      (use ok in \<open>force simp: job_ok_def row_wf_def rowFromDB_def\<close>)+
next
  case (fetch_expired t now locked d n)
  note ok = job_ok_table[OF fetch_expired] skip_locked_cond[OF fetch_expired]
  show ?case
    unfolding q_FetchExpired_def Let_def
    by (rule sql_update_wf[OF fetch_expired])
      (use ok in \<open>force simp: job_ok_def row_wf_def rowFromDB_def\<close>)+
next
  case (extend t now d ids attempts)
  show ?case
    unfolding q_ExtendLeases_def snd_execrows
    by (rule sql_update_wf[OF extend])
      (use job_ok_table[OF extend] in \<open>auto simp: job_ok_simps\<close>)+
next
  case (completed t now k a)
  show ?case
    unfolding q_MarkCompleted_def snd_execrows
    by (rule sql_update_wf[OF completed])
      (use job_ok_table[OF completed] in \<open>auto simp: job_ok_simps\<close>)+
next
  case (retryable t at' e k a)
  show ?case
    unfolding q_MarkRetryable_def
    by (rule with_error_wf[OF retryable svc])
      (use job_ok_table[OF retryable] in \<open>auto simp: job_ok_simps\<close>)+
next
  case (dead t now e k a)
  show ?case
    unfolding q_MarkDead_def
    by (rule with_error_wf[OF dead svc])
      (use job_ok_table[OF dead] in \<open>auto simp: job_ok_simps\<close>)+
next
  case (cancelled t now e k a)
  show ?case
    unfolding q_MarkCancelled_def
    by (rule with_error_wf[OF cancelled svc])
      (use job_ok_table[OF cancelled] in \<open>auto simp: job_ok_simps\<close>)+
next
  case (snoozed t at' k a)
  show ?case
    unfolding q_MarkSnoozed_def snd_execrows
    by (rule sql_update_wf[OF snoozed])
      (use job_ok_table[OF snoozed] in \<open>auto simp: job_ok_simps\<close>)+
next
  case (op_cancel t now k)
  show ?case
    unfolding q_OperatorCancel_def snd_one_row
    by (rule sql_update_wf[OF op_cancel])
      (use job_ok_table[OF op_cancel] in \<open>auto simp: job_ok_simps\<close>)+
next
  case (redrive t now k)
  show ?case
    unfolding q_RedriveDead_def snd_one_row
    by (rule sql_update_wf[OF redrive])
      (use job_ok_table[OF redrive] in \<open>auto simp: job_ok_simps\<close>)+
qed

section \<open>Operator actions and reads\<close>

lemma filter_one:
  assumes "table_wf t"
  shows "filter (\<lambda>j. db_ID j = k \<and> P j) (db_rows t) =
    (case job_of t k of None \<Rightarrow> [] | Some j \<Rightarrow> if P j then [j] else [])"
proof -
  have "distinct (map db_ID rows) \<Longrightarrow> filter (\<lambda>j. db_ID j = k \<and> P j) rows =
    (case map_of (map (\<lambda>j. (db_ID j, j)) rows) k of None \<Rightarrow> [] | Some j \<Rightarrow> if P j then [j] else [])" for rows
  proof (induction rows)
    case (Cons j rows)
    then have "db_ID j = k \<Longrightarrow> map_of (map (\<lambda>j. (db_ID j, j)) rows) k = None"
      by (auto simp: map_of_eq_None_iff)
    with Cons show ?case by auto
  qed simp
  then show ?thesis using assms by (simp add: table_wf_def)
qed

text \<open>An update of one row by its id, when no row matches and when one does.\<close>

lemma update_one_none:
  assumes "table_wf t" "case job_of t k of None \<Rightarrow> True | Some j \<Rightarrow> \<not> P j"
  shows "sql_update (\<lambda>j. db_ID j = k \<and> P j) assign t = (Inr [], t)"
proof -
  have f: "filter (\<lambda>j. db_ID j = k \<and> P j) (db_rows t) = []"
    using assms by (auto simp: filter_one split: option.splits)
  then have "map (\<lambda>j. if db_ID j = k \<and> P j then assign j else j) (db_rows t) = db_rows t"
    by (auto simp: filter_empty_conv intro!: map_idI)
  then show ?thesis
    using f assms(1) by (auto simp: sql_update_def Let_def table_wf_def filter_empty_conv)
qed

lemma db_abs_upd_one:
  assumes wf: "table_wf t" and j: "job_of t k = Some j" "P j" and ids: "\<And>j. db_ID (assign j) = db_ID j"
  shows "mem_of (updated (\<lambda>j. db_ID j = k \<and> P j) assign t) =
    (mem_of t)\<lparr>jobs := AList.update k (rowFromDB (assign j)) (jobs (mem_of t))\<rparr>"
proof -
  have "distinct (map db_ID rows) \<Longrightarrow> map_of (map (\<lambda>j. (db_ID j, j)) rows) k = Some j \<Longrightarrow>
    map (\<lambda>j. (db_ID j, rowFromDB j)) (map (\<lambda>j. if db_ID j = k \<and> P j then assign j else j) rows) =
    AList.update k (rowFromDB (assign j)) (map (\<lambda>j. (db_ID j, rowFromDB j)) rows)" for rows
  proof (induction rows)
    case (Cons x rows)
    have no: "k \<notin> set (map db_ID rows) \<Longrightarrow> map (\<lambda>j. if db_ID j = k \<and> P j then assign j else j) rows = rows"
      by (auto intro!: map_idI)
    show ?case
    proof (cases "db_ID x = k")
      case True
      then have "x = j" "k \<notin> set (map db_ID rows)" using Cons.prems by auto
      then show ?thesis using True no j(2) ids by (simp del: map_map)
    next
      case False
      then show ?thesis using Cons by (simp del: map_map)
    qed
  qed simp
  then show ?thesis using wf j(1) by (simp add: mem_of_def updated_def table_wf_def)
qed

lemma pg_OperatorCancel_mem:
  assumes wf: "table_wf t" and rel: "reliable env"
    and out: "pg_OperatorCancel alone env k t = (res, t')"
  shows "mem_OperatorCancel no_gap (se_now env 0) k (mem_of t) = (res, mem_of t')"
proof (cases "job_of t k")
  case None
  then have "q_OperatorCancel (se_now env 0) k t = (Inl NoRows, t)"
    using update_one_none[OF wf] by (simp add: q_OperatorCancel_def one_row_def)
  then have "(res, t') = (Inl ErrNotFound, t)"
    using out rel None
    by (simp add: pg_OperatorCancel_def operator_try_def run_stmt_def reliable_def pg_afterOperatorMiss_def
        q_GetJob_def find_job)
  then show ?thesis using None by (simp add: mem_OperatorCancel_no_gap row_of_mem_of db_abs_def)
next
  case (Some j)
  have el: "db_State j \<in> {Available, Scheduled, Retryable, Dead} \<longleftrightarrow> cancellable (db_State j)"
    by (cases "db_State j") auto
  have row: "row_of (mem_of t) k = Some (rowFromDB j)" using Some by (simp add: row_of_mem_of db_abs_def)
  show ?thesis
  proof (cases "cancellable (db_State j)")
    case False
    then have "q_OperatorCancel (se_now env 0) k t = (Inl NoRows, t)"
      using update_one_none[OF wf, where k = k and P = "\<lambda>j. db_State j \<in> {Available, Scheduled, Retryable, Dead}"] Some el
      by (simp add: q_OperatorCancel_def one_row_def)
    moreover have "\<not> operatorEligible (db_State j) WantCancellable"
      using False by (cases "db_State j") auto
    ultimately have "(res, t') = (Inl ErrInvalidTransition, t)"
      using out rel Some
      by (simp add: pg_OperatorCancel_def operator_try_def run_stmt_def reliable_def pg_afterOperatorMiss_def
          q_GetJob_def find_job)
    then show ?thesis using False row by (simp add: mem_OperatorCancel_no_gap rowFromDB_def)
  next
    case True
    let ?cond = "\<lambda>j. db_ID j = k \<and> db_State j \<in> {Available, Scheduled, Retryable, Dead}"
    let ?assign = "\<lambda>j. j\<lparr>db_State := Cancelled, db_FinalizedAt := Some (se_now env 0), db_LeasedUntil := None\<rparr>"
    have tame: "tame ?cond ?assign t"
      using job_ok_table[OF wf] by (auto simp: tame_def indexed_def job_ok_def row_wf_def rowFromDB_def)
    have "q_OperatorCancel (se_now env 0) k t = (Inr (?assign j), updated ?cond ?assign t)"
      unfolding q_OperatorCancel_def sql_update_tame(1)[OF wf tame]
      using filter_one[OF wf, where k = k and P = "\<lambda>j. db_State j \<in> {Available, Scheduled, Retryable, Dead}"] Some True el
      by (simp add: one_row_def)
    then have "(res, t') = (Inr (rowFromDB (?assign j)), updated ?cond ?assign t)"
      using out rel by (simp add: pg_OperatorCancel_def operator_try_def run_stmt_def reliable_def)
    moreover have "mem_of (updated ?cond ?assign t) =
        (mem_of t)\<lparr>jobs := AList.update k (rowFromDB (?assign j)) (jobs (mem_of t))\<rparr>"
      using True el by (intro db_abs_upd_one[OF wf Some]) simp_all
    moreover have "rowFromDB (?assign j) = cancelRow (se_now env 0) (rowFromDB j)"
      by (simp add: rowFromDB_def cancelRow_def)
    ultimately show ?thesis using True row by (simp add: mem_OperatorCancel_no_gap, simp add: rowFromDB_def)
  qed
qed

text \<open>Another active row holds the unique slot of a row.\<close>

definition slot_taken :: "db_table \<Rightarrow> db_job \<Rightarrow> bool" where
  "slot_taken t j \<longleftrightarrow> db_UniqueKey j \<noteq> None \<and>
     (\<exists>x \<in> set (db_rows t). indexed x \<and> index_key x = index_key j)"

lemma unique_active_wake:
  assumes wf: "table_wf t" and j: "job_of t k = Some j" "\<not> indexed j"
    and upd: "index_key (assign j) = index_key j" "indexed (assign j) \<longleftrightarrow> db_UniqueKey j \<noteq> None"
    and P: "P j"
  shows "unique_active_ok (map (\<lambda>x. if db_ID x = k \<and> P x then assign x else x) (db_rows t)) \<longleftrightarrow> \<not> slot_taken t j"
proof -
  have "j \<in> set (db_rows t)" "db_ID j = k" using j(1) job_of_mem[OF wf] by auto
  then obtain xs ys where rows: "db_rows t = xs @ j # ys" by (meson split_list)
  have d: "distinct (map db_ID (xs @ j # ys))" using wf rows by (simp add: table_wf_def)
  have other: "db_ID x \<noteq> k" if "x \<in> set xs \<union> set ys" for x
    using d that \<open>db_ID j = k\<close> by (auto simp: image_iff)
  let ?f = "\<lambda>x. if db_ID x = k \<and> P x then assign x else x"
  have "map ?f xs = xs" "map ?f ys = ys"
    using other by (simp_all add: map_idI)
  then have map: "map ?f (db_rows t) = xs @ assign j # ys" using rows \<open>db_ID j = k\<close> P by simp
  have "unique_active_ok (db_rows t)" using wf by (simp add: table_wf_def)
  then have "distinct (map index_key (filter indexed xs @ filter indexed ys))"
    using rows j(2) by (simp add: unique_active_ok_def)
  then have "unique_active_ok (xs @ assign j # ys) \<longleftrightarrow>
      \<not> (indexed (assign j) \<and> index_key j \<in> set (map index_key (filter indexed xs @ filter indexed ys)))"
    using upd(1) by (auto simp: unique_active_ok_def)
  also have "\<dots> \<longleftrightarrow> \<not> slot_taken t j"
    using upd(2) j(2) by (auto simp: slot_taken_def rows intro: rev_image_eqI)
  finally show ?thesis using map by simp
qed

lemma pg_RedriveDead_mem:
  assumes wf: "table_wf t" and rel: "reliable env"
    and out: "pg_RedriveDead alone env k t = (res, t')"
  shows "if \<exists>j. job_of t k = Some j \<and> db_State j = Dead \<and> slot_taken t j
    then (\<exists>msg. res = Inl (ErrOther msg)) \<and> t' = t
    else mem_RedriveDead no_gap (se_now env 0) k (mem_of t) = (res, mem_of t')"
proof (cases "job_of t k")
  case None
  then have "q_RedriveDead (se_now env 0) k t = (Inl NoRows, t)"
    using update_one_none[OF wf] by (simp add: q_RedriveDead_def one_row_def)
  then have "(res, t') = (Inl ErrNotFound, t)"
    using out rel None
    by (simp add: pg_RedriveDead_def operator_try_def run_stmt_def reliable_def pg_afterOperatorMiss_def
        q_GetJob_def find_job)
  then show ?thesis using None by (simp add: mem_RedriveDead_no_gap row_of_mem_of db_abs_def)
next
  case (Some j)
  have row: "row_of (mem_of t) k = Some (rowFromDB j)" using Some by (simp add: row_of_mem_of db_abs_def)
  show ?thesis
  proof (cases "db_State j = Dead")
    case False
    then have "q_RedriveDead (se_now env 0) k t = (Inl NoRows, t)"
      using update_one_none[OF wf, where k = k and P = "\<lambda>j. db_State j = Dead"] Some
      by (simp add: q_RedriveDead_def one_row_def)
    then have "(res, t') = (Inl ErrInvalidTransition, t)"
      using out rel Some False
      by (simp add: pg_RedriveDead_def operator_try_def run_stmt_def reliable_def pg_afterOperatorMiss_def
          q_GetJob_def find_job)
    then show ?thesis using False Some row by (simp add: mem_RedriveDead_no_gap rowFromDB_def)
  next
    case True
    let ?cond = "\<lambda>j. db_ID j = k \<and> db_State j = Dead"
    let ?assign = "\<lambda>j. j\<lparr>db_State := Available, db_Attempt := 0, db_LeasedUntil := None,
              db_FinalizedAt := None, db_ScheduledAt := se_now env 0\<rparr>"
    have u: "unique_active_ok (map (\<lambda>x. if ?cond x then ?assign x else x) (db_rows t)) \<longleftrightarrow> \<not> slot_taken t j"
      using True by (intro unique_active_wake[OF wf Some]) (simp_all add: indexed_def index_key_def)
    have q: "q_RedriveDead (se_now env 0) k t =
       (if slot_taken t j then (Inl (PgError pgUniqueViolation uniqueActiveIndex), t)
        else (Inr (?assign j), updated ?cond ?assign t))"
      using u filter_one[OF wf, where k = k and P = "\<lambda>j. db_State j = Dead"] Some True
      by (simp add: q_RedriveDead_def one_row_def sql_update_def Let_def updated_def int4_def MaxInt32_def)
    show ?thesis
    proof (cases "slot_taken t j")
      case st: True
      then have "(res, t') = (Inl (ErrOther ''redrive job''), t)"
        using out rel q by (simp add: pg_RedriveDead_def operator_try_def run_stmt_def reliable_def wrap_err_def)
      then show ?thesis using st True Some by simp
    next
      case st: False
      then have "(res, t') = (Inr (rowFromDB (?assign j)), updated ?cond ?assign t)"
        using out rel q by (simp add: pg_RedriveDead_def operator_try_def run_stmt_def reliable_def)
      moreover have "mem_of (updated ?cond ?assign t) =
          (mem_of t)\<lparr>jobs := AList.update k (rowFromDB (?assign j)) (jobs (mem_of t))\<rparr>"
        using True by (intro db_abs_upd_one[OF wf Some]) simp_all
      moreover have "rowFromDB (?assign j) = redriveRow (se_now env 0) (rowFromDB j)"
        by (simp add: rowFromDB_def redriveRow_def)
      ultimately show ?thesis
        using True row st Some by (simp add: mem_RedriveDead_no_gap, simp add: rowFromDB_def)
    qed
  qed
qed

lemma state_of_name_state_name [simp]: "state_of_name (state_name st) = Some st"
  by (cases st) (simp_all add: state_of_name_def)

lemma state_of_name_iff: "state_of_name s = Some st \<longleftrightarrow> s = state_name st"
proof
  assume "state_of_name s = Some st"
  then show "s = state_name st" unfolding state_of_name_def find_Some_iff by metis
qed simp

lemma pg_ListJobs_mem:
  assumes "reliable env" "lp_Limit p \<le> MaxInt32" "lp_State p = [] \<or> state_of_name (lp_State p) \<noteq> None"
  shows "pg_ListJobs alone env p t = (mem_ListJobs p (mem_of t), t)"
proof -
  have eq: "(lp_State p = [] \<or> state_of_name (lp_State p) = Some (db_State j)) \<longleftrightarrow>
      \<not> (lp_State p \<noteq> [] \<and> state_name (State (rowFromDB j)) \<noteq> lp_State p)"
    "(lp_Queue p = [] \<or> db_Queue j = lp_Queue p) \<longleftrightarrow>
      \<not> (lp_Queue p \<noteq> [] \<and> Queue (rowFromDB j) \<noteq> lp_Queue p)" for j
    by (auto simp: state_of_name_iff rowFromDB_def)
  show ?thesis
    using assms
    by (auto simp: pg_ListJobs_def run_stmt_def reliable_def q_ListJobs_def mem_ListJobs_def Let_def eq
        mem_of_def filter_map comp_def sort_key_map take_map)
qed

lemma idCompare_eq:
  assumes "0 \<le> a" "a < 2 ^ 63" "0 \<le> b" "b < 2 ^ 63"
  shows "idCompare a b = a - b"
proof -
  have "idCompare a b = signed_take_bit 63 (a - b)"
    by (simp add: idCompare_def word_of_int_inverse[symmetric] signed_of_int flip: of_int_diff)
  then show ?thesis using assms by (simp add: signed_take_bit_int_eq_self)
qed

lemma sorted_key_eq:
  fixes f :: "'a \<Rightarrow> 'b :: linorder"
  assumes "sorted_wrt (\<lambda>x y. f x < f y) ys" "set ys = set xs" "distinct (map f xs)"
  shows "ys = sort_key f xs"
proof (rule sort_func_unique)
  have "sorted_wrt (<) (map f ys)" using assms(1) by (simp add: sorted_wrt_map)
  then have "distinct (map f ys)" "sorted (map f ys)" by (auto simp: strict_sorted_iff)
  then show "sorted (map f ys)" "mset ys = mset xs"
    using assms(2,3) by (auto simp: distinct_map set_eq_iff_mset_eq_distinct[symmetric])
  show "inj_on f (set xs)" using assms(3) by (simp add: distinct_map)
qed

lemma depth_list_mem:
  "d \<in> set (map (\<lambda>key. \<lparr>qd_Queue = fst key, qd_State = snd key, qd_Count = g key\<rparr>) (remdups ks)) \<longleftrightarrow>
     (qd_Queue d, qd_State d) \<in> set ks \<and> qd_Count d = g (qd_Queue d, qd_State d)"
  by (cases d) force

lemma age_list_mem:
  "a \<in> set (map (\<lambda>q. \<lparr>qa_Queue = q, qa_AgeSeconds = g q\<rparr>) (remdups qs)) \<longleftrightarrow>
     qa_Queue a \<in> set qs \<and> qa_AgeSeconds a = g (qa_Queue a)"
  by (cases a) force

lemma pg_Stats_mem:
  assumes rel: "reliable env"
  shows "pg_Stats alone env t = (Inr (mem_Stats (se_now env 1) (mem_of t)), t)"
proof -
  let ?s = "mem_Stats (se_now env 1) (mem_of t)"
  let ?keys = "map (\<lambda>j. (db_Queue j, state_name (db_State j)))
            (filter (\<lambda>j. db_State j \<in> {Available, Scheduled, Retryable, Running, Dead}) (db_rows t))"
  let ?rows = "map snd (jobs (mem_of t))"
  have cnt: "db_State j \<in> {Available, Scheduled, Retryable, Running, Dead} \<longleftrightarrow> counted (db_State j)" for j
    by (cases "db_State j") auto
  have depth: "int (length (filter (\<lambda>k. k = key) ?keys)) = depth_of ?rows key" for key
    unfolding depth_of_def cnt
    by (simp add: mem_of_def filter_map comp_def rowFromDB_def conj_commute)
  have pos: "key \<in> set ?keys \<longleftrightarrow> 0 < depth_of ?rows key" for key
    unfolding depth[symmetric] by (auto simp: filter_empty_conv)
  have "Depths ?s = sort_key (\<lambda>d. (qd_Queue d, qd_State d)) (q_QueueDepths t)"
  proof (rule sorted_key_eq)
    show "sorted_wrt (\<lambda>x y. (qd_Queue x, qd_State x) < (qd_Queue y, qd_State y)) (Depths ?s)"
      using mem_Stats_facts by blast
    show "distinct (map (\<lambda>d. (qd_Queue d, qd_State d)) (q_QueueDepths t))"
      by (simp add: q_QueueDepths_def Let_def comp_def)
    show "set (Depths ?s) = set (q_QueueDepths t)"
    proof (rule set_eqI)
      fix d
      have "d \<in> set (q_QueueDepths t) \<longleftrightarrow> (qd_Queue d, qd_State d) \<in> set ?keys \<and>
          qd_Count d = depth_of ?rows (qd_Queue d, qd_State d)"
        unfolding q_QueueDepths_def Let_def depth by (rule depth_list_mem)
      then show "d \<in> set (Depths ?s) \<longleftrightarrow> d \<in> set (q_QueueDepths t)"
        using mem_Stats_facts[of d "se_now env 1" "mem_of t"] unfolding pos by auto
    qed
  qed
  moreover have "Oldest ?s = sort_key qa_Queue (q_OldestClaimable (se_now env 1) t)"
  proof (rule sorted_key_eq)
    let ?now = "se_now env 1"
    let ?due = "filter (\<lambda>j. db_State j \<in> {Available, Retryable, Scheduled} \<and> db_ScheduledAt j \<le> ?now) (db_rows t)"
    show "sorted_wrt (\<lambda>x y. qa_Queue x < qa_Queue y) (Oldest ?s)" using mem_Stats_facts by blast
    show "distinct (map qa_Queue (q_OldestClaimable ?now t))"
      by (simp add: q_OldestClaimable_def Let_def comp_def)
    have times: "set (map db_ScheduledAt (filter (\<lambda>j. db_Queue j = q) ?due)) = due_times ?now ?rows q" for q
    proof -
      have "due_times ?now ?rows q = db_ScheduledAt ` {j \<in> set (db_rows t). due q ?now (rowFromDB j)}"
        by (force simp: due_times_def mem_of_def rowFromDB_def)
      then show ?thesis unfolding due_rowFromDB[symmetric] by auto
    qed
    have queue: "q \<in> set (map db_Queue ?due) \<longleftrightarrow> due_times ?now ?rows q \<noteq> {}" for q
      unfolding times[symmetric] by (auto simp: filter_empty_conv)
    show "set (Oldest ?s) = set (q_OldestClaimable ?now t)"
    proof (rule set_eqI)
      fix a
      have "a \<in> set (q_OldestClaimable ?now t) \<longleftrightarrow> qa_Queue a \<in> set (map db_Queue ?due) \<and>
          qa_AgeSeconds a = real_of_int (?now - Min (due_times ?now ?rows (qa_Queue a))) / 10 ^ 9"
        unfolding q_OldestClaimable_def Let_def times by (rule age_list_mem)
      then show "a \<in> set (Oldest ?s) \<longleftrightarrow> a \<in> set (q_OldestClaimable ?now t)"
        using mem_Stats_facts[of _ ?now "mem_of t" a] unfolding queue by auto
    qed
  qed
  ultimately show ?thesis
    using rel by (simp add: pg_Stats_def run_stmt_def reliable_def)
qed

section \<open>Concurrent claims\<close>

lemma sql_update_rows:
  assumes "sql_update cond assign t = (Inr js, t')"
  shows "js = map assign (filter cond (db_rows t))"
    "db_rows t' = map (\<lambda>j. if cond j then assign j else j) (db_rows t)" "db_seq t' = db_seq t"
  using assms by (auto simp: sql_update_def Let_def split: if_splits)

lemma fetch_ids:
  assumes wf: "table_wf t" and out: "q_FetchAvailable svc now locked d queue n t = (Inr js, t')" and "j \<in> set js"
  shows "db_ID j \<notin> set locked" "\<exists>i. job_of t (db_ID j) = Some i \<and> db_State i \<noteq> Running"
    "\<exists>i. job_of t' (db_ID j) = Some i \<and> db_State i = Running"
proof -
  let ?cond = "\<lambda>j. db_State j \<in> {Available, Retryable, Scheduled} \<and> db_Queue j = queue \<and> db_ScheduledAt j \<le> now"
  let ?assign = "\<lambda>j. j\<lparr>db_State := Running, db_Attempt := db_Attempt j + 1,
                  db_LeasedUntil := Some (now + make_interval svc d)\<rparr>"
  let ?ids = "skip_locked locked ?cond db_ScheduledAt n t"
  note up = sql_update_rows[OF out[unfolded q_FetchAvailable_def Let_def]]
  obtain i where i: "i \<in> set (db_rows t)" "db_ID i \<in> set ?ids" "j = ?assign i" using assms(3) up(1) by auto
  then have ID: "db_ID j = db_ID i" by simp
  show "db_ID j \<notin> set locked" using i(2) ID by (auto simp: skip_locked_def dest!: in_set_takeD)
  have "?cond i" by (rule skip_locked_cond[OF wf i(1,2)])
  moreover have job: "job_of t (db_ID j) = Some i" using i(1) ID by (simp add: job_of_mem[OF wf])
  ultimately show "\<exists>i. job_of t (db_ID j) = Some i \<and> db_State i \<noteq> Running" by auto
  have "job_of t' (db_ID j) = map_option (\<lambda>j. if db_ID j \<in> set ?ids then ?assign j else j) (job_of t (db_ID j))"
    unfolding up(2) by (rule map_of_rows_map) simp
  then show "\<exists>i. job_of t' (db_ID j) = Some i \<and> db_State i = Running"
    using job i(2) by simp
qed

lemma fetches_disjoint:
  assumes wf: "table_wf t"
    and one: "q_FetchAvailable svc now locked d queue n t = (Inr js, t1)" "table_wf t1"
    and two: "q_FetchAvailable svc now' locked' d' queue' n' t2 = (Inr js', t3)"
    and order: "t2 = t \<and> db_ID ` set js \<subseteq> set locked' \<or> t2 = t1"
  shows "db_ID ` set js \<inter> db_ID ` set js' = {}"
proof (rule ccontr)
  assume "db_ID ` set js \<inter> db_ID ` set js' \<noteq> {}"
  then obtain a b where ab: "a \<in> set js" "b \<in> set js'" "db_ID a = db_ID b" by auto
  have "table_wf t2" using order wf one(2) by blast
  note snd = fetch_ids[OF this two ab(2)]
  have "t2 \<noteq> t1" using fetch_ids(3)[OF wf one(1) ab(1)] snd(2) ab(3) by auto
  then have "db_ID a \<in> set locked'" using order ab(1) by auto
  then show False using snd(1) ab(3) by simp
qed

section \<open>Properties\<close>

text \<open>A server that stores what it is given, for the concrete instances.\<close>

fun demo_cat :: "json \<Rightarrow> json \<Rightarrow> json" where
  "demo_cat (JArr a) (JArr b) = JArr (a @ b)"
| "demo_cat (JArr a) b = JArr (a @ [b])"
| "demo_cat a (JArr b) = JArr (a # b)"
| "demo_cat a b = JArr [a, b]"

definition demo_svc :: pg_service where
  "demo_svc = \<lparr>jsonb_in = (\<lambda>raw. case raw of Valid j \<Rightarrow> Some j | Invalid s \<Rightarrow> None), jsonb_cat = demo_cat,
     tstz = (\<lambda>t. t - t mod 1000), make_interval = (\<lambda>d. d)\<rparr>"

definition demo_env :: sql_env where
  "demo_env = \<lparr>se_now = (\<lambda>i. 9000 + int i), se_locked = [], se_fault = (\<lambda>i. NoFault)\<rparr>"

definition demo_inserted :: db_table where
  "demo_inserted = snd (q_InsertJob demo_svc 1000 (insertParams demo_params) db_empty)"

definition demo_running :: db_table where
  "demo_running = snd (q_FetchAvailable demo_svc 2000 [] 50 ''default'' 1 demo_inserted)"

lemma demo_svc_facts: "jsonb_appends demo_svc" "jsonb_keeps_arrays demo_svc"
proof -
  have "\<exists>js'. demo_cat (JArr js) e = JArr js'" for js e by (cases e) auto
  then show "jsonb_appends demo_svc" "jsonb_keeps_arrays demo_svc"
    by (simp_all add: jsonb_appends_def jsonb_keeps_arrays_def demo_svc_def)
qed

lemma demo_env_reliable: "reliable demo_env"
  by (simp add: reliable_def demo_env_def)

lemma db_empty_wf: "table_wf db_empty"
  by (simp add: table_wf_def db_empty_def unique_active_ok_def)

lemma demo_steps:
  "db_step demo_svc db_empty demo_inserted" "db_step demo_svc demo_inserted demo_running"
proof -
  show "db_step demo_svc db_empty demo_inserted"
    unfolding demo_inserted_def by (rule db_step.insert) (simp add: insertParams_def demo_params_def)
  show "db_step demo_svc demo_inserted demo_running"
    unfolding demo_running_def by (rule db_step.fetch)
qed

lemma demo_tables_wf: "table_wf demo_inserted" "table_wf demo_running"
  using db_step_wf[OF demo_svc_facts(2)] demo_steps db_empty_wf by blast+

text \<open>C20: whatever statements any number of sessions issue, in any interleaving and with any
  arguments, every table reached from the empty one is well formed: ids are unique and within
  the sequence, a row has a lease exactly while running and a finalization time exactly in a
  terminal state, its attempt fits the column, its errors are an array, and no two active
  rows share a queue, kind and unique key, redrives included.\<close>

theorem pg_tables_well_formed:
  assumes "jsonb_keeps_arrays svc" "(db_step svc)\<^sup>*\<^sup>* db_empty t"
  shows "table_wf t"
  using assms(2) by (induction rule: rtranclp_induct) (use db_empty_wf db_step_wf[OF assms(1)] in blast)+

theorem pg_tables_well_formed_witness: "table_wf demo_running"
  using pg_tables_well_formed[OF demo_svc_facts(2)] demo_steps
  by (meson r_into_rtranclp rtranclp.rtrancl_into_rtrancl)

text \<open>C10: against a server that answers, every Mark method of the PostgreSQL driver does to the
  rows exactly what the contract's guarded update says, refusals included and told apart the
  same way, for any attempt number that fits the column; the stored times and error objects
  are the server's reading of the arguments.\<close>

theorem pg_marks_implement_contract:
  assumes "table_wf t" "lease_Attempt l \<le> MaxInt32" "reliable env"
    and "jsonb_appends svc" "jsonb_in svc raw = Some (JObj obj)"
  shows
   "map_prod id db_abs (pg_MarkCompleted alone env l t) =
      guarded l (completed_row (se_now env 0)) (db_abs t) \<and>
    map_prod id db_abs (pg_MarkDead svc alone env l (Some raw) t) =
      guarded l (dead_row (se_now env 0) (JObj obj)) (db_abs t) \<and>
    map_prod id db_abs (pg_MarkCancelled svc alone env l (Some raw) t) =
      guarded l (cancelled_row (se_now env 0) (JObj obj)) (db_abs t) \<and>
    map_prod id db_abs (pg_MarkRetryable svc alone env l u (Some raw) t) =
      guarded l (retryable_row (tstz svc u) (JObj obj)) (db_abs t) \<and>
    map_prod id db_abs (pg_MarkSnoozed svc alone env l u t) =
      guarded l (snoozed_row (tstz svc u)) (db_abs t)"
  using pg_MarkCompleted_guarded[OF assms(1,2) prod.collapse[symmetric]]
    pg_MarkDead_guarded[OF assms(1,2,4,5) prod.collapse[symmetric]]
    pg_MarkCancelled_guarded[OF assms(1,2,4,5) prod.collapse[symmetric]]
    pg_MarkRetryable_guarded[OF assms(1,2,4,5) prod.collapse[symmetric]]
    pg_MarkSnoozed_guarded[OF assms(1,2) prod.collapse[symmetric]] assms(3)
  by (simp add: map_prod_def case_prod_beta)

theorem pg_marks_implement_contract_witness:
  "map_prod id db_abs (pg_MarkDead demo_svc alone demo_env demo_lease (Some (Valid (JObj []))) demo_running) =
     guarded demo_lease (dead_row 9000 (JObj [])) (db_abs demo_running)"
  using pg_marks_implement_contract[OF demo_tables_wf(2) _ demo_env_reliable demo_svc_facts(1),
      of demo_lease "Valid (JObj [])" "[]" 0]
  by (simp add: demo_lease_def MaxInt32_def demo_env_def demo_svc_def)

text \<open>C11: a fetch by the PostgreSQL driver claims the due rows of the queue that come first by
  due time and id among those no other transaction has locked, up to the limit; it stores
  each running with its attempt counted and a fresh lease, changes no other row, and returns
  them by id.\<close>

theorem pg_FetchAvailable_spec:
  assumes "table_wf t" "0 \<le> limit" "limit \<le> MaxInt32" "reliable env"
    and "\<forall>j \<in> set (db_rows t). db_Attempt j < MaxInt32"
  shows "\<exists>picked.
    picks (\<lambda>r. due queue (se_now env 0) r \<and> ID r \<notin> set (se_locked env)) ScheduledAt limit (db_abs t) picked \<and>
    map_prod id db_abs (pg_FetchAvailable svc alone env queue leaseFor limit t) =
      (Inr (sort_key ID (map (claimRow (se_now env 0) (make_interval svc leaseFor)) picked)),
       change_rows (claimRow (se_now env 0) (make_interval svc leaseFor)) picked (db_abs t)) \<and>
    table_wf (snd (pg_FetchAvailable svc alone env queue leaseFor limit t))"
  using pg_FetchAvailable_rows[OF assms(1-3) prod.collapse[symmetric], where svc = svc and env = env and
      queue = queue and leaseFor = leaseFor] assms(4,5)
  by (auto simp: map_prod_def case_prod_beta Let_def)

theorem pg_FetchAvailable_spec_witness:
  "\<exists>picked.
    picks (\<lambda>r. due ''default'' 9000 r \<and> ID r \<notin> set []) ScheduledAt 1 (db_abs demo_inserted) picked \<and>
    map_prod id db_abs (pg_FetchAvailable demo_svc alone demo_env ''default'' 50 1 demo_inserted) =
      (Inr (sort_key ID (map (claimRow 9000 50) picked)),
       change_rows (claimRow 9000 50) picked (db_abs demo_inserted)) \<and>
    table_wf (snd (pg_FetchAvailable demo_svc alone demo_env ''default'' 50 1 demo_inserted))"
proof -
  have "list_all (\<lambda>j. db_Attempt j < MaxInt32) (db_rows demo_inserted)" by code_simp
  then have "\<forall>j \<in> set (db_rows demo_inserted). db_Attempt j < MaxInt32" by (simp add: list_all_iff)
  then show ?thesis
    using pg_FetchAvailable_spec[OF demo_tables_wf(1) _ _ demo_env_reliable, where limit = 1 and
      queue = "''default''" and svc = demo_svc and leaseFor = 50]
    by (simp add: MaxInt32_def demo_env_def demo_svc_def)
qed

text \<open>C5: two fetches never claim the same job: not when the second runs while the first is
  uncommitted and holds the locks of what it claimed, and not when it runs on the table the
  first has left, whatever else the two ask for.\<close>

theorem concurrent_fetches_disjoint:
  assumes "table_wf t"
    and "q_FetchAvailable svc now locked d queue n t = (Inr js, t1)" "table_wf t1"
    and "q_FetchAvailable svc now' locked' d' queue' n' t2 = (Inr js', t3)"
    and "t2 = t \<and> db_ID ` set js \<subseteq> set locked' \<or> t2 = t1"
  shows "db_ID ` set js \<inter> db_ID ` set js' = {}"
  using assms by (rule fetches_disjoint)

theorem concurrent_fetches_disjoint_witness:
  "db_ID ` set (projr (fst (q_FetchAvailable demo_svc 2000 [] 50 ''default'' 1 demo_inserted))) \<inter>
   db_ID ` set (projr (fst (q_FetchAvailable demo_svc 2001 [1] 50 ''default'' 1 demo_inserted))) = {}"
proof -
  let ?a = "q_FetchAvailable demo_svc 2000 [] 50 ''default'' 1 demo_inserted"
  let ?b = "q_FetchAvailable demo_svc 2001 [1] 50 ''default'' 1 demo_inserted"
  have a: "?a = (Inr (projr (fst ?a)), demo_running)" by code_simp
  have b: "?b = (Inr (projr (fst ?b)), snd ?b)" by code_simp
  have "map db_ID (projr (fst ?a)) = [1]" by code_simp
  then have "demo_inserted = demo_inserted \<and> db_ID ` set (projr (fst ?a)) \<subseteq> set [1] \<or> demo_inserted = demo_running"
    by (metis list.set_map order_refl)
  then show ?thesis by (rule concurrent_fetches_disjoint[OF demo_tables_wf(1) a demo_tables_wf(2) b])
qed



text \<open>C22: the operator actions of the two drivers agree on every branch (unknown id, wrong
  state, success and the row returned), except that the PostgreSQL redrive of a dead job
  whose unique slot another active job holds fails and leaves the table alone.\<close>

theorem drivers_operate_alike:
  assumes "table_wf t" "reliable env"
  shows "mem_OperatorCancel no_gap (se_now env 0) k (mem_of t) =
      map_prod id mem_of (pg_OperatorCancel alone env k t) \<and>
    (if \<exists>j. job_of t k = Some j \<and> db_State j = Dead \<and> slot_taken t j
     then (\<exists>msg. pg_RedriveDead alone env k t = (Inl (ErrOther msg), t))
     else mem_RedriveDead no_gap (se_now env 0) k (mem_of t) =
       map_prod id mem_of (pg_RedriveDead alone env k t))"
  using pg_OperatorCancel_mem[OF assms prod.collapse[symmetric], of k]
    pg_RedriveDead_mem[OF assms prod.collapse[symmetric], of k]
  by (auto simp: map_prod_def case_prod_beta prod_eq_iff split: if_splits)

theorem drivers_operate_alike_witness:
  "mem_OperatorCancel no_gap 9000 1 (mem_of demo_inserted) =
     map_prod id mem_of (pg_OperatorCancel alone demo_env 1 demo_inserted)"
  using drivers_operate_alike[OF demo_tables_wf(1) demo_env_reliable, of 1] by (simp add: demo_env_def)



end
