(* ===== verification/Outcome.thy ===== *)
theory Outcome
  imports Driver
begin

text \<open>
  What a worker's error asks for (\<^verbatim>\<open>errors.go\<close>) and when a failed job runs again
  (\<^verbatim>\<open>retry.go\<close>).
\<close>

section \<open>Errors\<close>

text \<open>
  A Go error as package errors sees it: a sentinel, a snooze with its duration, a recovered
  panic with its stack, an error that wraps nothing, or a text around the errors it wraps
  with \<^verbatim>\<open>%w\<close>, in order.
\<close>

datatype sentinel =
    ErrInvalidKind | DuplicateJob | NotFound | InvalidTransition
  | ErrAlreadyStarted | ErrNotStarted | ErrDrainIncomplete | ErrCancelled | ErrSnoozed

datatype go_error =
    Sentinel sentinel
  | SnoozeError duration
  | PanicError string string
  | Text string
  | Wrapf string "go_error list"

text \<open>\<^verbatim>\<open>errors.Is\<close>: the error or anything it unwraps to is the sentinel. A snooze
  unwraps to \<open>ErrSnoozed\<close>.\<close>

fun errors_Is :: "go_error \<Rightarrow> sentinel \<Rightarrow> bool" where
  "errors_Is (Sentinel s) target = (s = target)"
| "errors_Is (SnoozeError d) target = (target = ErrSnoozed)"
| "errors_Is (PanicError v st) target = False"
| "errors_Is (Text s) target = False"
| "errors_Is (Wrapf s es) target = (\<exists>e \<in> set es. errors_Is e target)"

text \<open>\<^verbatim>\<open>errors.As\<close>: the first match of a depth-first walk.\<close>

fun errors_As :: "(go_error \<Rightarrow> 'a option) \<Rightarrow> go_error \<Rightarrow> 'a option"
  and errors_As_list :: "(go_error \<Rightarrow> 'a option) \<Rightarrow> go_error list \<Rightarrow> 'a option" where
  "errors_As f (Wrapf s es) =
     (case f (Wrapf s es) of Some x \<Rightarrow> Some x | None \<Rightarrow> errors_As_list f es)"
| "errors_As f (Sentinel s) = f (Sentinel s)"
| "errors_As f (SnoozeError d) =
     (case f (SnoozeError d) of Some x \<Rightarrow> Some x | None \<Rightarrow> f (Sentinel ErrSnoozed))"
| "errors_As f (PanicError v st) = f (PanicError v st)"
| "errors_As f (Text s) = f (Text s)"
| "errors_As_list f [] = None"
| "errors_As_list f (e # es) =
     (case errors_As f e of Some x \<Rightarrow> Some x | None \<Rightarrow> errors_As_list f es)"

definition Cancel :: "go_error option \<Rightarrow> go_error" where
  "Cancel reason =
     (case reason of
        None \<Rightarrow> Sentinel ErrCancelled
      | Some e \<Rightarrow> Wrapf ''drover: job cancelled by handler: '' [Sentinel ErrCancelled, e])"

definition Snooze :: "duration \<Rightarrow> go_error" where
  "Snooze d = SnoozeError (if d < 0 then 0 else d)"

fun as_snooze :: "go_error \<Rightarrow> duration option" where
  "as_snooze (SnoozeError d) = Some d"
| "as_snooze _ = None"

fun as_panic :: "go_error \<Rightarrow> string option" where
  "as_panic (PanicError v st) = Some st"
| "as_panic _ = None"

text \<open>\<^verbatim>\<open>stackOf\<close>: the trace of a recovered panic, or nothing.\<close>

definition stackOf :: "go_error \<Rightarrow> string" where
  "stackOf e = (case errors_As as_panic e of Some st \<Rightarrow> st | None \<Rightarrow> [])"

datatype job_outcome = outcomeFailed | outcomeCancelled | outcomeSnoozed

definition classifyOutcome :: "go_error \<Rightarrow> job_outcome \<times> duration" where
  "classifyOutcome err =
     (if errors_Is err ErrCancelled then (outcomeCancelled, 0)
      else case errors_As as_snooze err of
        Some d \<Rightarrow> (outcomeSnoozed, d)
      | None \<Rightarrow> if errors_Is err ErrSnoozed then (outcomeSnoozed, 0) else (outcomeFailed, 0))"

section \<open>Retries\<close>

text \<open>
  The arithmetic of \<^verbatim>\<open>exponentialDelay\<close> over the reals; \<open>u\<close> is the draw of
  \<^verbatim>\<open>rand.Float64()\<close>, at least 0 and below 1. The conversion to a duration truncates.
\<close>

definition exponentialDelay :: "int \<Rightarrow> real \<Rightarrow> duration" where
  "exponentialDelay attempt u =
     (let n = real_of_int attempt; seconds = n * n * n * n * (9 / 10 + 2 / 10 * u)
      in \<lfloor>seconds * 10 ^ 9\<rfloor>)"

definition ExponentialRetryPolicy :: "time \<Rightarrow> real \<Rightarrow> job_row \<Rightarrow> time" where
  "ExponentialRetryPolicy now u job = now + exponentialDelay (Attempt job) u"

text \<open>A policy answers or panics.\<close>

type_synonym retry_policy = "job_row \<Rightarrow> string + time"

definition safeNextRetry :: "retry_policy \<Rightarrow> job_row \<Rightarrow> time \<times> string option" where
  "safeNextRetry p job = (case p job of Inl recovered \<Rightarrow> (0, Some recovered) | Inr t \<Rightarrow> (t, None))"

text \<open>\<open>now'\<close> is the clock when the fallback policy reads it, after \<open>now\<close>.\<close>

definition retryAt :: "retry_policy \<Rightarrow> job_row \<Rightarrow> time \<Rightarrow> time \<Rightarrow> real \<Rightarrow> time" where
  "retryAt p job now now' u =
     (let (t, recovered) = safeNextRetry p job;
          t = (if recovered \<noteq> None then ExponentialRetryPolicy now' u job else t)
      in if Before t now then now else t)"

section \<open>Classification looks through wrapping\<close>

inductive wraps :: "go_error \<Rightarrow> go_error \<Rightarrow> bool" where
  self: "wraps e e"
| snooze: "wraps (SnoozeError d) (Sentinel ErrSnoozed)"
| nested: "e \<in> set es \<Longrightarrow> wraps e target \<Longrightarrow> wraps (Wrapf s es) target"

inductive_simps wraps_simps:
  "wraps (Sentinel s) target" "wraps (SnoozeError d) target" "wraps (PanicError v st) target"
  "wraps (Text s) target" "wraps (Wrapf s es) target"

lemma errors_Is_iff: "errors_Is e s \<longleftrightarrow> wraps e (Sentinel s)"
  by (induction e) (auto simp: wraps_simps)

lemma errors_As_None:
  "errors_As f e = None \<longleftrightarrow> (\<forall>x. wraps e x \<longrightarrow> f x = None)"
  "errors_As_list f es = None \<longleftrightarrow> (\<forall>e \<in> set es. \<forall>x. wraps e x \<longrightarrow> f x = None)"
  by (induction f e and f es rule: errors_As_errors_As_list.induct)
    (auto simp: wraps_simps split: option.split)

lemma errors_As_Some:
  "errors_As f e = Some y \<Longrightarrow> \<exists>x. wraps e x \<and> f x = Some y"
  "errors_As_list f es = Some y \<Longrightarrow> \<exists>e \<in> set es. \<exists>x. wraps e x \<and> f x = Some y"
  by (induction f e and f es rule: errors_As_errors_As_list.induct)
    (auto simp: wraps_simps split: option.splits)

lemma as_snooze_Some: "as_snooze x = Some d \<longleftrightarrow> x = SnoozeError d"
  by (cases x) auto

lemma as_snooze_None: "as_snooze x = None \<longleftrightarrow> (\<forall>d. x \<noteq> SnoozeError d)"
  by (cases x) auto

text \<open>What a worker's error asks for is decided through any amount of wrapping. It is a
  cancellation exactly when it wraps the cancellation sentinel, whatever else it wraps;
  otherwise a snooze exactly when it wraps a snooze, with a duration that one of the snoozes
  inside it carries, or the bare sentinel, with no wait; otherwise a failure.\<close>

theorem classifyOutcome_spec:
  "(classifyOutcome err = (outcomeCancelled, 0) \<longleftrightarrow> wraps err (Sentinel ErrCancelled)) \<and>
   (fst (classifyOutcome err) = outcomeSnoozed \<longleftrightarrow>
      \<not> wraps err (Sentinel ErrCancelled) \<and> wraps err (Sentinel ErrSnoozed)) \<and>
   (classifyOutcome err = (outcomeFailed, 0) \<longleftrightarrow>
      \<not> wraps err (Sentinel ErrCancelled) \<and> \<not> wraps err (Sentinel ErrSnoozed)) \<and>
   (snd (classifyOutcome err) = 0 \<or> wraps err (SnoozeError (snd (classifyOutcome err))))"
proof -
  have sn: "wraps err (Sentinel ErrSnoozed)" if "wraps err (SnoozeError d)" for d
    using that by (induction err "SnoozeError d" rule: wraps.induct) (auto intro: wraps.intros)
  show ?thesis
  proof (cases "errors_As as_snooze err")
    case None
    then show ?thesis by (auto simp: classifyOutcome_def errors_Is_iff)
  next
    case (Some d)
    then have "wraps err (SnoozeError d)"
      using errors_As_Some(1)[OF Some] by (auto simp: as_snooze_Some)
    then show ?thesis using Some sn by (auto simp: classifyOutcome_def errors_Is_iff)
  qed
qed

section \<open>The wait is bounded\<close>

lemma exponentialDelay_bounds:
  assumes "0 \<le> attempt" "0 \<le> u" "u < 1"
  shows "9 * 10 ^ 8 * attempt ^ 4 \<le> exponentialDelay attempt u"
    and "exponentialDelay attempt u \<le> 11 * 10 ^ 8 * attempt ^ 4"
proof -
  let ?n = "real_of_int attempt"
  have n: "0 \<le> ?n ^ 4" using assms(1) by simp
  have eq: "?n * ?n * ?n * ?n * (9 / 10 + 2 / 10 * u) * 10 ^ 9 = ?n ^ 4 * (9 * 10 ^ 8 + 2 * 10 ^ 8 * u)"
    by (simp add: algebra_simps power4_eq_xxxx)
  have lo: "real_of_int (9 * 10 ^ 8 * attempt ^ 4) \<le> ?n ^ 4 * (9 * 10 ^ 8 + 2 * 10 ^ 8 * u)"
    using n assms(2) by (simp add: algebra_simps)
  have "?n ^ 4 * (2 * 10 ^ 8 * u) \<le> ?n ^ 4 * (2 * 10 ^ 8)"
    using n assms(3) by (intro mult_left_mono) auto
  then have hi: "?n ^ 4 * (9 * 10 ^ 8 + 2 * 10 ^ 8 * u) \<le> real_of_int (11 * 10 ^ 8 * attempt ^ 4)"
    by (simp add: algebra_simps)
  show "9 * 10 ^ 8 * attempt ^ 4 \<le> exponentialDelay attempt u"
    using lo unfolding exponentialDelay_def Let_def eq by (simp add: le_floor_iff)
  show "exponentialDelay attempt u \<le> 11 * 10 ^ 8 * attempt ^ 4"
    using hi unfolding exponentialDelay_def Let_def eq by (simp add: floor_le_iff)
qed


definition demo_failed :: job_row where
  "demo_failed = \<lparr>ID = 1, Kind = ''k'', Queue = ''default'', Args = Valid JNull, State = Running,
     Attempt = 3, MaxAttempts = 25, Errors = Valid (JArr []), ScheduledAt = 0,
     LeasedUntil = Some 50, CreatedAt = 0, FinalizedAt = None, UniqueKey = []\<rparr>"


end
