(* ===== verification/Queues.thy ===== *)
theory Queues
  imports Prelude
begin

text \<open>
  The weighted queues of \<^verbatim>\<open>queues.go\<close>: checking the configured map, and the random
  order in which one fetch round tries the queues.
\<close>

section \<open>Checking the configuration\<close>

definition maxQueueWeight :: int where
  "maxQueueWeight = 100000"

definition defaultQueue :: string where
  "defaultQueue = ''default''"

record weighted_queue =
  wq_name :: string
  wq_weight :: int

definition checkedWeight :: "int \<Rightarrow> int" where
  "checkedWeight weight =
     (if weight < 1 then 1 else if weight > maxQueueWeight then maxQueueWeight else weight)"

text \<open>The loop over the map, which panics at an empty name; the result of a panic is None.\<close>

fun checkQueues :: "(string \<times> int) list \<Rightarrow> weighted_queue list option" where
  "checkQueues [] = Some []"
| "checkQueues ((name, weight) # queues) =
     (if name = [] then None
      else case checkQueues queues of
        None \<Rightarrow> None
      | Some out \<Rightarrow> Some (\<lparr>wq_name = name, wq_weight = checkedWeight weight\<rparr> # out))"

definition checkedQueues :: "(string \<times> int) list \<Rightarrow> weighted_queue list option" where
  "checkedQueues queues =
     (if queues = [] then Some [\<lparr>wq_name = defaultQueue, wq_weight = 1\<rparr>]
      else map_option (sort_key wq_name) (checkQueues queues))"

section \<open>The order of one round\<close>

fun sumWeights :: "int \<Rightarrow> weighted_queue list \<Rightarrow> int" where
  "sumWeights tot [] = tot"
| "sumWeights tot (q # qs) = sumWeights (wrap64 (tot + wq_weight q)) qs"

text \<open>The inner loop: the first position whose running total exceeds the draw, starting from
  position \<open>i\<close>; the default if there is none.\<close>

fun pickIndex :: "int \<Rightarrow> int \<Rightarrow> nat \<Rightarrow> nat \<Rightarrow> weighted_queue list \<Rightarrow> nat" where
  "pickIndex pick acc i idx [] = idx"
| "pickIndex pick acc i idx (q # qs) =
     (let acc = wrap64 (acc + wq_weight q)
      in if pick < acc then i else pickIndex pick acc (Suc i) idx qs)"

text \<open>\<^verbatim>\<open>remaining[idx] = remaining[len-1]\<close> and \<^verbatim>\<open>remaining[:len-1]\<close>.\<close>

definition swapRemove :: "nat \<Rightarrow> 'a list \<Rightarrow> 'a list" where
  "swapRemove idx xs = butlast (xs[idx := last xs])"

lemma length_swapRemove [simp]: "length (swapRemove idx xs) = length xs - 1"
  by (simp add: swapRemove_def)

text \<open>
  The outer loop. \<open>rand i n\<close> is the \<open>i\<close>th draw \<^verbatim>\<open>rand.Int64N(n)\<close>, which panics unless
  \<open>n\<close> is positive; a panic is None.
\<close>

function drawOrder ::
  "(nat \<Rightarrow> int \<Rightarrow> int) \<Rightarrow> nat \<Rightarrow> int \<Rightarrow> weighted_queue list \<Rightarrow> string list \<Rightarrow> string list option" where
  "drawOrder rand i tot remaining dst =
     (if remaining = [] then Some dst
      else if tot \<le> 0 then None
      else
        let pick = rand i tot;
            idx = pickIndex pick 0 0 (length remaining - 1) remaining;
            q = remaining ! idx
        in drawOrder rand (Suc i) (wrap64 (tot - wq_weight q)) (swapRemove idx remaining)
             (dst @ [wq_name q]))"
  by auto
termination
  by (relation "measure (\<lambda>(rand, i, tot, remaining, dst). length remaining)") auto

declare drawOrder.simps [simp del]

definition weightedOrder :: "(nat \<Rightarrow> int \<Rightarrow> int) \<Rightarrow> weighted_queue list \<Rightarrow> string list option" where
  "weightedOrder rand qs =
     (if length qs = 0 then Some []
      else if length qs = 1 then Some [wq_name (qs ! 0)]
      else drawOrder rand 0 (sumWeights 0 qs) qs [])"

section \<open>Correctness of the check\<close>

lemma checkQueues_None: "checkQueues queues = None \<longleftrightarrow> [] \<in> fst ` set queues"
  by (induction queues rule: checkQueues.induct) (auto split: option.split)

lemma checkQueues_Some:
  "checkQueues queues = Some out \<Longrightarrow>
     out = map (\<lambda>(name, weight). \<lparr>wq_name = name, wq_weight = checkedWeight weight\<rparr>) queues"
  by (induction queues arbitrary: out rule: checkQueues.induct) (auto split: if_splits option.splits)

lemma checkedWeight_range: "1 \<le> checkedWeight w" "checkedWeight w \<le> maxQueueWeight"
  "1 \<le> w \<Longrightarrow> w \<le> maxQueueWeight \<Longrightarrow> checkedWeight w = w"
  by (auto simp: checkedWeight_def maxQueueWeight_def)

text \<open>What the fetch loop is handed: at least one queue, sorted by name, no name twice or
  empty, every weight between one and the maximum.\<close>

definition queues_ok :: "weighted_queue list \<Rightarrow> bool" where
  "queues_ok qs \<longleftrightarrow> qs \<noteq> [] \<and> sorted_wrt (\<lambda>a b. wq_name a < wq_name b) qs \<and>
     (\<forall>q \<in> set qs. wq_name q \<noteq> [] \<and> 1 \<le> wq_weight q \<and> wq_weight q \<le> maxQueueWeight)"

lemma checkedQueues_facts:
  assumes "distinct (map fst queues)"
  shows "checkedQueues queues = None \<longleftrightarrow> [] \<in> fst ` set queues"
    and "checkedQueues queues = Some qs \<Longrightarrow> queues_ok qs"
    and "checkedQueues queues = Some qs \<Longrightarrow> queues \<noteq> [] \<Longrightarrow>
      set qs = (\<lambda>(name, weight). \<lparr>wq_name = name, wq_weight = checkedWeight weight\<rparr>) ` set queues"
proof -
  show "checkedQueues queues = None \<longleftrightarrow> [] \<in> fst ` set queues"
    by (auto simp: checkedQueues_def checkQueues_None)
  show set: "set qs = (\<lambda>(name, weight). \<lparr>wq_name = name, wq_weight = checkedWeight weight\<rparr>) ` set queues"
    if "checkedQueues queues = Some qs" "queues \<noteq> []"
    using that checkQueues_Some by (fastforce simp: checkedQueues_def)
  show "queues_ok qs" if qs: "checkedQueues queues = Some qs"
  proof (cases "queues = []")
    case True
    then show ?thesis using qs by (auto simp: checkedQueues_def queues_ok_def defaultQueue_def maxQueueWeight_def)
  next
    case False
    then obtain out where out: "checkQueues queues = Some out" "qs = sort_key wq_name out"
      using qs by (auto simp: checkedQueues_def)
    have "map wq_name out = map fst queues"
      using checkQueues_Some[OF out(1)] by (simp add: comp_def case_prod_beta)
    then have "sorted_wrt (\<lambda>a b. wq_name a < wq_name b) qs"
      unfolding out(2) using assms by (intro strict_sort_key) simp
    moreover have "[] \<notin> fst ` set queues" using out(1) checkQueues_None[of queues] by auto
    ultimately show ?thesis
      using set[OF qs False] False checkedWeight_range(1,2)
      by (auto simp: queues_ok_def image_iff)
  qed
qed

text \<open>A configured map of queues is refused exactly when it contains the empty name;
  otherwise the client works every configured queue once, sorted by name, with its weight
  corrected into the range from one to the maximum, and the empty map means the default
  queue.\<close>

theorem checkedQueues_spec:
  assumes "distinct (map fst queues)"
  shows "(checkedQueues queues = None \<longleftrightarrow> [] \<in> fst ` set queues) \<and>
    (\<forall>qs. checkedQueues queues = Some qs \<longrightarrow> queues_ok qs \<and>
       set qs = (if queues = [] then {\<lparr>wq_name = defaultQueue, wq_weight = 1\<rparr>}
         else (\<lambda>(name, weight). \<lparr>wq_name = name, wq_weight = checkedWeight weight\<rparr>) ` set queues))"
  using checkedQueues_facts[OF assms] by (auto simp: checkedQueues_def)

theorem checkedQueues_spec_witness:
  "\<exists>qs. checkedQueues [(''bulk'', 0), (''a'', 9)] = Some qs \<and> queues_ok qs"
proof -
  have "checkedQueues [(''bulk'', 0), (''a'', 9)] \<noteq> None"
    using checkedQueues_spec[of "[(''bulk'', 0), (''a'', 9)]"] by simp
  then show ?thesis using checkedQueues_spec[of "[(''bulk'', 0), (''a'', 9)]"] by auto
qed

section \<open>Correctness of the order\<close>

abbreviation weight_sum :: "weighted_queue list \<Rightarrow> int" where
  "weight_sum qs \<equiv> sum_list (map wq_weight qs)"

definition weights_ok :: "weighted_queue list \<Rightarrow> bool" where
  "weights_ok qs \<longleftrightarrow> (\<forall>q \<in> set qs. 1 \<le> wq_weight q) \<and> weight_sum qs < 2 ^ 63"

lemma weight_sum_nonneg: "\<forall>q \<in> set qs. 1 \<le> wq_weight q \<Longrightarrow> 0 \<le> weight_sum qs"
  by (induction qs) auto

lemma sumWeights_eq:
  "0 \<le> t \<Longrightarrow> \<forall>q \<in> set qs. 1 \<le> wq_weight q \<Longrightarrow> t + weight_sum qs < 2 ^ 63 \<Longrightarrow>
   sumWeights t qs = t + weight_sum qs"
proof (induction qs arbitrary: t)
  case (Cons q qs)
  have "0 \<le> weight_sum qs" using Cons.prems(2) by (intro weight_sum_nonneg) simp
  then have "wrap64 (t + wq_weight q) = t + wq_weight q"
    using Cons.prems by (intro wrap64_id) auto
  then show ?case using Cons by simp
qed simp

text \<open>The position the inner loop selects: the one whose share of the running total the draw
  falls into.\<close>

lemma pickIndex_eq:
  assumes "0 \<le> acc" "acc \<le> pick" "pick < acc + weight_sum qs" "acc + weight_sum qs < 2 ^ 63"
    and "\<forall>q \<in> set qs. 1 \<le> wq_weight q"
  shows "\<exists>k < length qs. pickIndex pick acc i idx qs = i + k \<and>
    acc + weight_sum (take k qs) \<le> pick \<and> pick < acc + weight_sum (take (Suc k) qs)"
  using assms
proof (induction qs arbitrary: acc i)
  case (Cons q qs)
  have "0 \<le> weight_sum qs" using Cons.prems(5) by (intro weight_sum_nonneg) simp
  then have w: "wrap64 (acc + wq_weight q) = acc + wq_weight q"
    using Cons.prems by (intro wrap64_id) auto
  show ?case
  proof (cases "pick < acc + wq_weight q")
    case True
    then show ?thesis using w Cons.prems(2) by (intro exI[of _ 0]) simp
  next
    case False
    then obtain k where "k < length qs" "pickIndex pick (acc + wq_weight q) (Suc i) idx qs = Suc i + k"
      "acc + wq_weight q + weight_sum (take k qs) \<le> pick"
      "pick < acc + wq_weight q + weight_sum (take (Suc k) qs)"
      using Cons.IH[of "acc + wq_weight q" "Suc i"] Cons.prems by auto
    then show ?thesis using w False by (intro exI[of _ "Suc k"]) (simp add: algebra_simps)
  qed
qed simp

lemma weight_sum_mono:
  assumes "\<forall>q \<in> set qs. 1 \<le> wq_weight q" "a \<le> b" "b \<le> length qs"
  shows "weight_sum (take a qs) \<le> weight_sum (take b qs)"
proof -
  have "take b qs = take a qs @ take (b - a) (drop a qs)"
    using assms(2) by (metis le_add_diff_inverse take_add)
  moreover have "0 \<le> weight_sum (take (b - a) (drop a qs))"
    using assms(1) by (intro weight_sum_nonneg) (auto dest!: in_set_takeD in_set_dropD)
  ultimately show ?thesis by simp
qed

lemma pickIndex_iff:
  assumes ok: "weights_ok qs" and "0 \<le> pick" "pick < weight_sum qs" and "k < length qs"
  shows "pickIndex pick 0 0 idx qs = k \<longleftrightarrow>
    weight_sum (take k qs) \<le> pick \<and> pick < weight_sum (take (Suc k) qs)"
proof -
  obtain m where m: "m < length qs" "pickIndex pick 0 0 idx qs = m"
    "weight_sum (take m qs) \<le> pick" "pick < weight_sum (take (Suc m) qs)"
    using pickIndex_eq[of 0 pick qs 0 idx] assms by (auto simp: weights_ok_def)
  have pos: "\<forall>q \<in> set qs. 1 \<le> wq_weight q" using ok by (simp add: weights_ok_def)
  have "m = k" if "weight_sum (take k qs) \<le> pick" "pick < weight_sum (take (Suc k) qs)"
  proof (rule ccontr)
    assume "m \<noteq> k"
    then consider "Suc m \<le> k" | "Suc k \<le> m" by linarith
    then show False
      using weight_sum_mono[OF pos, of "Suc m" k] weight_sum_mono[OF pos, of "Suc k" m] m that assms(4)
      by cases auto
  qed
  then show ?thesis using m by auto
qed

lemma mset_swapRemove: "idx < length xs \<Longrightarrow> mset xs = add_mset (xs ! idx) (mset (swapRemove idx xs))"
proof -
  assume idx: "idx < length xs"
  then have ne: "xs[idx := last xs] \<noteq> []" by auto
  have "mset (xs[idx := last xs]) = add_mset (last xs) (mset xs - {#xs ! idx#})"
    using idx by (simp add: mset_update)
  moreover have "mset (xs[idx := last xs]) = add_mset (last (xs[idx := last xs])) (mset (swapRemove idx xs))"
    unfolding swapRemove_def using ne
    by (metis append_butlast_last_id mset.simps(2) mset_append mset_single_iff_right union_mset_add_mset_right add.right_neutral mset.simps(1))
  moreover have "last (xs[idx := last xs]) = last xs"
    using idx by (subst last_list_update) auto
  ultimately show ?thesis using idx by (simp add: insert_DiffM)
qed

definition draws_ok :: "(nat \<Rightarrow> int \<Rightarrow> int) \<Rightarrow> bool" where
  "draws_ok rand \<longleftrightarrow> (\<forall>i n. 0 < n \<longrightarrow> 0 \<le> rand i n \<and> rand i n < n)"

lemma weight_sum_mset: "mset a = mset b \<Longrightarrow> weight_sum a = weight_sum b"
  by (metis mset_map sum_mset_sum_list)

text \<open>One turn of the outer loop: the queue the draw falls on moves to the result, and the running
  total stays the sum of what is left.\<close>

lemma drawOrder_step:
  assumes "draws_ok rand" "weights_ok qs" "qs \<noteq> []"
    and k: "k = pickIndex (rand i (weight_sum qs)) 0 0 (length qs - 1) qs"
  shows "k < length qs" "weights_ok (swapRemove k qs)"
    "drawOrder rand i (weight_sum qs) qs dst =
      drawOrder rand (Suc i) (weight_sum (swapRemove k qs)) (swapRemove k qs) (dst @ [wq_name (qs ! k)])"
proof -
  have pos: "\<forall>q \<in> set qs. 1 \<le> wq_weight q" using assms(2) by (simp add: weights_ok_def)
  then have tot: "0 < weight_sum qs"
    using assms(3) weight_sum_nonneg[of "tl qs"] by (cases qs) auto
  then show k_less: "k < length qs"
    using pickIndex_eq[of 0 "rand i (weight_sum qs)" qs 0] assms(1,2) k
    by (auto simp: weights_ok_def draws_ok_def)
  note ms = mset_swapRemove[OF this]
  have sum: "weight_sum qs = wq_weight (qs ! k) + weight_sum (swapRemove k qs)"
    using weight_sum_mset[of qs "qs ! k # swapRemove k qs"] ms by simp
  have posk: "1 \<le> wq_weight (qs ! k)" using pos k_less by simp
  have sub: "set (swapRemove k qs) \<subseteq> set qs"
    using ms by (metis set_mset_mset subset_insertI set_mset_add_mset_insert)
  show rest: "weights_ok (swapRemove k qs)"
    using assms(2) sub sum posk by (auto simp: weights_ok_def)
  then have "0 \<le> weight_sum (swapRemove k qs)"
    by (intro weight_sum_nonneg) (simp add: weights_ok_def)
  then have "wrap64 (weight_sum qs - wq_weight (qs ! k)) = weight_sum (swapRemove k qs)"
    using sum rest by (simp add: wrap64_id weights_ok_def)
  then show "drawOrder rand i (weight_sum qs) qs dst =
      drawOrder rand (Suc i) (weight_sum (swapRemove k qs)) (swapRemove k qs) (dst @ [wq_name (qs ! k)])"
    using assms(3) tot k by (subst drawOrder.simps) (simp add: Let_def)
qed

lemma drawOrder_perm:
  assumes "draws_ok rand" "weights_ok qs"
  shows "\<exists>order. drawOrder rand i (weight_sum qs) qs dst = Some (dst @ order) \<and>
    mset order = mset (map wq_name qs)"
  using assms
proof (induction "length qs" arbitrary: qs i dst)
  case 0
  then show ?case by (simp add: drawOrder.simps)
next
  case (Suc n)
  define k where "k = pickIndex (rand i (weight_sum qs)) 0 0 (length qs - 1) qs"
  have "qs \<noteq> []" using Suc.hyps(2) by auto
  note step = drawOrder_step[OF Suc.prems this k_def]
  have "n = length (swapRemove k qs)" using Suc.hyps(2) by simp
  then show ?case
    using Suc.hyps(1)[OF _ Suc.prems(1) step(2), of "Suc i" "dst @ [wq_name (qs ! k)]"]
      mset_swapRemove[OF step(1)] by (auto simp: step(3)[of dst])
qed

lemma weight_sum_le:
  "\<forall>q \<in> set qs. wq_weight q \<le> maxQueueWeight \<Longrightarrow> weight_sum qs \<le> int (length qs) * maxQueueWeight"
  by (induction qs) (auto simp: algebra_simps)

lemma queues_ok_weights:
  assumes "queues_ok qs" "length qs \<le> 2 ^ 46"
  shows "weights_ok qs"
proof -
  have "weight_sum qs \<le> int (length qs) * maxQueueWeight"
    using weight_sum_le[of qs] assms(1) by (simp add: queues_ok_def)
  also have "\<dots> \<le> 2 ^ 46 * 100000" using assms(2) by (simp add: maxQueueWeight_def)
  finally show ?thesis using assms(1) by (auto simp: weights_ok_def queues_ok_def)
qed

lemma weightedOrder_eq:
  "queues_ok qs \<Longrightarrow> length qs \<le> 2 ^ 46 \<Longrightarrow> length qs \<noteq> 1 \<Longrightarrow>
   weightedOrder rand qs = drawOrder rand 0 (weight_sum qs) qs []"
  using queues_ok_weights[of qs] sumWeights_eq[of 0 qs]
  by (auto simp: weightedOrder_def weights_ok_def queues_ok_def)

text \<open>C33: whatever the random source draws, as long as each draw is in the range it documents,
  one fetch round tries every configured queue exactly once: the order is defined (the draw never
  panics on a total that is not positive and no sum overflows), and it is a permutation of the
  queue names.\<close>

theorem weightedOrder_permutes:
  assumes "queues_ok qs" "length qs \<le> 2 ^ 46" "draws_ok rand"
  shows "\<exists>order. weightedOrder rand qs = Some order \<and> distinct order \<and>
    set order = wq_name ` set qs \<and> length order = length qs"
proof (cases "length qs = 1")
  case True
  then show ?thesis by (auto simp: weightedOrder_def length_Suc_conv)
next
  case False
  then obtain order where order: "weightedOrder rand qs = Some order" "mset order = mset (map wq_name qs)"
    using drawOrder_perm[OF assms(3) queues_ok_weights[OF assms(1,2)], of 0 "[]"]
      weightedOrder_eq[OF assms(1,2)] by auto
  have "sorted_wrt (<) (map wq_name qs)"
    using assms(1) by (simp add: queues_ok_def sorted_wrt_map)
  then have "distinct (map wq_name qs)" by (simp add: strict_sorted_iff)
  then have "distinct order" using order(2) by (metis mset_eq_imp_distinct_iff)
  then show ?thesis
    using order mset_eq_setD[OF order(2)] mset_eq_length[OF order(2)] by simp
qed

theorem weightedOrder_permutes_witness:
  "\<exists>order. weightedOrder (\<lambda>i n. (7 * int i + 3) mod n)
     [\<lparr>wq_name = ''bulk'', wq_weight = 1\<rparr>, \<lparr>wq_name = ''critical'', wq_weight = 10\<rparr>] = Some order \<and>
     distinct order \<and> set order = {''bulk'', ''critical''}"
proof -
  have "queues_ok [\<lparr>wq_name = ''bulk'', wq_weight = 1\<rparr>, \<lparr>wq_name = ''critical'', wq_weight = 10\<rparr>]"
    by code_simp
  moreover have "draws_ok (\<lambda>i n. (7 * int i + 3) mod n)" by (simp add: draws_ok_def)
  ultimately show ?thesis using weightedOrder_permutes by fastforce
qed

text \<open>The chance of being tried first: of the equally likely first draws, as many as the weight
  of a queue put it in front.\<close>

lemma first_pick:
  assumes "queues_ok qs" "length qs \<le> 2 ^ 46" "1 < length qs" "draws_ok rand" "k < length qs"
    and pick: "0 \<le> pick" "pick < weight_sum qs"
  shows "(\<exists>rest. weightedOrder (rand(0 := \<lambda>n. pick mod n)) qs = Some (wq_name (qs ! k) # rest)) \<longleftrightarrow>
    weight_sum (take k qs) \<le> pick \<and> pick < weight_sum (take (Suc k) qs)"
proof -
  define rnd where "rnd = rand(0 := \<lambda>n. pick mod n)"
  have draws: "draws_ok rnd" using assms(4) by (simp add: draws_ok_def rnd_def)
  note ok = queues_ok_weights[OF assms(1,2)]
  define j where "j = pickIndex (rnd 0 (weight_sum qs)) 0 0 (length qs - 1) qs"
  have "qs \<noteq> []" using assms(3) by auto
  note step = drawOrder_step[OF draws ok this j_def]
  obtain rest where order: "weightedOrder rnd qs = Some (wq_name (qs ! j) # rest)"
    using drawOrder_perm[OF draws step(2), of "Suc 0" "[wq_name (qs ! j)]"] step(3)[of "[]"]
      weightedOrder_eq[OF assms(1,2), of rnd] assms(3) by auto
  have "distinct (map wq_name qs)"
    using assms(1) by (simp add: queues_ok_def strict_sorted_iff flip: sorted_wrt_map)
  then have "wq_name (qs ! j) = wq_name (qs ! k) \<longleftrightarrow> j = k"
    using step(1) assms(5) by (metis length_map nth_eq_iff_index_eq nth_map)
  moreover have "j = k \<longleftrightarrow> weight_sum (take k qs) \<le> pick \<and> pick < weight_sum (take (Suc k) qs)"
    using pickIndex_iff[OF ok pick assms(5)] pick by (simp add: j_def rnd_def)
  ultimately show ?thesis using order by (simp flip: rnd_def)
qed

text \<open>C34: the weights are honoured: with two queues or more, exactly as many of the equally likely
  values of the first draw put a queue in front of the round as its weight, whatever the later
  draws are, so the chance of a queue to be tried first is its weight over the total.\<close>

theorem weightedOrder_share:
  assumes "queues_ok qs" "length qs \<le> 2 ^ 46" "1 < length qs" "draws_ok rand" "k < length qs"
  shows "int (card {pick. 0 \<le> pick \<and> pick < (\<Sum>q\<leftarrow>qs. wq_weight q) \<and>
    (\<exists>rest. weightedOrder (rand(0 := \<lambda>n. pick mod n)) qs = Some (wq_name (qs ! k) # rest))}) =
    wq_weight (qs ! k)"
proof -
  have pos: "\<forall>q \<in> set qs. 1 \<le> wq_weight q" using assms(1) by (simp add: queues_ok_def)
  have bounds: "0 \<le> weight_sum (take k qs)" "weight_sum (take (Suc k) qs) \<le> weight_sum qs"
    using weight_sum_mono[OF pos, of 0 k] weight_sum_mono[OF pos, of "Suc k" "length qs"] assms(5) by simp_all
  have "{pick. 0 \<le> pick \<and> pick < (\<Sum>q\<leftarrow>qs. wq_weight q) \<and>
      (\<exists>rest. weightedOrder (rand(0 := \<lambda>n. pick mod n)) qs = Some (wq_name (qs ! k) # rest))} =
    {weight_sum (take k qs) ..< weight_sum (take (Suc k) qs)}"
    using first_pick[OF assms] bounds by (intro set_eqI) (simp add: conj_ac cong: conj_cong, linarith)
  moreover have "1 \<le> wq_weight (qs ! k)" using assms(5) pos by simp
  ultimately show ?thesis using assms(5) by (simp add: take_Suc_conv_app_nth)
qed

theorem weightedOrder_share_witness:
  "int (card {pick. 0 \<le> pick \<and> pick < (11 :: int) \<and>
    (\<exists>rest. weightedOrder ((\<lambda>i n. 0)(0 := \<lambda>n. pick mod n))
     [\<lparr>wq_name = ''bulk'', wq_weight = 1\<rparr>, \<lparr>wq_name = ''critical'', wq_weight = 10\<rparr>] =
     Some (''critical'' # rest))}) = 10"
proof -
  have "queues_ok [\<lparr>wq_name = ''bulk'', wq_weight = 1\<rparr>, \<lparr>wq_name = ''critical'', wq_weight = 10\<rparr>]"
    by code_simp
  moreover have "draws_ok (\<lambda>i n. 0)" by (simp add: draws_ok_def)
  ultimately show ?thesis
    using weightedOrder_share[of "[\<lparr>wq_name = ''bulk'', wq_weight = 1\<rparr>,
      \<lparr>wq_name = ''critical'', wq_weight = 10\<rparr>]" "\<lambda>i n. 0" 1] by simp
qed

end
