(* ===== verification/GoText.thy ===== *)
theory GoText
  imports Prelude
begin

text \<open>
  What the program uses of the packages strings and strconv, on byte strings: decimal printing
  and reading of integers, splitting and joining. Strings are taken to be ASCII; no function
  here looks at a rune beyond that.
\<close>

section \<open>Decimal integers\<close>

definition digit :: "int \<Rightarrow> char" where
  "digit n = char_of (48 + n)"

definition digit_value :: "char \<Rightarrow> int option" where
  "digit_value c =
     (let v = of_char c :: int in if 48 \<le> v \<and> v \<le> 57 then Some (v - 48) else None)"

text \<open>The digits of a number that is not negative.\<close>

function digits :: "int \<Rightarrow> string" where
  "digits n = (if n < 10 then [digit n] else digits (n div 10) @ [digit (n mod 10)])"
  by auto
termination
  by (relation "measure nat") auto

declare digits.simps [simp del]

text \<open>\<^verbatim>\<open>strconv.Itoa\<close>, and \<^verbatim>\<open>%d\<close> of package fmt.\<close>

definition itoa :: "int \<Rightarrow> string" where
  "itoa i = (if i < 0 then CHR ''-'' # digits (- i) else digits i)"

fun digits_value :: "int \<Rightarrow> string \<Rightarrow> int option" where
  "digits_value n [] = Some n"
| "digits_value n (c # cs) =
     (case digit_value c of None \<Rightarrow> None | Some d \<Rightarrow> digits_value (10 * n + d) cs)"

definition MaxInt64 :: int where
  "MaxInt64 = 2 ^ 63 - 1"

text \<open>\<^verbatim>\<open>strconv.Atoi\<close>: an optional sign, at least one digit and nothing else, a value
  that fits 64 bits.\<close>

definition atoi :: "string \<Rightarrow> int option" where
  "atoi s =
     (let (neg, cs) = (case s of
          [] \<Rightarrow> (False, [])
        | c # cs \<Rightarrow> if c = CHR ''-'' then (True, cs) else if c = CHR ''+'' then (False, cs) else (False, s))
      in if cs = [] then None
         else case digits_value 0 cs of
           None \<Rightarrow> None
         | Some n \<Rightarrow>
             let v = (if neg then - n else n)
             in if - MaxInt64 - 1 \<le> v \<and> v \<le> MaxInt64 then Some v else None)"

lemma of_char_digit [simp]: "0 \<le> n \<Longrightarrow> n < 10 \<Longrightarrow> of_char (digit n) = 48 + n"
  by (simp add: digit_def of_char_of)

lemma digit_value_digit [simp]: "0 \<le> n \<Longrightarrow> n < 10 \<Longrightarrow> digit_value (digit n) = Some n"
  by (simp add: digit_value_def)

lemma digits_not_Nil [simp]: "digits n \<noteq> []"
  by (subst digits.simps) simp

lemma set_digits: "0 \<le> n \<Longrightarrow> set (digits n) \<subseteq> digit ` {0..<10}"
proof (induction n rule: digits.induct)
  case (1 n)
  then show ?case by (subst digits.simps) auto
qed

lemma digits_value_append:
  "digits_value k (xs @ ys) = (case digits_value k xs of None \<Rightarrow> None | Some m \<Rightarrow> digits_value m ys)"
  by (induction xs arbitrary: k) (auto split: option.split)

lemma digits_value_digits: "0 \<le> n \<Longrightarrow> digits_value 0 (digits n) = Some n"
proof (induction n rule: digits.induct)
  case (1 n)
  then show ?case by (subst digits.simps) (auto simp: digits_value_append)
qed

lemma digit_char [simp]:
  "0 \<le> n \<Longrightarrow> n < 10 \<Longrightarrow> of_char c < (48 :: int) \<or> 57 < (of_char c :: int) \<Longrightarrow> digit n \<noteq> c"
  using of_char_digit[of n] by fastforce

lemma digits_no_char:
  assumes "of_char c < (48 :: int) \<or> 57 < (of_char c :: int)" "0 \<le> n"
  shows "c \<notin> set (digits n)"
proof
  assume "c \<in> set (digits n)"
  then obtain k where "0 \<le> k" "k < 10" "c = digit k" using set_digits[OF assms(2)] by force
  then show False using assms by simp
qed

lemma hd_digits:
  assumes "0 \<le> n"
  shows "hd (digits n) \<noteq> CHR ''-''" "hd (digits n) \<noteq> CHR ''+''"
proof -
  have mem: "hd (digits n) \<in> set (digits n)" by simp
  have "CHR ''-'' \<notin> set (digits n)" "CHR ''+'' \<notin> set (digits n)" using assms by (simp_all add: digits_no_char)
  then show "hd (digits n) \<noteq> CHR ''-''" "hd (digits n) \<noteq> CHR ''+''" using mem by metis+
qed

lemma atoi_digits: "0 \<le> n \<Longrightarrow> n \<le> MaxInt64 \<Longrightarrow> atoi (digits n) = Some n"
  using hd_digits[of n] digits_value_digits[of n]
  by (cases "digits n") (auto simp: atoi_def MaxInt64_def)

lemma atoi_itoa:
  assumes "- MaxInt64 - 1 \<le> i" "i \<le> MaxInt64"
  shows "atoi (itoa i) = Some i"
proof (cases "i < 0")
  case True
  then show ?thesis using assms digits_value_digits[of "- i"] by (simp add: atoi_def itoa_def)
next
  case False
  then show ?thesis using assms atoi_digits[of i] by (simp add: itoa_def)
qed

section \<open>Splitting and joining\<close>

text \<open>\<^verbatim>\<open>strings.Cut\<close> at a one-character separator: before, after, found.\<close>

fun cut :: "char \<Rightarrow> string \<Rightarrow> string \<times> string \<times> bool" where
  "cut sep [] = ([], [], False)"
| "cut sep (c # cs) =
     (if c = sep then ([], cs, True)
      else let (before, after, found) = cut sep cs in (c # before, after, found))"

text \<open>\<^verbatim>\<open>strings.Split\<close> at a one-character separator.\<close>

fun split_on :: "char \<Rightarrow> string \<Rightarrow> string list" where
  "split_on sep [] = [[]]"
| "split_on sep (c # cs) =
     (if c = sep then [] # split_on sep cs
      else case split_on sep cs of [] \<Rightarrow> [[c]] | w # ws \<Rightarrow> (c # w) # ws)"

fun join :: "string \<Rightarrow> string list \<Rightarrow> string" where
  "join sep [] = []"
| "join sep [w] = w"
| "join sep (w # ws) = w @ sep @ join sep ws"

definition is_space :: "char \<Rightarrow> bool" where
  "is_space c \<longleftrightarrow> (of_char c :: int) \<in> {9, 10, 11, 12, 13, 32}"

text \<open>\<^verbatim>\<open>strings.Fields\<close>: the maximal runs of characters that are not space.\<close>

fun fields_from :: "string \<Rightarrow> string \<Rightarrow> string list" where
  "fields_from w [] = (if w = [] then [] else [rev w])"
| "fields_from w (c # cs) =
     (if is_space c then (if w = [] then fields_from [] cs else rev w # fields_from [] cs)
      else fields_from (c # w) cs)"

definition strings_Fields :: "string \<Rightarrow> string list" where
  "strings_Fields s = fields_from [] s"

definition HasPrefix :: "string \<Rightarrow> string \<Rightarrow> bool" where
  "HasPrefix s p \<longleftrightarrow> take (length p) s = p"

lemma cut_none: "sep \<notin> set s \<Longrightarrow> cut sep s = (s, [], False)"
  by (induction s) auto

lemma cut_found: "sep \<notin> set a \<Longrightarrow> cut sep (a @ sep # b) = (a, b, True)"
  by (induction a) auto

lemma split_on_not_Nil [simp]: "split_on sep s \<noteq> []"
  by (induction s) (auto split: list.split)

lemma split_on_word: "sep \<notin> set w \<Longrightarrow> split_on sep w = [w]"
  by (induction w) auto

lemma split_on_append:
  "sep \<notin> set w \<Longrightarrow> split_on sep (w @ sep # rest) = w # split_on sep rest"
  by (induction w) auto

lemma split_on_join:
  assumes "ws \<noteq> []" "\<And>w. w \<in> set ws \<Longrightarrow> sep \<notin> set w"
  shows "split_on sep (join [sep] ws) = ws"
  using assms by (induction "[sep]" ws rule: join.induct) (auto simp: split_on_word split_on_append)

lemma fields_from_word:
  "\<forall>c \<in> set w. \<not> is_space c \<Longrightarrow> fields_from acc (w @ rest) = fields_from (rev w @ acc) rest"
  by (induction w arbitrary: acc) auto

lemma strings_Fields_join:
  assumes "\<And>w. w \<in> set ws \<Longrightarrow> w \<noteq> [] \<and> (\<forall>c \<in> set w. \<not> is_space c)"
  shows "strings_Fields (join '' '' ws) = ws"
  unfolding strings_Fields_def using assms
proof (induction "'' ''" ws rule: join.induct)
  case (2 w)
  then show ?case using fields_from_word[of w "[]" "[]"] by simp
next
  case (3 w v ws)
  have space: "is_space (CHR '' '')" by (simp add: is_space_def)
  have "fields_from [] (join '' '' (v # ws)) = v # ws" using 3 by auto
  then show ?case using 3(2)[of w] fields_from_word[of w "[]"] space by simp
qed simp

end
