(* ===== verification/GoTime.thy ===== *)
theory GoTime
  imports GoText
begin

text \<open>
  What the program uses of package time beyond instants and durations: the calendar of an
  instant, the formatting of an instant in UTC, locations, and \<^verbatim>\<open>time.ParseDuration\<close>.
\<close>

section \<open>The calendar\<close>

text \<open>Days are counted from January 1 of the year 1 of the proleptic Gregorian calendar, the
  zero time of the package.\<close>

definition day_ns :: int where
  "day_ns = 86400000000000"

definition leap :: "int \<Rightarrow> bool" where
  "leap y \<longleftrightarrow> 4 dvd y \<and> (\<not> 100 dvd y \<or> 400 dvd y)"

definition days_before_year :: "int \<Rightarrow> int" where
  "days_before_year y = 365 * (y - 1) + (y - 1) div 4 - (y - 1) div 100 + (y - 1) div 400"

definition days_before_month :: "int \<Rightarrow> int \<Rightarrow> int" where
  "days_before_month y m =
     [0, 31, 59, 90, 120, 151, 181, 212, 243, 273, 304, 334] ! nat (m - 1) +
     (if leap y \<and> 2 < m then 1 else 0)"

definition days_of_date :: "int \<Rightarrow> int \<Rightarrow> int \<Rightarrow> int" where
  "days_of_date y m d = days_before_year y + days_before_month y m + d - 1"

definition year_of_day :: "int \<Rightarrow> int" where
  "year_of_day n =
     (let y = 400 * n div 146097 + 1 in if days_before_year (y + 1) \<le> n then y + 1 else y)"

text \<open>The month of day \<open>r\<close> of the year, counting from 0, searched for from month \<open>m\<close> on.\<close>

function month_from :: "int \<Rightarrow> int \<Rightarrow> int \<Rightarrow> int" where
  "month_from y r m =
     (if 12 \<le> m \<or> r < days_before_month y (m + 1) then m else month_from y r (m + 1))"
  by auto
termination
  by (relation "measure (\<lambda>(y, r, m). nat (12 - m))") auto

declare month_from.simps [simp del]

definition month_of_day :: "int \<Rightarrow> int" where
  "month_of_day n = (let y = year_of_day n in month_from y (n - days_before_year y) 1)"

definition day_of_day :: "int \<Rightarrow> int" where
  "day_of_day n =
     n - days_before_year (year_of_day n) - days_before_month (year_of_day n) (month_of_day n) + 1"

text \<open>The fields of a wall clock reading: nanoseconds since the zero time on that clock.
  Weekday 0 is Sunday; the first day of the year 1 was a Monday.\<close>

definition Year :: "int \<Rightarrow> int" where "Year w = year_of_day (w div day_ns)"
definition Month :: "int \<Rightarrow> int" where "Month w = month_of_day (w div day_ns)"
definition Day :: "int \<Rightarrow> int" where "Day w = day_of_day (w div day_ns)"
definition Weekday :: "int \<Rightarrow> int" where "Weekday w = (w div day_ns + 1) mod 7"
definition Hour :: "int \<Rightarrow> int" where "Hour w = w div 3600000000000 mod 24"
definition Minute :: "int \<Rightarrow> int" where "Minute w = w div minute mod 60"
definition Second :: "int \<Rightarrow> int" where "Second w = w div second mod 60"
definition Nanosecond :: "int \<Rightarrow> int" where "Nanosecond w = w mod second"

lemmas wall_defs = Year_def Month_def Day_def Weekday_def Hour_def Minute_def Second_def Nanosecond_def

lemma div_bounds: "k * (a div k) \<le> a" "a < k * (a div k) + k" if "0 < k" for a k :: int
  using that pos_mod_sign[OF that, of a] pos_mod_bound[OF that, of a] mult_div_mod_eq[of k a] by linarith+

lemma days_before_year_bounds:
  "400 * days_before_year y \<le> 146097 * (y - 1) + 396"
  "146097 * (y - 1) - 699 \<le> 400 * days_before_year y"
proof -
  define z a b c where "z = y - 1" and "a = z div 4" and "b = z div 100" and "c = z div 400"
  have "4 * a \<le> z" "z \<le> 4 * a + 3" "100 * b \<le> z" "z \<le> 100 * b + 99" "400 * c \<le> z" "z \<le> 400 * c + 399"
    using div_bounds[of 4 z] div_bounds[of 100 z] div_bounds[of 400 z] by (simp_all add: a_def b_def c_def)
  moreover have "days_before_year y = 365 * z + a - b + c"
    by (simp add: days_before_year_def z_def a_def b_def c_def)
  ultimately show "400 * days_before_year y \<le> 146097 * (y - 1) + 396"
    "146097 * (y - 1) - 699 \<le> 400 * days_before_year y"
    unfolding z_def[symmetric] by simp_all
qed

lemma div_Suc: "(a + 1) div k = a div k + (if k dvd (a + 1) then 1 else 0)" if "0 < k" for a k :: int
proof (cases "k dvd (a + 1)")
  case True
  then obtain c where c: "a + 1 = k * c" by (elim dvdE)
  then have "a = k * (c - 1) + (k - 1)" by (simp add: algebra_simps)
  then have "a div k = c - 1" using that by (intro int_div_pos_eq[of a k "c - 1" "k - 1"]) auto
  then show ?thesis using c that by simp
next
  case False
  have "a mod k + 1 \<noteq> k"
  proof
    assume "a mod k + 1 = k"
    then have "a + 1 = k * (a div k) + k" using mult_div_mod_eq[of k a] by linarith
    then have "a + 1 = k * (a div k + 1)" by (simp add: distrib_left)
    then show False using False by simp
  qed
  then have "a mod k + 1 < k" using pos_mod_bound[OF that, of a] by simp
  then have "(a + 1) div k = a div k"
    using that by (intro int_div_pos_eq[of _ _ _ "a mod k + 1"]) (simp_all add: pos_mod_sign add_nonneg_nonneg)
  then show ?thesis using False by simp
qed

lemma year_of_day:
  "days_before_year (year_of_day n) \<le> n" "n < days_before_year (year_of_day n + 1)"
proof -
  define z where "z = 400 * n div 146097"
  have z: "146097 * z \<le> 400 * n" "400 * n < 146097 * z + 146097"
    using div_bounds[of 146097 "400 * n"] by (simp_all add: z_def)
  have "400 * days_before_year (z + 1) < 400 * (n + 1)"
    using days_before_year_bounds(1)[of "z + 1"] z(1) by simp
  then have low: "days_before_year (z + 1) \<le> n" by simp
  have "400 * n < 400 * days_before_year (z + 1 + 1 + 1)"
    using days_before_year_bounds(2)[of "z + 1 + 1 + 1"] z(2) by simp
  then have high: "n < days_before_year (z + 1 + 1 + 1)" by simp
  have year: "year_of_day n = (if days_before_year (z + 1 + 1) \<le> n then z + 1 + 1 else z + 1)"
    by (simp add: year_of_day_def z_def)
  show "days_before_year (year_of_day n) \<le> n" "n < days_before_year (year_of_day n + 1)"
    using low high by (simp_all add: year)
qed

lemma days_in_year: "days_before_year (y + 1) = days_before_year y + (if leap y then 366 else 365)"
proof -
  define a b c where "a = (y - 1) div 4" and "b = (y - 1) div 100" and "c = (y - 1) div 400"
  define p q r where "p \<longleftrightarrow> 4 dvd y" and "q \<longleftrightarrow> 100 dvd y" and "r \<longleftrightarrow> 400 dvd y"
  have "y div 4 = a + (if p then 1 else 0)" "y div 100 = b + (if q then 1 else 0)"
    "y div 400 = c + (if r then 1 else 0)"
    using div_Suc[of 4 "y - 1"] div_Suc[of 100 "y - 1"] div_Suc[of 400 "y - 1"]
    unfolding a_def b_def c_def p_def q_def r_def diff_add_cancel by (simp_all only: zero_less_numeral)
  then have next_year: "days_before_year (y + 1) =
      365 * y + a + (if p then 1 else 0) - (b + (if q then 1 else 0)) + (c + (if r then 1 else 0))"
    unfolding days_before_year_def add_diff_cancel_right' by (simp only:)
  have "q \<longrightarrow> p" "r \<longrightarrow> q" unfolding p_def q_def r_def
    by (blast intro: dvd_trans[rotated] dvd_trans[of 4 100 y, simplified] dvd_trans[of 100 400 y, simplified])+
  moreover have "days_before_year y = 365 * (y - 1) + a - b + c" "leap y \<longleftrightarrow> p \<and> (\<not> q \<or> r)"
    by (simp_all add: days_before_year_def leap_def a_def b_def c_def p_def q_def r_def)
  ultimately show ?thesis unfolding next_year
    by (cases p; cases q; cases r) (simp_all only: if_True if_False simp_thms, simp_all)
qed

lemma days_before_year_mono: "days_before_year y \<le> days_before_year y'" if "y \<le> y'"
proof (cases "y = y'")
  case False
  then have "y + 1 \<le> y'" using that by simp
  then show ?thesis
    using days_before_year_bounds(1)[of y] days_before_year_bounds(2)[of y'] by simp
qed simp

lemma year_unique:
  assumes "days_before_year y \<le> n" "n < days_before_year (y + 1)"
  shows "year_of_day n = y"
  using assms year_of_day[of n] days_before_year_mono[of "y + 1" "year_of_day n"]
    days_before_year_mono[of "year_of_day n + 1" y] by linarith

lemma month_cases:
  assumes "1 \<le> m" "m \<le> 12"
  obtains "m = 1" | "m = 2" | "m = 3" | "m = 4" | "m = 5" | "m = 6" | "m = 7" | "m = 8" | "m = 9"
    | "m = 10" | "m = 11" | "m = (12 :: int)"
proof -
  have "m \<in> {1, 2, 3, 4, 5, 6, 7, 8, 9, 10, 11, 12}"
    unfolding insert_iff empty_iff using assms by presburger
  then show thesis using that by blast
qed

definition days_in_month :: "int \<Rightarrow> int \<Rightarrow> int" where
  "days_in_month y m =
     (if m = 2 then if leap y then 29 else 28 else if m \<in> {4, 6, 9, 11} then 30 else 31)"

lemma days_before_month_1 [simp]: "days_before_month y 1 = 0"
  by (simp add: days_before_month_def)

lemma days_before_month_step:
  assumes "1 \<le> m" "m \<le> 11"
  shows "days_before_month y (m + 1) = days_before_month y m + days_in_month y m"
  using assms by (elim month_cases[of m]) (simp_all add: days_before_month_def days_in_month_def)

lemma days_after_December:
  "days_before_month y 12 + days_in_month y 12 = (if leap y then 366 else 365)"
  by (simp add: days_before_month_def days_in_month_def)

lemma days_in_month_bounds: "28 \<le> days_in_month y m" "days_in_month y m \<le> 31"
  by (simp_all add: days_in_month_def)

lemma month_from:
  assumes "1 \<le> m" "m \<le> 12" "days_before_month y m \<le> r" "r < (if leap y then 366 else 365)"
  shows "1 \<le> month_from y r m \<and> month_from y r m \<le> 12 \<and>
    days_before_month y (month_from y r m) \<le> r \<and>
    r < days_before_month y (month_from y r m) + days_in_month y (month_from y r m)"
  using assms
proof (induction y r m rule: month_from.induct)
  case (1 y r m)
  show ?case
  proof (cases "12 \<le> m \<or> r < days_before_month y (m + 1)")
    case True
    moreover have "m = 12 \<or> m \<le> 11" using 1(3) by linarith
    ultimately show ?thesis
      using 1(2-5) days_before_month_step[of m y] days_after_December[of y]
      by (subst (1 2 3 4 5) month_from.simps) (auto simp del: One_nat_def)
  next
    case False
    then show ?thesis using 1 by (subst (1 2 3 4 5) month_from.simps) simp
  qed
qed

lemma date_of_day:
  fixes n :: int
  defines "y \<equiv> year_of_day n" and "m \<equiv> month_of_day n" and "d \<equiv> day_of_day n"
  shows "1 \<le> m" "m \<le> 12" "1 \<le> d" "d \<le> days_in_month y m" "days_of_date y m d = n"
proof -
  let ?r = "n - days_before_year y"
  have "0 \<le> ?r" "?r < (if leap y then 366 else 365)"
    using year_of_day[of n] days_in_year[of y] by (simp_all add: y_def)
  then have "1 \<le> m \<and> m \<le> 12 \<and> days_before_month y m \<le> ?r \<and>
      ?r < days_before_month y m + days_in_month y m"
    using month_from[of 1 y ?r] by (simp add: m_def month_of_day_def y_def Let_def)
  then show "1 \<le> m" "m \<le> 12" "1 \<le> d" "d \<le> days_in_month y m"
    by (simp_all add: d_def day_of_day_def y_def m_def)
  show "days_of_date y m d = n"
    by (simp add: days_of_date_def d_def day_of_day_def y_def m_def)
qed

lemma days_before_month_mono:
  assumes "1 \<le> m" "m < m'" "m' \<le> 12"
  shows "days_before_month y m + days_in_month y m \<le> days_before_month y m'"
  using assms
proof (induction "nat (m' - m)" arbitrary: m)
  case (Suc k)
  show ?case
  proof (cases "m + 1 = m'")
    case True
    then show ?thesis using Suc.prems days_before_month_step[of m y] by simp
  next
    case False
    then have "days_before_month y (m + 1) + days_in_month y (m + 1) \<le> days_before_month y m'"
      using Suc by auto
    then show ?thesis
      using days_before_month_step[of m y] Suc.prems days_in_month_bounds(1)[of y "m + 1"] by simp
  qed
qed simp

text \<open>Every date is the date of its day: the calendar functions are the inverse of counting
  days.\<close>

lemma day_of_date:
  assumes m: "1 \<le> m" "m \<le> 12" and d: "1 \<le> d" "d \<le> days_in_month y m"
  shows "year_of_day (days_of_date y m d) = y" "month_of_day (days_of_date y m d) = m"
    "day_of_day (days_of_date y m d) = d"
proof -
  let ?n = "days_of_date y m d"
  have "0 \<le> days_before_month y m"
    using days_before_month_mono[of 1 m y] days_in_month_bounds(1)[of y 1] m by (cases "m = 1") auto
  moreover have "days_before_month y m + days_in_month y m \<le> (if leap y then 366 else 365)"
    using days_before_month_mono[of m 12 y] days_after_December[of y] days_in_month_bounds(1)[of y 12] m
    by (cases "m = 12") auto
  ultimately show y: "year_of_day ?n = y"
    using d days_in_year[of y] by (intro year_unique) (auto simp: days_of_date_def)
  let ?m = "month_of_day ?n"
  have date: "1 \<le> ?m" "?m \<le> 12" "1 \<le> day_of_day ?n" "day_of_day ?n \<le> days_in_month y ?m"
    "days_of_date y ?m (day_of_day ?n) = ?n"
    using date_of_day[of ?n] by (simp_all add: y)
  show "?m = m"
  proof (rule linorder_cases[of ?m m])
    assume "?m < m"
    then show ?thesis
      using days_before_month_mono[of ?m m y] date m d by (simp add: days_of_date_def)
  next
    assume "m < ?m"
    then show ?thesis
      using days_before_month_mono[of m ?m y] date m d by (simp add: days_of_date_def)
  qed
  then show "day_of_day ?n = d" using date(5) by (simp add: days_of_date_def)
qed

section \<open>Locations\<close>

text \<open>
  A location is what the program asks of it: the offset of its clock from UTC at an instant, and
  the instant \<^verbatim>\<open>time.Date\<close> gives for a reading of its clock. Package time documents that
  the latter has the reading asked for whenever some instant has it, and leaves open which one
  when a clock set back shows a reading twice.
\<close>

record location =
  offset_at :: "time \<Rightarrow> duration"
  date_at :: "int \<Rightarrow> time"

definition wall :: "location \<Rightarrow> time \<Rightarrow> int" where
  "wall loc t = t + offset_at loc t"

definition loc_ok :: "location \<Rightarrow> bool" where
  "loc_ok loc \<longleftrightarrow> (\<forall>t. wall loc (date_at loc (wall loc t)) = wall loc t)"

definition UTC :: location where
  "UTC = \<lparr>offset_at = (\<lambda>_. 0), date_at = (\<lambda>w. w)\<rparr>"

lemma wall_UTC [simp]: "wall UTC t = t"
  by (simp add: wall_def UTC_def)

lemma loc_ok_UTC: "loc_ok UTC"
  by (simp add: loc_ok_def UTC_def wall_def)

section \<open>Formatting an instant in UTC\<close>

definition pad :: "nat \<Rightarrow> int \<Rightarrow> string" where
  "pad k n = (let s = digits n in replicate (k - length s) CHR ''0'' @ s)"

text \<open>The fraction of a second, without trailing zeros.\<close>

definition fraction :: "int \<Rightarrow> string" where
  "fraction ns = (if ns = 0 then [] else CHR ''.'' # rev (dropWhile (\<lambda>c. c = CHR ''0'') (rev (pad 9 ns))))"

text \<open>\<^verbatim>\<open>t.UTC().Format(time.RFC3339Nano)\<close>, for an instant that is not before the year 1.\<close>

definition format_RFC3339Nano :: "time \<Rightarrow> string" where
  "format_RFC3339Nano t =
     pad 4 (Year t) @ ''-'' @ pad 2 (Month t) @ ''-'' @ pad 2 (Day t) @ ''T'' @
     pad 2 (Hour t) @ '':'' @ pad 2 (Minute t) @ '':'' @ pad 2 (Second t) @ fraction (Nanosecond t) @ ''Z''"

lemma length_digits: "0 < k \<Longrightarrow> n < 10 ^ k \<Longrightarrow> length (digits n) \<le> k"
proof (induction n arbitrary: k rule: digits.induct)
  case (1 n)
  show ?case
  proof (cases "n < 10")
    case True
    then show ?thesis using 1(2) by (subst digits.simps) simp
  next
    case False
    have "k \<noteq> 1" using 1(3) False by auto
    then obtain j where k: "k = Suc j" "0 < j" using 1(2) by (metis One_nat_def gr0_implies_Suc neq0_conv)
    define b where "b = (10 :: int) ^ j"
    have "10 * (n div 10) < 10 * b" using 1(3) div_bounds(1)[of 10 n] by (simp add: k b_def)
    then have "n div 10 < 10 ^ j" by (simp add: b_def)
    then have "length (digits (n div 10)) \<le> j" using 1(1)[of j] False k by simp
    then show ?thesis using False k by (subst digits.simps) simp
  qed
qed

lemma digits_value_zeros: "digits_value 0 (replicate k CHR ''0'' @ s) = digits_value 0 s"
  by (induction k) (simp_all add: digit_value_def)

lemma length_pad: "0 < k \<Longrightarrow> n < 10 ^ k \<Longrightarrow> length (pad k n) = k"
  using length_digits[of k n] by (simp add: pad_def Let_def)

lemma pad_inj: "pad k a = pad k b \<Longrightarrow> 0 \<le> a \<Longrightarrow> 0 \<le> b \<Longrightarrow> a = b"
proof -
  assume eq: "pad k a = pad k b" and nonneg: "0 \<le> a" "0 \<le> b"
  have read: "digits_value 0 (pad k n) = Some n" if "0 \<le> n" for n
    using that by (simp add: pad_def Let_def digits_value_zeros digits_value_digits)
  have "Some a = Some b" using read[OF nonneg(1)] read[OF nonneg(2)] eq by metis
  then show "a = b" by simp
qed

lemma fraction_inj:
  assumes "fraction a = fraction b" "0 \<le> a" "a < second" "0 \<le> b" "b < second"
  shows "a = b"
proof -
  let ?z = "\<lambda>c. c = CHR ''0''"
  have pad: "pad 9 n = rev (dropWhile ?z (rev (pad 9 n))) @ replicate (9 - length (dropWhile ?z (rev (pad 9 n)))) CHR ''0''"
    if "0 \<le> n" "n < second" for n
  proof -
    have split: "rev (pad 9 n) = takeWhile ?z (rev (pad 9 n)) @ dropWhile ?z (rev (pad 9 n))"
      by (rule takeWhile_dropWhile_id[symmetric])
    have "\<forall>c \<in> set (takeWhile ?z (rev (pad 9 n))). c = CHR ''0''" by (auto dest: set_takeWhileD)
    then have zeros: "takeWhile ?z (rev (pad 9 n)) =
        replicate (length (takeWhile ?z (rev (pad 9 n)))) CHR ''0''"
      by (metis replicate_length_same)
    have "length (takeWhile ?z (rev (pad 9 n))) + length (dropWhile ?z (rev (pad 9 n))) = length (rev (pad 9 n))"
      by (metis length_append takeWhile_dropWhile_id)
    then have "length (takeWhile ?z (rev (pad 9 n))) = 9 - length (dropWhile ?z (rev (pad 9 n)))"
      using length_pad[of 9 n] that by simp
    then show ?thesis using arg_cong[OF split, of rev] zeros by (metis rev_append rev_replicate rev_rev_ident)
  qed
  show ?thesis
  proof (cases "a = 0 \<or> b = 0")
    case True
    then show ?thesis using assms(1) by (auto simp: fraction_def split: if_splits)
  next
    case False
    then have "dropWhile ?z (rev (pad 9 a)) = dropWhile ?z (rev (pad 9 b))"
      using assms(1) by (simp add: fraction_def)
    then have "pad 9 a = pad 9 b" using pad[of a] pad[of b] assms by metis
    then show ?thesis using assms by (auto dest: pad_inj)
  qed
qed

lemma wall_fields:
  "0 \<le> Hour w" "Hour w < 24" "0 \<le> Minute w" "Minute w < 60" "0 \<le> Second w" "Second w < 60"
  "0 \<le> Nanosecond w" "Nanosecond w < second" "1 \<le> Month w" "Month w \<le> 12" "1 \<le> Day w" "Day w \<le> 31"
  "0 \<le> Weekday w" "Weekday w < 7"
  using date_of_day[of "w div day_ns"] days_in_month_bounds(2)[of "Year w" "Month w"]
  by (simp_all add: wall_defs day_ns_def)

lemma mult_days:
  "(3600000000000 :: int) * 24 = 86400000000000" "(60000000000 :: int) * 60 = 3600000000000"
  "(1000000000 :: int) * 60 = 60000000000" "(0 :: int) \<le> 24" "(0 :: int) \<le> 60"
  by simp_all

lemma wall_from_fields:
  "w = days_of_date (Year w) (Month w) (Day w) * day_ns + Hour w * 3600000000000 +
     Minute w * minute + Second w * second + Nanosecond w"
proof -
  have "days_of_date (Year w) (Month w) (Day w) = w div day_ns"
    using date_of_day(5)[of "w div day_ns"] by (simp add: wall_defs)
  moreover have "w mod day_ns = 3600000000000 * Hour w + w mod 3600000000000"
    using zmod_zmult2_eq[of 24 w 3600000000000] unfolding wall_defs day_ns_def by (simp only: mult_days)
  moreover have "w mod 3600000000000 = minute * Minute w + w mod minute"
    using zmod_zmult2_eq[of 60 w minute] unfolding wall_defs by (simp only: mult_days)
  moreover have "w mod minute = second * Second w + Nanosecond w"
    using zmod_zmult2_eq[of 60 w second] unfolding wall_defs by (simp only: mult_days)
  moreover have "w = w div day_ns * day_ns + w mod day_ns" by simp
  ultimately show ?thesis by (simp only: ac_simps)
qed

lemma format_RFC3339Nano_inj:
  assumes "format_RFC3339Nano a = format_RFC3339Nano b"
    and "0 \<le> Year a" "Year a \<le> 9999" "0 \<le> Year b" "Year b \<le> 9999"
  shows "a = b"
proof -
  have len: "length (pad 4 (Year a)) = length (pad 4 (Year b))"
    "length (pad 2 (Month a)) = length (pad 2 (Month b))" "length (pad 2 (Day a)) = length (pad 2 (Day b))"
    "length (pad 2 (Hour a)) = length (pad 2 (Hour b))" "length (pad 2 (Minute a)) = length (pad 2 (Minute b))"
    "length (pad 2 (Second a)) = length (pad 2 (Second b))"
    using assms(2-) wall_fields[of a] wall_fields[of b] by (simp_all add: length_pad)
  then have "pad 4 (Year a) = pad 4 (Year b)" "pad 2 (Month a) = pad 2 (Month b)"
    "pad 2 (Day a) = pad 2 (Day b)" "pad 2 (Hour a) = pad 2 (Hour b)" "pad 2 (Minute a) = pad 2 (Minute b)"
    "pad 2 (Second a) = pad 2 (Second b)" "fraction (Nanosecond a) = fraction (Nanosecond b)"
    using assms(1) by (simp_all add: format_RFC3339Nano_def)
  then have "Year a = Year b" "Month a = Month b" "Day a = Day b" "Hour a = Hour b"
    "Minute a = Minute b" "Second a = Second b" "Nanosecond a = Nanosecond b"
    using assms(2-) wall_fields[of a] wall_fields[of b] by (auto dest: pad_inj fraction_inj)
  then show ?thesis by (metis wall_from_fields)
qed

section \<open>Parsing a duration\<close>

text \<open>
  \<^verbatim>\<open>time.ParseDuration\<close>. None is an error. The fractional part of a number is exact here,
  where the package computes it in floating point.
\<close>

fun leadingInt :: "int \<Rightarrow> string \<Rightarrow> (int \<times> string) option" where
  "leadingInt x [] = Some (x, [])"
| "leadingInt x (c # cs) =
     (case digit_value c of
        None \<Rightarrow> Some (x, c # cs)
      | Some d \<Rightarrow>
          if x > 2 ^ 63 div 10 \<or> 10 * x + d > 2 ^ 63 then None else leadingInt (10 * x + d) cs)"

fun leadingFraction :: "int \<Rightarrow> int \<Rightarrow> bool \<Rightarrow> string \<Rightarrow> int \<times> int \<times> string" where
  "leadingFraction x scale overflow [] = (x, scale, [])"
| "leadingFraction x scale overflow (c # cs) =
     (case digit_value c of
        None \<Rightarrow> (x, scale, c # cs)
      | Some d \<Rightarrow>
          if overflow \<or> x > (2 ^ 63 - 1) div 10 \<or> 10 * x + d > 2 ^ 63
          then leadingFraction x scale True cs
          else leadingFraction (10 * x + d) (10 * scale) False cs)"

definition unit_ns :: "string \<Rightarrow> int option" where
  "unit_ns u = map_of
     [(''ns'', 1), (''us'', 1000), (CHR 0xC2 # CHR 0xB5 # ''s'', 1000), (CHR 0xCE # CHR 0xBC # ''s'', 1000),
      (''ms'', 1000000), (''s'', 1000000000), (''m'', 60000000000), (''h'', 3600000000000)] u"

definition number_char :: "char \<Rightarrow> bool" where
  "number_char c \<longleftrightarrow> c = CHR ''.'' \<or> digit_value c \<noteq> None"

text \<open>An optional fraction: its digits, their scale, what is left, and whether there was one.\<close>

definition fraction_part :: "string \<Rightarrow> int \<times> int \<times> string \<times> bool" where
  "fraction_part s =
     (if s \<noteq> [] \<and> hd s = CHR ''.''
      then let (f, scale, rest) = leadingFraction 0 1 False (tl s)
           in (f, scale, rest, length rest \<noteq> length (tl s))
      else (0, 1, s, False))"

text \<open>One number with its unit, and what is left of the string.\<close>

definition duration_part :: "string \<Rightarrow> (int \<times> string) option" where
  "duration_part s =
     (if s = [] \<or> \<not> number_char (hd s) then None
      else case leadingInt 0 s of
        None \<Rightarrow> None
      | Some (v, s1) \<Rightarrow>
          let pre = (length s1 \<noteq> length s);
              (f, scale, s2, post) = fraction_part s1;
              u = takeWhile (\<lambda>c. \<not> number_char c) s2;
              rest = dropWhile (\<lambda>c. \<not> number_char c) s2
          in if \<not> pre \<and> \<not> post then None
             else if u = [] then None
             else case unit_ns u of
               None \<Rightarrow> None
             | Some unit \<Rightarrow>
                 if v > 2 ^ 63 div unit then None
                 else let v' = v * unit + f * unit div scale
                      in if v' > 2 ^ 63 then None else Some (v', rest))"

lemma length_leadingInt: "leadingInt x s = Some (v, rest) \<Longrightarrow> length rest \<le> length s"
  by (induction x s rule: leadingInt.induct) (auto split: option.splits if_splits intro: le_SucI)

lemma length_leadingFraction:
  "leadingFraction x scale overflow s = (f, scale', rest) \<Longrightarrow> length rest \<le> length s"
  by (induction x scale overflow s rule: leadingFraction.induct)
    (auto split: option.splits if_splits intro: le_SucI)

lemma length_fraction_part: "fraction_part s = (f, scale, rest, post) \<Longrightarrow> length rest \<le> length s"
  using length_leadingFraction[of 0 1 False "tl s"]
  by (cases "leadingFraction 0 1 False (tl s)") (auto simp: fraction_part_def Let_def split: if_splits)

lemma length_dropWhile_less: "takeWhile P xs \<noteq> [] \<Longrightarrow> length (dropWhile P xs) < length xs"
  by (cases xs) (auto simp: less_Suc_eq_le length_dropWhile_le split: if_splits)

lemma length_duration_part:
  assumes "duration_part s = Some (v, rest)"
  shows "length rest < length s"
proof -
  obtain v1 s1 where s1: "leadingInt 0 s = Some (v1, s1)"
    using assms by (auto simp: duration_part_def split: if_splits option.splits)
  obtain f scale s2 post where s2: "fraction_part s1 = (f, scale, s2, post)"
    by (cases "fraction_part s1") auto
  have "takeWhile (\<lambda>c. \<not> number_char c) s2 \<noteq> [] \<and> rest = dropWhile (\<lambda>c. \<not> number_char c) s2"
    using assms by (auto simp: duration_part_def s1 s2 Let_def split: if_splits option.splits)
  then show ?thesis
    using length_dropWhile_less[of "\<lambda>c. \<not> number_char c" s2] length_leadingInt[OF s1]
      length_fraction_part[OF s2] by simp
qed

function duration_loop :: "int \<Rightarrow> string \<Rightarrow> int option" where
  "duration_loop d s =
     (if s = [] then Some d
      else case duration_part s of
        None \<Rightarrow> None
      | Some (v, rest) \<Rightarrow> if d + v > 2 ^ 63 then None else duration_loop (d + v) rest)"
  by auto
termination
  by (relation "measure (\<lambda>(d, s). length s)") (auto dest: length_duration_part)

declare duration_loop.simps [simp del]

definition ParseDuration :: "string \<Rightarrow> duration option" where
  "ParseDuration s =
     (let neg = (s \<noteq> [] \<and> hd s = CHR ''-'');
          s1 = (if s \<noteq> [] \<and> (hd s = CHR ''-'' \<or> hd s = CHR ''+'') then tl s else s)
      in if s1 = ''0'' then Some 0
         else if s1 = [] then None
         else case duration_loop 0 s1 of
           None \<Rightarrow> None
         | Some d \<Rightarrow>
             if neg then Some (- d) else if d > MaxInt64 then None else Some d)"

end
