(* ===== verification/Cron.thy ===== *)
theory Cron
  imports GoTime "HOL-Library.Word"
begin

text \<open>
  The schedules of \<^verbatim>\<open>internal/cron/cron.go\<close>: parsing a specification of five fields or
  \<^verbatim>\<open>@every\<close>, and the next instant it fires. An error is represented by the part of the
  specification it names; all of them wrap \<^verbatim>\<open>ErrInvalidSpec\<close>.
\<close>

unbundle bit_operations_syntax

section \<open>Fields\<close>

type_synonym field = "64 word"

definition has :: "field \<Rightarrow> int \<Rightarrow> bool" where
  "has f v = (if v < 0 \<or> v > 63 then False else f AND push_bit (nat v) 1 \<noteq> 0)"

definition parseRange :: "string \<Rightarrow> int \<Rightarrow> int \<Rightarrow> (int \<times> int) go_result" where
  "parseRange tok minVal maxVal =
     (if tok = ''*'' then Returns (minVal, maxVal)
      else let (low, high, ranged) = cut CHR ''-'' tok
      in case atoi low of
           None \<Rightarrow> Fails ''invalid value''
         | Some start \<Rightarrow>
             (case (if ranged then atoi high else Some start) of
                None \<Rightarrow> Fails ''invalid range''
              | Some end \<Rightarrow>
                  if start < minVal \<or> end > maxVal \<or> start > end then Fails ''value out of range''
                  else Returns (start, end)))"

text \<open>
  The loop of \<^verbatim>\<open>addPart\<close>. The loop variable is a 64-bit integer; shifting by a negative
  count panics. The result is None if the loop never ends.
\<close>

partial_function (option) addBits ::
  "field \<Rightarrow> int \<Rightarrow> int \<Rightarrow> int \<Rightarrow> bool \<Rightarrow> field go_result option" where
  "addBits bits v end step wrap7 =
     (if v > end then Some (Returns bits)
      else let bit = (if wrap7 \<and> v = 7 then 0 else v)
      in if bit < 0 then Some Panics
         else addBits (bits OR push_bit (nat bit) 1) (wrap64 (v + step)) end step wrap7)"

declare addBits.simps [code]

definition addPart :: "field \<Rightarrow> string \<Rightarrow> int \<Rightarrow> int \<Rightarrow> bool \<Rightarrow> field go_result option" where
  "addPart f part minVal maxVal wrap7 =
     (let (rangeTok, stepTok, stepped) = cut CHR ''/'' part
      in case (if stepped then atoi stepTok else Some 1) of
           None \<Rightarrow> Some (Fails ''invalid step'')
         | Some step \<Rightarrow>
             if step \<le> 0 then Some (Fails ''invalid step'')
             else case parseRange rangeTok minVal maxVal of
               Returns (start, end) \<Rightarrow> addBits f start end step wrap7
             | Fails e \<Rightarrow> Some (Fails e)
             | Panics \<Rightarrow> Some Panics)"

fun addParts :: "field \<Rightarrow> string list \<Rightarrow> int \<Rightarrow> int \<Rightarrow> bool \<Rightarrow> field go_result option" where
  "addParts f [] minVal maxVal wrap7 = Some (Returns f)"
| "addParts f (part # parts) minVal maxVal wrap7 =
     (if part = [] then Some (Fails ''empty list item'')
      else case addPart f part minVal maxVal wrap7 of
        Some (Returns f') \<Rightarrow> addParts f' parts minVal maxVal wrap7
      | r \<Rightarrow> r)"

definition parseField :: "string \<Rightarrow> int \<Rightarrow> int \<Rightarrow> bool \<Rightarrow> field go_result option" where
  "parseField tok minVal maxVal wrap7 =
     (if tok = [] then Some (Fails ''empty field'')
      else case addParts 0 (split_on CHR '','' tok) minVal maxVal wrap7 of
        Some (Returns f) \<Rightarrow> Some (if f = 0 then Fails ''no valid values'' else Returns f)
      | r \<Rightarrow> r)"

section \<open>Schedules\<close>

record cron_schedule =
  cs_minute :: field
  cs_hour :: field
  cs_dom :: field
  cs_month :: field
  cs_dow :: field
  cs_domStar :: bool
  cs_dowStar :: bool
  cs_loc :: location

datatype schedule = CronSchedule cron_schedule | EverySchedule duration

definition parseEvery :: "string list \<Rightarrow> schedule go_result" where
  "parseEvery rest =
     (if rest = [] then Fails ''empty @every duration''
      else case ParseDuration (join '' '' rest) of
        None \<Rightarrow> Fails ''@every duration''
      | Some d \<Rightarrow> if d \<le> 0 then Fails ''@every duration must be positive'' else Returns (EverySchedule d))"

text \<open>\<^verbatim>\<open>if err != nil { return nil, err }\<close> after a call.\<close>

definition and_then :: "'a go_result option \<Rightarrow> ('a \<Rightarrow> 'b go_result option) \<Rightarrow> 'b go_result option" where
  "and_then r k =
     (case r of
        None \<Rightarrow> None
      | Some (Returns x) \<Rightarrow> k x
      | Some (Fails e) \<Rightarrow> Some (Fails e)
      | Some Panics \<Rightarrow> Some Panics)"

definition ParseIn :: "string \<Rightarrow> location option \<Rightarrow> schedule go_result option" where
  "ParseIn spec loc =
     (let fs = strings_Fields spec
      in if fs \<noteq> [] \<and> hd fs = ''@every'' then Some (parseEvery (tl fs))
         else if length fs \<noteq> 5 then Some (Fails ''want 5 fields'')
         else
           and_then (parseField (fs ! 0) 0 59 False) (\<lambda>minute.
           and_then (parseField (fs ! 1) 0 23 False) (\<lambda>hour.
           and_then (parseField (fs ! 2) 1 31 False) (\<lambda>dom.
           and_then (parseField (fs ! 3) 1 12 False) (\<lambda>month.
           and_then (parseField (fs ! 4) 0 7 True) (\<lambda>dow.
             Some (Returns (CronSchedule
               \<lparr>cs_minute = minute, cs_hour = hour, cs_dom = dom, cs_month = month, cs_dow = dow,
                cs_domStar = (fs ! 2 = ''*''), cs_dowStar = (fs ! 4 = ''*''),
                cs_loc = (case loc of None \<Rightarrow> UTC | Some l \<Rightarrow> l)\<rparr>))))))))"

definition Parse :: "string \<Rightarrow> schedule go_result option" where
  "Parse spec = ParseIn spec (Some UTC)"

section \<open>The next instant\<close>

definition maxScanMinutes :: int where
  "maxScanMinutes = 5 * 366 * 24 * 60"

definition matches :: "cron_schedule \<Rightarrow> time \<Rightarrow> bool" where
  "matches s t =
     (let w = wall (cs_loc s) t
      in if \<not> has (cs_minute s) (Minute w) \<or> \<not> has (cs_hour s) (Hour w) \<or> \<not> has (cs_month s) (Month w)
         then False
         else let dom = has (cs_dom s) (Day w); dow = has (cs_dow s) (Weekday w)
              in if \<not> cs_domStar s \<and> \<not> cs_dowStar s then dom \<or> dow else dom \<and> dow)"

text \<open>The scan: up to \<open>k\<close> minutes from \<open>t\<close> on; the zero time when none matches.\<close>

function scan :: "cron_schedule \<Rightarrow> int \<Rightarrow> time \<Rightarrow> time" where
  "scan s k t = (if k \<le> 0 then 0 else if matches s t then t else scan s (k - 1) (t + minute))"
  by auto
termination
  by (relation "measure (\<lambda>(s, k, t). nat k)") auto

declare scan.simps [simp del]

definition cron_Next :: "cron_schedule \<Rightarrow> time \<Rightarrow> time" where
  "cron_Next s t =
     (let w = wall (cs_loc s) t;
          date = days_of_date (Year w) (Month w) (Day w) * day_ns + Hour w * 3600000000000 + Minute w * minute
      in scan s maxScanMinutes (date_at (cs_loc s) date + minute))"

text \<open>\<^verbatim>\<open>t.UTC().Truncate(d)\<close> rounds down to a multiple of \<open>d\<close> since the zero time. The
  loop after it is None if it never ends.\<close>

partial_function (option) every_loop :: "duration \<Rightarrow> time \<Rightarrow> time \<Rightarrow> time option" where
  "every_loop d t nxt = (if After nxt t then Some nxt else every_loop d t (nxt + d))"

declare every_loop.simps [code]

definition every_Next :: "duration \<Rightarrow> time \<Rightarrow> time option" where
  "every_Next d t = every_loop d t (t - t mod d + d)"

fun Next :: "schedule \<Rightarrow> time \<Rightarrow> time option" where
  "Next (CronSchedule s) t = Some (cron_Next s t)"
| "Next (EverySchedule d) t = every_Next d t"

section \<open>Fields\<close>

lemma has_iff: "has f v \<longleftrightarrow> 0 \<le> v \<and> v \<le> 63 \<and> bit f (nat v)"
  by (auto simp: has_def and_exp_eq_0_iff_not_bit push_bit_of_1 simp flip: push_bit_eq_mult)

lemma has_0 [simp]: "\<not> has 0 v"
  by (simp add: has_iff)

lemma has_or: "0 \<le> b \<Longrightarrow> b \<le> 63 \<Longrightarrow> has (f OR 2 ^ nat b) v \<longleftrightarrow> has f v \<or> v = b"
  by (auto simp: has_iff bit_or_iff bit_exp_iff nat_eq_iff2)

text \<open>The values one list item adds, Sunday written as 7 being 0.\<close>

definition part_values :: "int \<Rightarrow> int \<Rightarrow> int \<Rightarrow> bool \<Rightarrow> int set" where
  "part_values start end step wrap7 =
     {if wrap7 \<and> v = 7 then 0 else v | v. start \<le> v \<and> v \<le> end \<and> step dvd v - start}"

lemma part_values_empty: "end < start \<Longrightarrow> part_values start end step w = {}"
  by (auto simp: part_values_def)

lemma part_values_step:
  assumes "start \<le> end" "0 < step"
  shows "part_values start end step w =
    insert (if w \<and> start = 7 then 0 else start) (part_values (start + step) end step w)"
proof -
  have "start \<le> v \<and> v \<le> end \<and> step dvd v - start \<longleftrightarrow>
      v = start \<or> start + step \<le> v \<and> v \<le> end \<and> step dvd v - (start + step)" for v
  proof -
    have "step \<le> v - start" if "step dvd v - start" "start < v" using that by (intro zdvd_imp_le) auto
    moreover have "step dvd v - start \<longleftrightarrow> step dvd v - (start + step)"
      by (metis dvd_diff_commute dvd_minus_add diff_diff_add add.commute dvd_add_triv_right_iff diff_add_cancel)
    ultimately show ?thesis using assms by fastforce
  qed
  then show ?thesis by (auto simp: part_values_def)
qed

text \<open>As long as no step can carry the loop variable past the largest integer, the loop adds
  exactly the values of the item.\<close>

lemma addBits_values:
  assumes "0 \<le> start" "end \<le> 63" "0 < step" "step \<le> MaxInt64 - 63"
  shows "\<exists>f. addBits bits start end step w = Some (Returns f) \<and>
    (\<forall>v. has f v \<longleftrightarrow> has bits v \<or> v \<in> part_values start end step w)"
  using assms
proof (induction "nat (end + 1 - start)" arbitrary: start bits rule: less_induct)
  case less
  show ?case
  proof (cases "end < start")
    case True
    then show ?thesis by (subst addBits.simps) (simp add: part_values_empty)
  next
    case False
    define b where "b = (if w \<and> start = 7 then 0 else start)"
    have b: "0 \<le> b" "b \<le> 63" using less.prems False by (auto simp: b_def)
    have w: "wrap64 (start + step) = start + step"
      using less.prems False by (intro wrap64_id) (auto simp: MaxInt64_def)
    have "addBits bits start end step w = addBits (bits OR push_bit (nat b) 1) (start + step) end step w"
      using False b less.prems by (subst addBits.simps) (simp add: w Let_def b_def)
    moreover have "\<exists>f. addBits (bits OR push_bit (nat b) 1) (start + step) end step w = Some (Returns f) \<and>
      (\<forall>v. has f v \<longleftrightarrow> has (bits OR push_bit (nat b) 1) v \<or> v \<in> part_values (start + step) end step w)"
      using less.prems False by (intro less.hyps) auto
    ultimately show ?thesis
      using part_values_step[of start "end" step w] False less.prems b by (auto simp: has_or b_def[symmetric])
  qed
qed

lemma parseRange_bounds:
  "parseRange tok lo hi = Returns (start, end) \<Longrightarrow> lo \<le> hi \<Longrightarrow> lo \<le> start \<and> start \<le> end \<and> end \<le> hi"
  by (auto simp: parseRange_def Let_def split: if_splits prod.splits option.splits)

lemma parseRange_no_panic: "parseRange tok lo hi \<noteq> Panics"
  by (auto simp: parseRange_def Let_def split: if_splits prod.splits option.splits)

text \<open>Whatever the step, the loop ends: a step that overflows makes the variable negative, and
  the next turn panics.\<close>

lemma addBits_total:
  assumes "0 < step" "step \<le> MaxInt64" "end \<le> MaxInt64" "0 \<le> start" "start \<le> MaxInt64"
  shows "\<exists>r. addBits bits start end step w = Some r \<and> (r = Panics \<or> (\<exists>f. r = Returns f))"
  using assms
proof (induction "nat (end + 1 - start)" arbitrary: start bits rule: less_induct)
  case less
  show ?case
  proof (cases "end < start")
    case True
    then show ?thesis by (subst addBits.simps) simp
  next
    case False
    define b where "b = (if w \<and> start = 7 then 0 else start)"
    have step: "addBits bits start end step w =
        addBits (bits OR push_bit (nat b) 1) (wrap64 (start + step)) end step w"
      using False less.prems by (subst addBits.simps) (simp add: Let_def b_def)
    show ?thesis
    proof (cases "start + step \<le> MaxInt64")
      case True
      then have "wrap64 (start + step) = start + step"
        using less.prems by (intro wrap64_id) (auto simp: MaxInt64_def)
      then show ?thesis unfolding step using less.prems True False by (intro less.hyps) auto
    next
      case False
      then have "wrap64 (start + step) < 0"
        using less.prems wrap64_over[of "start + step"] by (simp add: MaxInt64_def)
      then show ?thesis
        unfolding step using \<open>\<not> end < start\<close> less.prems by (subst addBits.simps) (auto simp: Let_def)
    qed
  qed
qed

lemma atoi_range: "atoi s = Some v \<Longrightarrow> - MaxInt64 - 1 \<le> v \<and> v \<le> MaxInt64"
  by (auto simp: atoi_def Let_def split: if_splits prod.splits option.splits)

lemma addPart_total:
  assumes "0 \<le> lo" "lo \<le> hi" "hi \<le> MaxInt64"
  shows "\<exists>r. addPart f part lo hi w = Some r"
proof -
  obtain rangeTok stepTok stepped where c: "cut CHR ''/'' part = (rangeTok, stepTok, stepped)"
    by (cases "cut CHR ''/'' part") auto
  show ?thesis
  proof (cases "if stepped then atoi stepTok else Some 1")
    case None
    then show ?thesis by (simp add: addPart_def c)
  next
    case (Some step)
    have "step \<le> MaxInt64" using Some atoi_range[of stepTok] by (auto simp: MaxInt64_def split: if_splits)
    then have "\<exists>r. addBits f start end step w = Some r" if "0 < step" "lo \<le> start" "start \<le> end" "end \<le> hi"
      for start "end" using that assms addBits_total[of step "end" start f w] by fastforce
    then show ?thesis
      using Some parseRange_bounds[of rangeTok lo hi] assms(2)
      by (cases "parseRange rangeTok lo hi") (auto simp: addPart_def c split: prod.splits)
  qed
qed

lemma addParts_total:
  assumes "0 \<le> lo" "lo \<le> hi" "hi \<le> MaxInt64"
  shows "\<exists>r. addParts f parts lo hi w = Some r"
proof (induction parts arbitrary: f)
  case (Cons part parts)
  then show ?case
    using addPart_total[OF assms, of f part w] by (auto split: go_result.splits option.splits)
qed simp

lemma parseField_total:
  assumes "0 \<le> lo" "lo \<le> hi" "hi \<le> MaxInt64"
  shows "\<exists>r. parseField tok lo hi w = Some r"
  using addParts_total[OF assms, of 0 "split_on CHR '','' tok" w]
  by (auto simp: parseField_def split: go_result.splits option.splits)

lemma and_then_Some: "r = Some x \<Longrightarrow> (\<And>y. \<exists>z. k y = Some z) \<Longrightarrow> \<exists>z. and_then r k = Some z"
  by (cases x) (auto simp: and_then_def)

lemma ParseIn_total: "\<exists>r. ParseIn spec loc = Some r"
proof -
  have fields: "\<exists>r. parseField tok 0 59 False = Some r" "\<exists>r. parseField tok 0 23 False = Some r"
    "\<exists>r. parseField tok 1 31 False = Some r" "\<exists>r. parseField tok 1 12 False = Some r"
    "\<exists>r. parseField tok 0 7 True = Some r" for tok
    by (rule parseField_total; simp add: MaxInt64_def)+
  have chain: "\<exists>z. and_then r k = Some z" if "\<exists>x. r = Some x" "\<And>y. \<exists>z. k y = Some z" for r k
    using that and_then_Some by blast
  show ?thesis
    unfolding ParseIn_def Let_def by (auto intro!: chain fields)
qed

section \<open>Reading a printed specification\<close>

text \<open>The grammar of a field: a comma-separated list of ranges, each with an optional step.\<close>

datatype range = Star | One int | Span int int

type_synonym item = "range \<times> int option"

fun print_range :: "range \<Rightarrow> string" where
  "print_range Star = ''*''"
| "print_range (One a) = itoa a"
| "print_range (Span a b) = itoa a @ ''-'' @ itoa b"

definition print_item :: "item \<Rightarrow> string" where
  "print_item it = print_range (fst it) @ (case snd it of None \<Rightarrow> [] | Some s \<Rightarrow> ''/'' @ itoa s)"

definition print_field :: "item list \<Rightarrow> string" where
  "print_field items = join '','' (map print_item items)"

fun range_bounds :: "int \<Rightarrow> int \<Rightarrow> range \<Rightarrow> int \<times> int" where
  "range_bounds lo hi Star = (lo, hi)"
| "range_bounds lo hi (One a) = (a, a)"
| "range_bounds lo hi (Span a b) = (a, b)"

definition item_ok :: "int \<Rightarrow> int \<Rightarrow> item \<Rightarrow> bool" where
  "item_ok lo hi it \<longleftrightarrow>
     (let (a, b) = range_bounds lo hi (fst it) in lo \<le> a \<and> a \<le> b \<and> b \<le> hi) \<and>
     (case snd it of None \<Rightarrow> True | Some s \<Rightarrow> 1 \<le> s \<and> s \<le> MaxInt64 - 63)"

definition item_values :: "int \<Rightarrow> int \<Rightarrow> bool \<Rightarrow> item \<Rightarrow> int set" where
  "item_values lo hi w it =
     (let (a, b) = range_bounds lo hi (fst it)
      in part_values a b (case snd it of None \<Rightarrow> 1 | Some s \<Rightarrow> s) w)"

lemma set_itoa: "c \<in> set (itoa i) \<Longrightarrow> 0 \<le> i \<Longrightarrow> 48 \<le> (of_char c :: int) \<and> (of_char c :: int) \<le> 57"
  using digits_no_char[of c i] by (force simp: itoa_def)

lemma set_print_item:
  assumes "item_ok lo hi it" "0 \<le> lo" "c \<in> set (print_item it)"
  shows "c \<in> {CHR ''*'', CHR ''-'', CHR ''/''} \<or> 48 \<le> (of_char c :: int) \<and> (of_char c :: int) \<le> 57"
  using assms set_itoa[of c]
  by (cases "fst it") (auto simp: print_item_def item_ok_def Let_def split: option.splits)

lemma set_print_range:
  assumes "item_ok lo hi it" "0 \<le> lo"
  shows "CHR ''/'' \<notin> set (print_range (fst it))"
proof -
  have "CHR ''/'' \<notin> set (itoa i)" if "0 \<le> i" for i using set_itoa[of "CHR ''/''" i] that by auto
  then show ?thesis using assms by (cases "fst it") (auto simp: item_ok_def)
qed

lemma itoa_not_Nil [simp]: "itoa i \<noteq> []"
  by (simp add: itoa_def)

lemma parseRange_print:
  assumes "item_ok lo hi it" "0 \<le> lo" "hi \<le> 63"
  shows "parseRange (print_range (fst it)) lo hi = Returns (range_bounds lo hi (fst it))"
proof -
  have atoi: "atoi (itoa a) = Some a" if "0 \<le> a" "a \<le> 63" for a
    using that by (intro atoi_itoa) (auto simp: MaxInt64_def)
  have no_dash: "CHR ''-'' \<notin> set (itoa a)" if "0 \<le> a" for a
    using set_itoa[of "CHR ''-''" a] that by auto
  have not_star: "itoa a \<noteq> ''*''" "itoa a @ xs \<noteq> ''*''" if "0 \<le> a" for a xs
    using set_itoa[of "CHR ''*''" a] that itoa_not_Nil[of a] by (cases "itoa a"; auto)+
  show ?thesis
  proof (cases "fst it")
    case Star
    then show ?thesis by (simp add: parseRange_def)
  next
    case (One a)
    then have "0 \<le> a" "lo \<le> a" "a \<le> hi" using assms by (auto simp: item_ok_def)
    then show ?thesis
      using One assms by (simp add: parseRange_def atoi cut_none[OF no_dash] not_star)
  next
    case (Span a b)
    then have "0 \<le> a" "lo \<le> a" "a \<le> b" "b \<le> hi" using assms by (auto simp: item_ok_def)
    then show ?thesis
      using Span assms cut_found[OF no_dash, of a "itoa b"] by (simp add: parseRange_def atoi not_star)
  qed
qed

lemma addPart_print:
  assumes ok: "item_ok lo hi it" and "0 \<le> lo" "hi \<le> 63"
  shows "\<exists>f'. addPart f (print_item it) lo hi w = Some (Returns f') \<and>
    (\<forall>v. has f' v \<longleftrightarrow> has f v \<or> v \<in> item_values lo hi w it)"
proof -
  obtain a b where r: "range_bounds lo hi (fst it) = (a, b)" by fastforce
  then have ab: "0 \<le> a" "b \<le> 63" using assms by (auto simp: item_ok_def)
  define s where "s = (case snd it of None \<Rightarrow> 1 | Some s \<Rightarrow> s)"
  have s: "0 < s" "s \<le> MaxInt64 - 63" using ok by (auto simp: s_def item_ok_def MaxInt64_def split: option.splits)
  note slash = set_print_range[OF ok assms(2)]
  have "addPart f (print_item it) lo hi w = addBits f a b s w"
  proof (cases "snd it")
    case None
    then show ?thesis
      using cut_none[OF slash] parseRange_print[OF assms]
      by (simp add: addPart_def print_item_def s_def r)
  next
    case (Some n)
    then have "atoi (itoa n) = Some n" using s by (intro atoi_itoa) (auto simp: s_def MaxInt64_def)
    then show ?thesis
      using Some cut_found[OF slash, of "itoa n"] parseRange_print[OF assms] s
      by (simp add: addPart_def print_item_def s_def r)
  qed
  then show ?thesis
    using addBits_values[OF ab(1,2) s, of f w] by (simp add: item_values_def r s_def)
qed

lemma print_item_not_Nil: "print_item it \<noteq> []"
  by (cases "fst it") (auto simp: print_item_def)

lemma addParts_print:
  assumes "\<forall>it \<in> set items. item_ok lo hi it" "0 \<le> lo" "hi \<le> 63"
  shows "\<exists>f'. addParts f (map print_item items) lo hi w = Some (Returns f') \<and>
    (\<forall>v. has f' v \<longleftrightarrow> has f v \<or> (\<exists>it \<in> set items. v \<in> item_values lo hi w it))"
  using assms(1)
proof (induction items arbitrary: f)
  case (Cons it items)
  obtain f1 where f1: "addPart f (print_item it) lo hi w = Some (Returns f1)"
    "\<forall>v. has f1 v \<longleftrightarrow> has f v \<or> v \<in> item_values lo hi w it"
    using addPart_print[of lo hi it f w] Cons.prems assms by auto
  obtain f2 where "addParts f1 (map print_item items) lo hi w = Some (Returns f2)"
    "\<forall>v. has f2 v \<longleftrightarrow> has f1 v \<or> (\<exists>it \<in> set items. v \<in> item_values lo hi w it)"
    using Cons.IH[of f1] Cons.prems by auto
  then show ?case using f1 by (auto simp: print_item_not_Nil)
qed simp

lemma item_values_start:
  assumes "item_ok lo hi it" "0 \<le> lo" "hi \<le> 63"
  obtains v where "v \<in> item_values lo hi w it" "0 \<le> v" "v \<le> 63"
proof -
  obtain a b where r: "range_bounds lo hi (fst it) = (a, b)" by fastforce
  then have "lo \<le> a" "a \<le> b" "b \<le> hi" using assms by (auto simp: item_ok_def)
  then have "(if w \<and> a = 7 then 0 else a) \<in> item_values lo hi w it" "0 \<le> a" "a \<le> 63"
    using assms by (auto simp: item_values_def r part_values_def)
  then show thesis by (intro that[of "if w \<and> a = 7 then 0 else a"]) auto
qed

lemma parseField_print:
  assumes ok: "\<forall>it \<in> set items. item_ok lo hi it" and "items \<noteq> []" "0 \<le> lo" "hi \<le> 63"
  shows "\<exists>f. parseField (print_field items) lo hi w = Some (Returns f) \<and>
    (\<forall>v. has f v \<longleftrightarrow> (\<exists>it \<in> set items. v \<in> item_values lo hi w it))"
proof -
  have "CHR '','' \<notin> set (print_item it)" if "it \<in> set items" for it
    using set_print_item[of lo hi it "CHR '',''"] ok assms(3) that by auto
  then have split: "split_on CHR '','' (print_field items) = map print_item items"
    unfolding print_field_def using assms(2) by (intro split_on_join) auto
  have ne: "print_field items \<noteq> []"
  proof
    assume "print_field items = []"
    then have "map print_item items = [[]]" using split by simp
    then show False by (cases items) (simp_all add: print_item_not_Nil)
  qed
  obtain f where f: "addParts 0 (map print_item items) lo hi w = Some (Returns f)"
    "\<forall>v. has f v \<longleftrightarrow> (\<exists>it \<in> set items. v \<in> item_values lo hi w it)"
    using addParts_print[OF ok assms(3,4), of 0 w] by auto
  have "hd items \<in> set items" using assms(2) by simp
  then have "f \<noteq> 0"
    using f(2) item_values_start[of lo hi "hd items" w] ok assms(3,4) has_0 by metis
  then show ?thesis using f split ne by (auto simp: parseField_def)
qed

text \<open>The five fields of a specification.\<close>

definition print_spec :: "item list list \<Rightarrow> string" where
  "print_spec fs = join '' '' (map print_field fs)"

definition field_bounds :: "(int \<times> int \<times> bool) list" where
  "field_bounds = [(0, 59, False), (0, 23, False), (1, 31, False), (1, 12, False), (0, 7, True)]"

definition items_ok :: "int \<times> int \<times> bool \<Rightarrow> item list \<Rightarrow> bool" where
  "items_ok b items \<longleftrightarrow> items \<noteq> [] \<and> (\<forall>it \<in> set items. item_ok (fst b) (fst (snd b)) it)"

definition means :: "field \<Rightarrow> int \<times> int \<times> bool \<Rightarrow> item list \<Rightarrow> bool" where
  "means f b items \<longleftrightarrow>
     (\<forall>v. has f v \<longleftrightarrow> (\<exists>it \<in> set items. v \<in> item_values (fst b) (fst (snd b)) (snd (snd b)) it))"

lemma join_not_Nil: "ws \<noteq> [] \<Longrightarrow> hd ws \<noteq> [] \<Longrightarrow> join sep ws \<noteq> []"
  by (induction sep ws rule: join.induct) auto

lemma hd_join: "ws \<noteq> [] \<Longrightarrow> hd ws \<noteq> [] \<Longrightarrow> hd (join sep ws) = hd (hd ws)"
  by (induction sep ws rule: join.induct) auto

lemma set_join: "c \<in> set (join sep ws) \<Longrightarrow> c \<in> set sep \<or> (\<exists>w \<in> set ws. c \<in> set w)"
  by (induction sep ws rule: join.induct) auto

lemma print_field_word:
  assumes "\<forall>it \<in> set items. item_ok lo hi it" "items \<noteq> []" "0 \<le> lo"
  shows "print_field items \<noteq> []" "print_field items \<noteq> ''@every''" "c \<in> set (print_field items) \<Longrightarrow> \<not> is_space c"
proof -
  have ne: "print_item (hd items) \<noteq> []" by (rule print_item_not_Nil)
  show "print_field items \<noteq> []"
    unfolding print_field_def using assms(2) ne by (intro join_not_Nil) (auto simp: hd_map)
  have "hd (print_field items) = hd (print_item (hd items))"
    unfolding print_field_def using assms(2) ne by (subst hd_join) (auto simp: hd_map)
  moreover have "hd (print_item (hd items)) \<in> set (print_item (hd items))" using ne by simp
  moreover have "hd items \<in> set items" using assms(2) by simp
  ultimately have "hd (print_field items) \<noteq> CHR ''@''"
    using set_print_item[of lo hi "hd items" "CHR ''@''"] assms(1,3) by auto
  then show "print_field items \<noteq> ''@every''" by auto
  show "\<not> is_space c" if "c \<in> set (print_field items)"
  proof -
    have "c = CHR '','' \<or> (\<exists>it \<in> set items. c \<in> set (print_item it))"
      using set_join[OF that[unfolded print_field_def]] by auto
    then have "c \<in> {CHR '','', CHR ''*'', CHR ''-'', CHR ''/''} \<or> 48 \<le> (of_char c :: int) \<and> (of_char c :: int) \<le> 57"
      using set_print_item[of lo hi _ c] assms(1,3) by blast
    then show ?thesis by (auto simp: is_space_def)
  qed
qed

lemma strings_Fields_print_spec:
  assumes "list_all2 items_ok field_bounds fs"
  shows "strings_Fields (print_spec fs) = map print_field fs" "length fs = 5"
    "hd (map print_field fs) \<noteq> ''@every''"
proof -
  obtain a b c d e where fs: "fs = [a, b, c, d, e]" and
    ok: "items_ok (0, 59, False) a" "items_ok (0, 23, False) b" "items_ok (1, 31, False) c"
      "items_ok (1, 12, False) d" "items_ok (0, 7, True) e"
    using assms by (auto simp: field_bounds_def list_all2_Cons1)
  have "print_field w \<noteq> [] \<and> (\<forall>x \<in> set (print_field w). \<not> is_space x) \<and> print_field w \<noteq> ''@every''"
    if "items_ok (lo, hi, w7) w" "0 \<le> lo" for lo hi w7 w
    using that print_field_word[of w lo hi] by (simp add: items_ok_def)
  note this[OF ok(1)] this[OF ok(2)] this[OF ok(3)] this[OF ok(4)] this[OF ok(5)]
  then have word: "print_field w \<noteq> [] \<and> (\<forall>x \<in> set (print_field w). \<not> is_space x) \<and> print_field w \<noteq> ''@every''"
    if "w \<in> set fs" for w
    using that unfolding fs by (simp only: list.set insert_iff empty_iff) (elim disjE, simp_all)
  then show "strings_Fields (print_spec fs) = map print_field fs"
    unfolding print_spec_def by (intro strings_Fields_join) auto
  show "length fs = 5" by (simp add: fs)
  show "hd (map print_field fs) \<noteq> ''@every''" using word by (simp add: fs)
qed

lemma ParseIn_print_spec:
  assumes "list_all2 items_ok field_bounds fs"
  shows "\<exists>s. ParseIn (print_spec fs) (Some loc) = Some (Returns (CronSchedule s)) \<and>
    list_all2 (\<lambda>f (b, items). means f b items)
      [cs_minute s, cs_hour s, cs_dom s, cs_month s, cs_dow s] (zip field_bounds fs) \<and>
    cs_domStar s = (print_field (fs ! 2) = ''*'') \<and> cs_dowStar s = (print_field (fs ! 4) = ''*'') \<and>
    cs_loc s = loc"
proof -
  obtain a b c d e where fs: "fs = [a, b, c, d, e]" and
    ok: "items_ok (0, 59, False) a" "items_ok (0, 23, False) b" "items_ok (1, 31, False) c"
      "items_ok (1, 12, False) d" "items_ok (0, 7, True) e"
    using assms by (auto simp: field_bounds_def list_all2_Cons1)
  have parse: "\<exists>f. parseField (print_field w) lo hi w7 = Some (Returns f) \<and> means f (lo, hi, w7) w"
    if "items_ok (lo, hi, w7) w" "0 \<le> lo" "hi \<le> 63" for w lo hi w7
    using that parseField_print[of w lo hi w7] by (auto simp: items_ok_def means_def)
  obtain f1 f2 f3 f4 f5 where f:
    "parseField (print_field a) 0 59 False = Some (Returns f1)" "means f1 (0, 59, False) a"
    "parseField (print_field b) 0 23 False = Some (Returns f2)" "means f2 (0, 23, False) b"
    "parseField (print_field c) 1 31 False = Some (Returns f3)" "means f3 (1, 31, False) c"
    "parseField (print_field d) 1 12 False = Some (Returns f4)" "means f4 (1, 12, False) d"
    "parseField (print_field e) 0 7 True = Some (Returns f5)" "means f5 (0, 7, True) e"
    using parse[OF ok(1)] parse[OF ok(2)] parse[OF ok(3)] parse[OF ok(4)] parse[OF ok(5)] by auto
  have fields: "strings_Fields (print_spec fs) = map print_field [a, b, c, d, e]"
    "print_field a \<noteq> ''@every''"
    using strings_Fields_print_spec[OF assms] by (simp_all add: fs)
  show ?thesis
    unfolding ParseIn_def Let_def fields(1)
    using f fields(2) by (auto simp: and_then_def fs field_bounds_def)
qed

section \<open>The next instant\<close>

text \<open>
  A location whose clock is never set back, so that a reading determines the instant, and whose
  offsets are whole minutes that change on the minute.
\<close>

definition steady :: "location \<Rightarrow> bool" where
  "steady loc \<longleftrightarrow> loc_ok loc \<and> inj (wall loc) \<and>
     (\<forall>t. minute dvd offset_at loc t \<and> offset_at loc (t - t mod minute) = offset_at loc t)"

lemma steady_UTC: "steady UTC"
  by (simp add: steady_def loc_ok_UTC inj_def) (simp add: UTC_def)

lemma dvd_mod_add: "k dvd a \<Longrightarrow> (t + a) mod k = t mod k" for k a t :: int
  by (auto elim!: dvdE)

lemma date_at_minute:
  assumes "steady loc"
  shows "date_at loc (wall loc t - wall loc t mod minute) = t - t mod minute"
proof -
  define u where "u = t - t mod minute"
  have "wall loc u = wall loc t - wall loc t mod minute"
    using assms dvd_mod_add[of minute "offset_at loc t" t] by (simp add: u_def wall_def steady_def)
  moreover have "wall loc (date_at loc (wall loc u)) = wall loc u"
    using assms by (simp add: steady_def loc_ok_def)
  then have "date_at loc (wall loc u) = u" using assms by (simp add: steady_def inj_eq)
  ultimately show ?thesis by (simp add: u_def)
qed

lemma wall_minute:
  "days_of_date (Year w) (Month w) (Day w) * day_ns + Hour w * 3600000000000 + Minute w * minute =
     w - w mod minute"
proof -
  have "w mod minute = second * Second w + Nanosecond w"
    using zmod_zmult2_eq[of 60 w second] unfolding wall_defs by (simp only: mult_days)
  then show ?thesis using wall_from_fields[of w] by (simp only: ac_simps add_diff_cancel_left' diff_add_eq)
qed

lemma scan_spec:
  "(scan s k t = 0 \<and> (\<forall>j. 0 \<le> j \<and> j < k \<longrightarrow> \<not> matches s (t + j * minute))) \<or>
   (\<exists>j. 0 \<le> j \<and> j < k \<and> scan s k t = t + j * minute \<and> matches s (t + j * minute) \<and>
     (\<forall>i. 0 \<le> i \<and> i < j \<longrightarrow> \<not> matches s (t + i * minute)))"
proof (induction s k t rule: scan.induct)
  case (1 s k t)
  show ?case
  proof (cases "k \<le> 0 \<or> matches s t")
    case True
    then show ?thesis by (auto simp: scan.simps[of s k] intro!: exI[of _ 0])
  next
    case False
    then have eq: "scan s k t = scan s (k - 1) (t + minute)" by (simp add: scan.simps[of s k])
    have shift: "(\<forall>i. 0 \<le> i \<and> i < j + 1 \<longrightarrow> \<not> matches s (t + i * minute)) \<longleftrightarrow>
        (\<forall>i. 0 \<le> i \<and> i < j \<longrightarrow> \<not> matches s (t + minute + i * minute))" for j
    proof
      assume L: "\<forall>i. 0 \<le> i \<and> i < j + 1 \<longrightarrow> \<not> matches s (t + i * minute)"
      show "\<forall>i. 0 \<le> i \<and> i < j \<longrightarrow> \<not> matches s (t + minute + i * minute)"
      proof (intro allI impI)
        fix i assume "0 \<le> i \<and> i < j"
        then show "\<not> matches s (t + minute + i * minute)" using L[rule_format, of "i + 1"] by (simp add: algebra_simps)
      qed
    next
      assume R: "\<forall>i. 0 \<le> i \<and> i < j \<longrightarrow> \<not> matches s (t + minute + i * minute)"
      show "\<forall>i. 0 \<le> i \<and> i < j + 1 \<longrightarrow> \<not> matches s (t + i * minute)"
      proof (intro allI impI)
        fix i assume i: "0 \<le> i \<and> i < j + 1"
        show "\<not> matches s (t + i * minute)"
        proof (cases "i = 0")
          case True
          then show ?thesis using False by simp
        next
          case False
          then show ?thesis using R[rule_format, of "i - 1"] i by (simp add: algebra_simps)
        qed
      qed
    qed
    from 1 False consider
      "scan s (k - 1) (t + minute) = 0" "\<forall>j. 0 \<le> j \<and> j < k - 1 \<longrightarrow> \<not> matches s (t + minute + j * minute)"
      | j where "0 \<le> j" "j < k - 1" "scan s (k - 1) (t + minute) = t + minute + j * minute"
        "matches s (t + minute + j * minute)" "\<forall>i. 0 \<le> i \<and> i < j \<longrightarrow> \<not> matches s (t + minute + i * minute)"
      by auto
    then show ?thesis
    proof cases
      case 1
      then show ?thesis using eq shift[of "k - 1"] by simp
    next
      case (2 j)
      then show ?thesis
        using eq shift[of j] by (intro disjI2 exI[of _ "j + 1"]) (simp add: distrib_right algebra_simps)
    qed
  qed
qed

lemma minute_after:
  assumes "t < u" "minute dvd u"
  obtains j where "0 \<le> j" "u = t - t mod minute + minute + j * minute"
proof -
  define m where "m = t div minute"
  obtain c where u: "u = minute * c" using assms(2) by (elim dvdE)
  have "t - t mod minute = minute * m" by (simp add: m_def minus_mod_eq_mult_div)
  moreover have "m < c"
  proof (rule ccontr)
    assume "\<not> m < c"
    then have "minute * c \<le> minute * m" by simp
    also have "\<dots> \<le> t" using div_bounds(1)[of minute t] by (simp add: m_def)
    finally show False using assms(1) u by simp
  qed
  ultimately show thesis using u by (intro that[of "c - m - 1"]) (auto simp: algebra_simps)
qed

lemma trunc_bounds: "t - t mod minute \<le> t" "t < t - t mod minute + minute" "minute dvd t - t mod minute" for t :: int
  using pos_mod_bound[of minute t] pos_mod_sign[of minute t] by (simp_all add: minus_mod_eq_mult_div)

lemma cron_Next_scan:
  assumes "steady (cs_loc s)"
  shows "cron_Next s t = scan s maxScanMinutes (t - t mod minute + minute)"
  unfolding cron_Next_def Let_def wall_minute date_at_minute[OF assms] ..

lemma cron_Next_facts:
  assumes "steady (cs_loc s)"
  shows "cron_Next s t = 0 \<and>
      (\<forall>u. t < u \<and> u \<le> t - t mod minute + maxScanMinutes * minute \<and> minute dvd u \<longrightarrow> \<not> matches s u) \<or>
    t < cron_Next s t \<and> minute dvd cron_Next s t \<and> matches s (cron_Next s t) \<and>
      (\<forall>u. t < u \<and> u < cron_Next s t \<and> minute dvd u \<longrightarrow> \<not> matches s u)"
proof -
  let ?b = "t - t mod minute + minute"
  from scan_spec[of s maxScanMinutes ?b, folded cron_Next_scan[OF assms]] show ?thesis
  proof (elim disjE exE conjE)
    assume none: "cron_Next s t = 0" "\<forall>j. 0 \<le> j \<and> j < maxScanMinutes \<longrightarrow> \<not> matches s (?b + j * minute)"
    have "\<not> matches s u" if u: "t < u" "u \<le> t - t mod minute + maxScanMinutes * minute" "minute dvd u" for u
    proof -
      obtain j where j: "0 \<le> j" "u = ?b + j * minute" using minute_after[OF u(1,3)] by blast
      then have "(j + 1) * minute \<le> maxScanMinutes * minute" using u(2) by (simp add: distrib_right)
      then have "j < maxScanMinutes" by simp
      then show ?thesis using none(2) j by auto
    qed
    then show ?thesis using none(1) by blast
  next
    fix j
    assume j: "0 \<le> j" "j < maxScanMinutes" "cron_Next s t = ?b + j * minute" "matches s (?b + j * minute)"
      "\<forall>i. 0 \<le> i \<and> i < j \<longrightarrow> \<not> matches s (?b + i * minute)"
    have "\<not> matches s u" if u: "t < u" "u < ?b + j * minute" "minute dvd u" for u
    proof -
      obtain i where i: "0 \<le> i" "u = ?b + i * minute" using minute_after[OF u(1,3)] by blast
      then have "i * minute < j * minute" using u(2) by simp
      then show ?thesis using j(5) i by simp
    qed
    moreover have "t < ?b + j * minute" using trunc_bounds(2)[of t] j(1) by simp
    moreover have "minute dvd ?b + j * minute" using trunc_bounds(3)[of t] by simp
    ultimately show ?thesis using j(3,4) by simp
  qed
qed

text \<open>\<^verbatim>\<open>@every\<close>.\<close>

lemma every_Next_eq:
  assumes "0 < d"
  shows "every_Next d t = Some (t - t mod d + d)" "t < t - t mod d + d" "t - t mod d \<le> t" "d dvd t - t mod d + d"
proof -
  show "t < t - t mod d + d" "t - t mod d \<le> t"
    using pos_mod_bound[OF assms, of t] pos_mod_sign[OF assms, of t] by simp_all
  then show "every_Next d t = Some (t - t mod d + d)"
    unfolding every_Next_def by (subst every_loop.simps) simp
  show "d dvd t - t mod d + d" by (simp add: minus_mod_eq_mult_div)
qed

section \<open>What a parsed schedule looks like\<close>

lemma addBits_range:
  assumes "0 < step" "step \<le> MaxInt64" "0 \<le> start" "end \<le> 63"
    and "addBits bits start end step w = Some (Returns f)"
    and "\<And>v. has bits v \<Longrightarrow> P v" "\<And>u. start \<le> u \<Longrightarrow> u \<le> end \<Longrightarrow> P (if w \<and> u = 7 then 0 else u)"
    and "has f v"
  shows "P v"
  using assms
proof (induction "nat (end + 1 - start)" arbitrary: start bits rule: less_induct)
  case less
  show ?case
  proof (cases "end < start")
    case True
    then have "f = bits" using less.prems(5) by (simp add: addBits.simps[of bits])
    then show ?thesis using less.prems(6,8) by simp
  next
    case False
    define b where "b = (if w \<and> start = 7 then 0 else start)"
    have b: "0 \<le> b" "b \<le> 63" using less.prems False by (auto simp: b_def)
    have step: "addBits (bits OR 2 ^ nat b) (wrap64 (start + step)) end step w = Some (Returns f)"
      using False less.prems(3,5) by (auto simp: addBits.simps[of bits] Let_def b_def split: if_splits)
    show ?thesis
    proof (cases "start + step \<le> MaxInt64")
      case True
      then have eq: "wrap64 (start + step) = start + step"
        using less.prems by (intro wrap64_id) (auto simp: MaxInt64_def)
      have "P u" if "has (bits OR 2 ^ nat b) u" for u
        using that less.prems(6)[of u] less.prems(7)[of start] False b by (auto simp: has_or b_def)
      moreover have "P (if w \<and> u = 7 then 0 else u)" if "start + step \<le> u" "u \<le> end" for u
        using that less.prems(1) less.prems(7)[of u] by simp
      ultimately show ?thesis
        using less.hyps[of "start + step" "bits OR 2 ^ nat b"] step[unfolded eq] less.prems(1-4,8) False by simp
    next
      case over: False
      then have neg: "wrap64 (start + step) < 0"
        using less.prems False wrap64_over[of "start + step"] by (simp add: MaxInt64_def)
      have "addBits (bits OR 2 ^ nat b) (wrap64 (start + step)) end step w = Some Panics"
        using neg False less.prems by (subst addBits.simps) (simp add: Let_def)
      then show ?thesis using step by simp
    qed
  qed
qed

lemma addPart_range:
  assumes "addPart f part lo hi w = Some (Returns f')" "0 \<le> lo" "lo \<le> hi" "hi \<le> 63"
    and "\<And>v. has f v \<Longrightarrow> P v" "\<And>u. lo \<le> u \<Longrightarrow> u \<le> hi \<Longrightarrow> P (if w \<and> u = 7 then 0 else u)" "has f' v"
  shows "P v"
proof -
  obtain rangeTok stepTok stepped where c: "cut CHR ''/'' part = (rangeTok, stepTok, stepped)"
    by (cases "cut CHR ''/'' part") auto
  obtain step where step: "(if stepped then atoi stepTok else Some 1) = Some step" "0 < step"
    using assms(1) by (auto simp: addPart_def c split: option.splits if_splits)
  obtain start "end" where r: "parseRange rangeTok lo hi = Returns (start, end)"
    using assms(1) step by (auto simp: addPart_def c split: go_result.splits prod.splits)
  have "step \<le> MaxInt64" using step atoi_range[of stepTok] by (auto simp: MaxInt64_def split: if_splits)
  moreover have "addBits f start end step w = Some (Returns f')"
    using assms(1) step r by (simp add: addPart_def c)
  moreover have "lo \<le> start" "end \<le> hi" using parseRange_bounds[OF r assms(3)] by auto
  ultimately show ?thesis
    using addBits_range[of step start "end" f w f' P v] assms step(2) by fastforce
qed

lemma addParts_range:
  assumes "addParts f parts lo hi w = Some (Returns f')" "0 \<le> lo" "lo \<le> hi" "hi \<le> 63"
    and "\<And>v. has f v \<Longrightarrow> P v" and u: "\<And>u. lo \<le> u \<Longrightarrow> u \<le> hi \<Longrightarrow> P (if w \<and> u = 7 then 0 else u)"
    and "has f' v"
  shows "P v"
  using assms(1,5)
proof (induction parts arbitrary: f)
  case Nil
  then show ?case using assms(7) by simp
next
  case (Cons part parts)
  then obtain f1 where f1: "addPart f part lo hi w = Some (Returns f1)" "addParts f1 parts lo hi w = Some (Returns f')"
    by (auto split: if_splits option.splits go_result.splits)
  have "P v" if "has f1 v" for v
    using addPart_range[OF f1(1) assms(2-4), where P = P] Cons.prems(2) u that by blast
  then show ?case using Cons.IH[OF f1(2)] by blast
qed

lemma word_eq_0_has: "f \<noteq> 0 \<Longrightarrow> \<exists>v. has f v" for f :: field
proof (rule ccontr)
  assume "f \<noteq> 0" "\<not> (\<exists>v. has f v)"
  then have "\<not> bit f n" for n
    using has_iff[of f "int n"] bit_imp_le_length[of f n] by fastforce
  then show False using \<open>f \<noteq> 0\<close> by (simp add: bit_eq_iff)
qed

lemma parseField_range:
  assumes "parseField tok lo hi w = Some (Returns f)" "0 \<le> lo" "lo \<le> hi" "hi \<le> 63"
    and "\<And>u. lo \<le> u \<Longrightarrow> u \<le> hi \<Longrightarrow> P (if w \<and> u = 7 then 0 else u)"
  shows "(\<exists>v. has f v) \<and> (\<forall>v. has f v \<longrightarrow> P v)"
proof -
  have f: "addParts 0 (split_on CHR '','' tok) lo hi w = Some (Returns f)" "f \<noteq> 0"
    using assms(1) by (auto simp: parseField_def split: if_splits option.splits go_result.splits)
  show ?thesis
    using word_eq_0_has[OF f(2)] addParts_range[OF f(1) assms(2-4), where P = P] assms(5) has_0 by blast
qed

definition field_in :: "field \<Rightarrow> int \<Rightarrow> int \<Rightarrow> bool" where
  "field_in f lo hi \<longleftrightarrow> (\<exists>v. has f v) \<and> (\<forall>v. has f v \<longrightarrow> lo \<le> v \<and> v \<le> hi)"

text \<open>The type of a schedule: every field has a value and only values of its range, a period is
  positive.\<close>

fun schedule_ok :: "schedule \<Rightarrow> bool" where
  "schedule_ok (CronSchedule s) \<longleftrightarrow>
     field_in (cs_minute s) 0 59 \<and> field_in (cs_hour s) 0 23 \<and> field_in (cs_dom s) 1 31 \<and>
     field_in (cs_month s) 1 12 \<and> field_in (cs_dow s) 0 6"
| "schedule_ok (EverySchedule d) \<longleftrightarrow> 0 < d"

lemma and_then_Returns:
  "and_then r k = Some (Returns y) \<longleftrightarrow> (\<exists>x. r = Some (Returns x) \<and> k x = Some (Returns y))"
  by (auto simp: and_then_def split: option.splits go_result.splits)

lemma ParseIn_ok:
  assumes "ParseIn spec loc = Some (Returns sched)"
  shows "schedule_ok sched"
proof -
  have plain: "field_in f lo hi" if "parseField tok lo hi False = Some (Returns f)" "0 \<le> lo" "lo \<le> hi" "hi \<le> 63"
    for f tok lo hi
    using parseField_range[OF that, where P = "\<lambda>v. lo \<le> v \<and> v \<le> hi"] by (simp add: field_in_def)
  have dow: "field_in f 0 6" if "parseField tok 0 7 True = Some (Returns f)" for f tok
  proof -
    have u: "0 \<le> (if True \<and> u = 7 then 0 else u) \<and> (if True \<and> u = 7 then 0 else u) \<le> 6"
      if "0 \<le> u" "u \<le> 7" for u :: int using that by auto
    have "(\<exists>v. has f v) \<and> (\<forall>v. has f v \<longrightarrow> 0 \<le> v \<and> v \<le> 6)"
      by (rule parseField_range[OF that, where P = "\<lambda>v. 0 \<le> v \<and> v \<le> 6"]; (rule u)?) simp_all
    then show ?thesis unfolding field_in_def .
  qed
  have every: "schedule_ok sched" if "parseEvery fs = Returns sched" for fs
    using that by (auto simp: parseEvery_def split: if_splits option.splits)
  have fields: "parseField tok 0 59 False = Some (Returns f) \<Longrightarrow> field_in f 0 59"
    "parseField tok 0 23 False = Some (Returns f) \<Longrightarrow> field_in f 0 23"
    "parseField tok 1 31 False = Some (Returns f) \<Longrightarrow> field_in f 1 31"
    "parseField tok 1 12 False = Some (Returns f) \<Longrightarrow> field_in f 1 12" for tok f
    by (erule plain; simp)+
  show ?thesis
    using assms by (auto simp: ParseIn_def Let_def and_then_Returns dest: fields dow every split: if_splits)
qed

section \<open>Properties\<close>

text \<open>The parser is total and typed: on every specification and location it returns, with an
  error, a panic or a schedule, and a schedule has a value in each of its fields, only values of
  the range of that field (Sunday only as 0), and a positive period.\<close>

theorem ParseIn_terminates:
  "\<exists>r. ParseIn spec loc = Some r \<and> (case r of Returns sched \<Rightarrow> schedule_ok sched | _ \<Rightarrow> True)"
  using ParseIn_total[of spec loc] ParseIn_ok[of spec loc] by (auto split: go_result.splits)

text \<open>C25: reading what was written: a specification printed from five lists of ranges with
  optional steps, each within the bounds of its field, parses to the schedule whose fields hold
  exactly the values the ranges mean.\<close>

theorem ParseIn_roundtrip:
  assumes "list_all2 items_ok field_bounds fs"
  shows "\<exists>s. ParseIn (print_spec fs) (Some loc) = Some (Returns (CronSchedule s)) \<and>
    list_all2 (\<lambda>f (b, items). means f b items)
      [cs_minute s, cs_hour s, cs_dom s, cs_month s, cs_dow s] (zip field_bounds fs) \<and>
    cs_domStar s = (print_field (fs ! 2) = ''*'') \<and> cs_dowStar s = (print_field (fs ! 4) = ''*'') \<and>
    cs_loc s = loc"
  by (rule ParseIn_print_spec[OF assms])

theorem ParseIn_roundtrip_witness:
  "\<exists>s. ParseIn ''*/15 9-17 1 * 1-5'' (Some UTC) = Some (Returns (CronSchedule s)) \<and>
     has (cs_minute s) 30 \<and> \<not> has (cs_minute s) 31"
proof -
  let ?fs = "[[(Star, Some 15)], [(Span 9 17, None)], [(One 1, None)], [(Star, None)], [(Span 1 5, None)]]"
  have "list_all2 items_ok field_bounds ?fs"
    by (simp add: field_bounds_def items_ok_def item_ok_def MaxInt64_def)
  moreover have "print_spec ?fs = ''*/15 9-17 1 * 1-5''" by code_simp
  ultimately obtain s where "ParseIn ''*/15 9-17 1 * 1-5'' (Some UTC) = Some (Returns (CronSchedule s))"
    "means (cs_minute s) (0, 59, False) [(Star, Some 15)]"
    using ParseIn_roundtrip[of ?fs UTC] by (auto simp: field_bounds_def)
  then show ?thesis by (auto simp: means_def item_values_def part_values_def)
qed



definition demo_cron :: cron_schedule where
  "demo_cron = \<lparr>cs_minute = 2 ^ 15, cs_hour = 2 ^ 24 - 1, cs_dom = 2 ^ 32 - 2, cs_month = 2 ^ 13 - 2,
     cs_dow = 2 ^ 7 - 1, cs_domStar = True, cs_dowStar = True, cs_loc = UTC\<rparr>"


text \<open>January 1, 1970.\<close>

definition unix_epoch :: time where
  "unix_epoch = days_of_date 1970 1 1 * day_ns"

text \<open>C26: a periodic schedule fires at the next multiple of its period, strictly after the given
  instant, counted from the zero time of package time: for a period of seven hours that is never
  a multiple of the period from the Unix epoch on.\<close>

theorem every_Next_spec:
  "(0 < d \<longrightarrow> (\<exists>n. every_Next d t = Some n \<and> t < n \<and> n - d \<le> t \<and> d dvd n)) \<and>
   (\<forall>n. every_Next (7 * 3600 * second) t = Some n \<longrightarrow> \<not> (7 * 3600 * second) dvd (n - unix_epoch))"
proof
  show "0 < d \<longrightarrow> (\<exists>n. every_Next d t = Some n \<and> t < n \<and> n - d \<le> t \<and> d dvd n)"
    using every_Next_eq[of d t] by auto
  show "\<forall>n. every_Next (7 * 3600 * second) t = Some n \<longrightarrow> \<not> (7 * 3600 * second) dvd (n - unix_epoch)"
  proof (intro allI impI)
    fix n
    assume "every_Next (7 * 3600 * second) t = Some n"
    then have "7 * 3600 * second dvd n" using every_Next_eq[of "7 * 3600 * second" t] by simp
    moreover have "\<not> 7 * 3600 * second dvd unix_epoch" by code_simp
    ultimately show "\<not> (7 * 3600 * second) dvd (n - unix_epoch)"
      using dvd_diff[of "7 * 3600 * second" n "n - unix_epoch"] by auto
  qed
qed

theorem every_Next_spec_witness:
  "\<exists>n. every_Next second 5 = Some n \<and> 5 < n \<and> second dvd n \<and>
     (\<forall>m. every_Next (7 * 3600 * second) 5 = Some m \<longrightarrow> \<not> (7 * 3600 * second) dvd (m - unix_epoch))"
  using every_Next_spec[of second 5] by auto

section \<open>A clock that is set back\<close>

text \<open>
  New York in 2026: four hours behind UTC until 6:00 UTC on November 1, five hours behind from
  then on, so that the hour from 1:00 on happens twice. Of the two instants of such a reading
  \<^verbatim>\<open>time.Date\<close> picks the first, as the package does for offsets behind UTC.
\<close>

definition set_back :: time where
  "set_back = days_of_date 2026 11 1 * day_ns + 6 * 3600 * second"

definition new_york :: location where
  "new_york =
     \<lparr>offset_at = (\<lambda>t. if t < set_back then - 4 * 3600 * second else - 5 * 3600 * second),
      date_at = (\<lambda>w. if w + 4 * 3600 * second < set_back then w + 4 * 3600 * second
                     else w + 5 * 3600 * second)\<rparr>"

lemma new_york_ok: "loc_ok new_york"
  by (auto simp: loc_ok_def new_york_def wall_def)

end
