(* ===== verification/Contract.thy ===== *)
theory Contract
  imports PgRows
begin

text \<open>
  The driver as an interface: the methods a client calls, the laws it may rely on (the locale
  \<open>driver_contract\<close>), and the proof that both drivers fulfil them. The client's components
  are written over the methods and their lemmas are proved once, from the laws.
\<close>

section \<open>The interface\<close>

text \<open>
  The interface \<^verbatim>\<open>driver.Driver\<close>: one function per method on the state \<open>'s\<close> of the
  store. The first argument is what the call meets: the clock of the store, and for a database
  also locks and failures. The argument \<open>bool\<close> of the transactional inserts says whether the
  caller's value is a transaction of the driver's own kind.
\<close>

record ('e, 's) driver_ops =
  drv_Insert :: "'e \<Rightarrow> insert_params \<Rightarrow> 's \<Rightarrow> (driver_error + job_row) \<times> 's"
  drv_InsertTx :: "'e \<Rightarrow> bool \<Rightarrow> insert_params \<Rightarrow> 's \<Rightarrow> (driver_error + job_row) \<times> 's"
  drv_InsertMany :: "'e \<Rightarrow> insert_params list \<Rightarrow> 's \<Rightarrow> (driver_error + job_row list) \<times> 's"
  drv_InsertManyTx :: "'e \<Rightarrow> bool \<Rightarrow> insert_params list \<Rightarrow> 's \<Rightarrow> (driver_error + job_row list) \<times> 's"
  drv_FetchAvailable :: "'e \<Rightarrow> string \<Rightarrow> duration \<Rightarrow> int \<Rightarrow> 's \<Rightarrow> (driver_error + job_row list) \<times> 's"
  drv_FetchExpired :: "'e \<Rightarrow> duration \<Rightarrow> int \<Rightarrow> 's \<Rightarrow> (driver_error + job_row list) \<times> 's"
  drv_ExtendLeases :: "'e \<Rightarrow> lease list \<Rightarrow> duration \<Rightarrow> 's \<Rightarrow> (driver_error + unit) \<times> 's"
  drv_MarkCompleted :: "'e \<Rightarrow> lease \<Rightarrow> 's \<Rightarrow> (driver_error + unit) \<times> 's"
  drv_MarkRetryable :: "'e \<Rightarrow> lease \<Rightarrow> time \<Rightarrow> raw_message option \<Rightarrow> 's \<Rightarrow> (driver_error + unit) \<times> 's"
  drv_MarkDead :: "'e \<Rightarrow> lease \<Rightarrow> raw_message option \<Rightarrow> 's \<Rightarrow> (driver_error + unit) \<times> 's"
  drv_MarkCancelled :: "'e \<Rightarrow> lease \<Rightarrow> raw_message option \<Rightarrow> 's \<Rightarrow> (driver_error + unit) \<times> 's"
  drv_MarkSnoozed :: "'e \<Rightarrow> lease \<Rightarrow> time \<Rightarrow> 's \<Rightarrow> (driver_error + unit) \<times> 's"
  drv_Stats :: "'e \<Rightarrow> 's \<Rightarrow> (driver_error + stats) \<times> 's"
  drv_ListJobs :: "'e \<Rightarrow> list_params \<Rightarrow> 's \<Rightarrow> (driver_error + job_row list) \<times> 's"
  drv_GetJob :: "'e \<Rightarrow> int \<Rightarrow> 's \<Rightarrow> (driver_error + job_row) \<times> 's"
  drv_OperatorCancel :: "'e \<Rightarrow> int \<Rightarrow> 's \<Rightarrow> (driver_error + job_row) \<times> 's"
  drv_RedriveDead :: "'e \<Rightarrow> int \<Rightarrow> 's \<Rightarrow> (driver_error + job_row) \<times> 's"

text \<open>The two drivers. A call on the in-memory store meets only the clock.\<close>

definition mem_ops :: "(time, mem_store) driver_ops" where
  "mem_ops =
     \<lparr>drv_Insert = mem_Insert,
      drv_InsertTx = (\<lambda>now tx. mem_InsertTx),
      drv_InsertMany = mem_InsertMany,
      drv_InsertManyTx = (\<lambda>now tx. mem_InsertManyTx),
      drv_FetchAvailable = mem_FetchAvailable,
      drv_FetchExpired = mem_FetchExpired,
      drv_ExtendLeases = mem_ExtendLeases,
      drv_MarkCompleted = mem_MarkCompleted,
      drv_MarkRetryable = (\<lambda>now. mem_MarkRetryable),
      drv_MarkDead = mem_MarkDead,
      drv_MarkCancelled = mem_MarkCancelled,
      drv_MarkSnoozed = (\<lambda>now. mem_MarkSnoozed),
      drv_Stats = (\<lambda>now s. (Inr (mem_Stats now s), s)),
      drv_ListJobs = (\<lambda>now p s. (mem_ListJobs p s, s)),
      drv_GetJob = (\<lambda>now k s. (mem_GetJob k s, s)),
      drv_OperatorCancel = (\<lambda>now. mem_OperatorCancel no_gap now),
      drv_RedriveDead = (\<lambda>now. mem_RedriveDead no_gap now)\<rparr>"

definition pg_ops :: "pg_service \<Rightarrow> (sql_env, db_table) driver_ops" where
  "pg_ops svc =
     \<lparr>drv_Insert = pg_Insert svc alone,
      drv_InsertTx = pg_InsertTx svc alone,
      drv_InsertMany = pg_InsertMany svc,
      drv_InsertManyTx = pg_InsertManyTx svc alone,
      drv_FetchAvailable = pg_FetchAvailable svc alone,
      drv_FetchExpired = pg_FetchExpired svc alone,
      drv_ExtendLeases = pg_ExtendLeases svc alone,
      drv_MarkCompleted = pg_MarkCompleted alone,
      drv_MarkRetryable = pg_MarkRetryable svc alone,
      drv_MarkDead = pg_MarkDead svc alone,
      drv_MarkCancelled = pg_MarkCancelled svc alone,
      drv_MarkSnoozed = pg_MarkSnoozed svc alone,
      drv_Stats = pg_Stats alone,
      drv_ListJobs = pg_ListJobs alone,
      drv_GetJob = pg_GetJob alone,
      drv_OperatorCancel = pg_OperatorCancel alone,
      drv_RedriveDead = pg_RedriveDead alone\<rparr>"

section \<open>The contract\<close>

definition row_lease :: "job_row \<Rightarrow> lease" where
  "row_lease r = \<lparr>lease_ID = ID r, lease_Attempt = Attempt r\<rparr>"

text \<open>An outcome meets a specification: exactly, when nothing fails on the way; otherwise it may
  also be an error of the call itself that has done nothing or everything.\<close>

definition meets :: "bool \<Rightarrow> (driver_error + 'a) \<times> rows \<Rightarrow> rows \<Rightarrow> (driver_error + 'a) \<times> rows \<Rightarrow> bool" where
  "meets reliable_call spec m out \<longleftrightarrow> call_ok spec m out \<and> (reliable_call \<longrightarrow> out = spec)"

text \<open>A Mark that records an error: the store reads the detail, or refuses it and changes
  nothing.\<close>

definition meets_detail ::
  "bool \<Rightarrow> json option \<Rightarrow> (json \<Rightarrow> (driver_error + unit) \<times> rows) \<Rightarrow> rows \<Rightarrow> (driver_error + unit) \<times> rows \<Rightarrow> bool" where
  "meets_detail reliable_call j spec m out \<longleftrightarrow>
     (case j of
        None \<Rightarrow> (\<exists>msg. out = (Inl (ErrOther msg), m))
      | Some j \<Rightarrow> meets reliable_call (spec j) m out)"

definition fetched ::
  "bool \<Rightarrow> (job_row \<Rightarrow> bool) \<Rightarrow> (job_row \<Rightarrow> time) \<Rightarrow> (job_row \<Rightarrow> job_row) \<Rightarrow> int \<Rightarrow> rows \<Rightarrow>
   (driver_error + job_row list) \<times> rows \<Rightarrow> bool" where
  "fetched reliable_call keep key change n m out \<longleftrightarrow>
     (\<exists>picked got. picks keep key n m picked \<and> mset got = mset (map change picked) \<and>
        meets reliable_call (Inr got, change_rows change picked m) m out)"

text \<open>
  What a client may rely on. \<open>abs\<close> reads the rows off a state, \<open>inv\<close> is the invariant of
  the driver, \<open>reliable_call\<close> says that a call meets no failure, \<open>clock\<close> is the time the
  store reads in it, \<open>kept\<close> and \<open>span\<close> are an instant and a duration as the store keeps
  them, \<open>detail\<close> is an error object as the store reads it, \<open>visible\<close> says which rows a
  call can claim, \<open>lease_ok\<close> which leases it can name.
\<close>

locale driver_contract =
  fixes ops :: "('e, 's) driver_ops" and abs :: "'s \<Rightarrow> rows" and inv :: "'s \<Rightarrow> bool"
    and reliable_call :: "'e \<Rightarrow> bool" and clock :: "'e \<Rightarrow> time"
    and kept :: "time \<Rightarrow> time" and span :: "duration \<Rightarrow> duration" and detail :: "json \<Rightarrow> json option"
    and visible :: "'e \<Rightarrow> job_row \<Rightarrow> bool" and lease_ok :: "lease \<Rightarrow> bool"
  assumes stored_row: "inv s \<Longrightarrow> abs s k = Some r \<Longrightarrow> ID r = k \<and> row_wf r \<and> lease_ok (row_lease r)"
    and stored_finite: "inv s \<Longrightarrow> finite (dom (abs s))"
    and MarkCompleted: "inv s \<Longrightarrow> lease_ok l \<Longrightarrow> drv_MarkCompleted ops e l s = (res, s') \<Longrightarrow>
      inv s' \<and> meets (reliable_call e) (guarded l (completed_row (clock e)) (abs s)) (abs s) (res, abs s')"
    and MarkSnoozed: "inv s \<Longrightarrow> lease_ok l \<Longrightarrow> drv_MarkSnoozed ops e l u s = (res, s') \<Longrightarrow>
      inv s' \<and> meets (reliable_call e) (guarded l (snoozed_row (kept u)) (abs s)) (abs s) (res, abs s')"
    and MarkDead: "inv s \<Longrightarrow> lease_ok l \<Longrightarrow> drv_MarkDead ops e l (Some (Valid (JObj obj))) s = (res, s') \<Longrightarrow>
      inv s' \<and> meets_detail (reliable_call e) (detail (JObj obj))
        (\<lambda>j. guarded l (dead_row (clock e) j) (abs s)) (abs s) (res, abs s')"
    and MarkCancelled: "inv s \<Longrightarrow> lease_ok l \<Longrightarrow> drv_MarkCancelled ops e l (Some (Valid (JObj obj))) s = (res, s') \<Longrightarrow>
      inv s' \<and> meets_detail (reliable_call e) (detail (JObj obj))
        (\<lambda>j. guarded l (cancelled_row (clock e) j) (abs s)) (abs s) (res, abs s')"
    and MarkRetryable: "inv s \<Longrightarrow> lease_ok l \<Longrightarrow> drv_MarkRetryable ops e l u (Some (Valid (JObj obj))) s = (res, s') \<Longrightarrow>
      inv s' \<and> meets_detail (reliable_call e) (detail (JObj obj))
        (\<lambda>j. guarded l (retryable_row (kept u) j) (abs s)) (abs s) (res, abs s')"
    and FetchAvailable: "inv s \<Longrightarrow> 0 \<le> n \<Longrightarrow> n \<le> MaxInt32 \<Longrightarrow> drv_FetchAvailable ops e queue d n s = (got, s') \<Longrightarrow>
      inv s' \<and> fetched (reliable_call e \<and> (\<forall>k r. abs s k = Some r \<longrightarrow> Attempt r < MaxInt32))
        (\<lambda>r. due queue (clock e) r \<and> visible e r) ScheduledAt (claimRow (clock e) (span d)) n (abs s) (got, abs s')"
    and FetchExpired: "inv s \<Longrightarrow> 0 \<le> n \<Longrightarrow> n \<le> MaxInt32 \<Longrightarrow> drv_FetchExpired ops e d n s = (got, s') \<Longrightarrow>
      inv s' \<and> fetched (reliable_call e)
        (\<lambda>r. expired (clock e) r \<and> visible e r) byLeasedUntil (reclaimRow (clock e) (span d)) n (abs s) (got, abs s')"
    and ExtendLeases: "inv s \<Longrightarrow> \<forall>l \<in> set leases. lease_ok l \<Longrightarrow> drv_ExtendLeases ops e leases d s = (res, s') \<Longrightarrow>
      inv s' \<and> meets (reliable_call e) (Inr (), extended (clock e + span d) leases (abs s)) (abs s) (res, abs s')"

section \<open>The drivers fulfil the contract\<close>

lemma meets_exact: "out = spec \<Longrightarrow> meets b spec m out"
  by (simp add: meets_def call_ok_def)

lemma fetched_exact:
  "picks keep key n m picked \<Longrightarrow> out = (Inr (map change picked), change_rows change picked m) \<Longrightarrow>
   fetched b keep key change n m out"
  unfolding fetched_def by (intro exI[of _ picked] exI[of _ "map change picked"]) (auto intro!: meets_exact)

interpretation mem: driver_contract mem_ops row_of store_wf "\<lambda>_. True" "\<lambda>now. now" "\<lambda>t. t" "\<lambda>d. d" Some
  "\<lambda>_ _. True" "\<lambda>_. True"
proof (unfold_locales, goal_cases)
  case (1 s k r)
  then show ?case using store_wf_row by blast
next
  case (2 s)
  then show ?case by (simp add: finite_dom_map_of)
next
  case (3 s l e res s')
  then show ?case
    using marks_guarded(1)[of s e l] store_wf_marks(1)[of s e l] by (simp add: mem_ops_def meets_exact)
next
  case (4 s l e u res s')
  then show ?case
    using marks_guarded(5)[of s l u] store_wf_marks(5)[of s l u] by (simp add: mem_ops_def meets_exact)
next
  case (5 s l e obj res s')
  then show ?case
    using marks_guarded(2)[of s e l "JObj obj"] store_wf_marks(2)[of s e l "Some (Valid (JObj obj))"]
    by (simp add: mem_ops_def meets_detail_def meets_exact)
next
  case (6 s l e obj res s')
  then show ?case
    using marks_guarded(3)[of s e l "JObj obj"] store_wf_marks(3)[of s e l "Some (Valid (JObj obj))"]
    by (simp add: mem_ops_def meets_detail_def meets_exact)
next
  case (7 s l e u obj res s')
  then show ?case
    using marks_guarded(4)[of s l u "JObj obj"] store_wf_marks(4)[of s l u "Some (Valid (JObj obj))"]
    by (simp add: mem_ops_def meets_detail_def meets_exact)
next
  case (8 s n e queue d got s')
  have key: "byScheduledAt = ScheduledAt" by (simp add: byScheduledAt_def fun_eq_iff)
  show ?case
    by (rule mem_FetchAvailable_rows[OF 8(1), of e queue d n])
      (use 8 picks_limited[OF 8(1,2), of "due queue e" byScheduledAt] key
       in \<open>auto simp: mem_ops_def intro!: fetched_exact\<close>)
next
  case (9 s n e d got s')
  show ?case
    by (rule mem_FetchExpired_rows[OF 9(1), of e d n])
      (use 9 picks_limited[OF 9(1,2), of "expired e" byLeasedUntil]
       in \<open>auto simp: mem_ops_def intro!: fetched_exact\<close>)
next
  case (10 s leases e d res s')
  then show ?case
    using row_of_extendLoop[of "e + d" leases s] store_wf_extendLoop[of s "e + d" leases]
    by (auto simp: mem_ops_def mem_ExtendLeases_def intro!: meets_exact)
qed

text \<open>What the server is documented to do with the objects the client sends it: an object is read
  as an object, and appended to an array.\<close>

definition jsonb_objects :: "pg_service \<Rightarrow> bool" where
  "jsonb_objects svc \<longleftrightarrow> jsonb_appends svc \<and>
     (\<forall>obj j. jsonb_in svc (Valid (JObj obj)) = Some j \<longrightarrow> (\<exists>obj'. j = JObj obj'))"

lemma mark_refused:
  assumes "mark alone env what l stmt t = (res, t')" "stmt t = (Inl invalid_text, t)"
  shows "(\<exists>msg. res = Inl (ErrOther msg)) \<and> t' = t"
  using assms by (cases "se_fault env 0") (auto simp: mark_def run_stmt_def wrap_err_def)

lemma pg_error_marks_refused:
  assumes "jsonb_in svc raw = None"
  shows "pg_MarkDead svc alone env l (Some raw) t = (res, t') \<Longrightarrow> (\<exists>msg. res = Inl (ErrOther msg)) \<and> t' = t"
    and "pg_MarkCancelled svc alone env l (Some raw) t = (res, t') \<Longrightarrow> (\<exists>msg. res = Inl (ErrOther msg)) \<and> t' = t"
    and "pg_MarkRetryable svc alone env l u (Some raw) t = (res, t') \<Longrightarrow> (\<exists>msg. res = Inl (ErrOther msg)) \<and> t' = t"
  unfolding pg_MarkDead_def pg_MarkCancelled_def pg_MarkRetryable_def
  by (erule mark_refused; simp add: q_mark_defs with_error_def assms)+

lemma table_wf_row:
  "table_wf t \<Longrightarrow> db_abs t k = Some r \<Longrightarrow> ID r = k \<and> row_wf r \<and> Attempt r \<le> MaxInt32"
  by (auto simp: db_abs_def dest!: job_of_ok) (auto simp: job_ok_def rowFromDB_def int4_def)

lemma attempts_below:
  assumes "table_wf t" "\<forall>k r. db_abs t k = Some r \<longrightarrow> Attempt r < MaxInt32" "j \<in> set (db_rows t)"
  shows "db_Attempt j < MaxInt32"
proof -
  have "db_abs t (db_ID j) = Some (rowFromDB j)" using assms(1,3) by (auto simp: db_abs_def job_of_mem)
  then show ?thesis using assms(2) by (force simp: rowFromDB_def)
qed

text \<open>A Mark that records an error either refuses the detail or is the guarded update with it.\<close>

lemma detail_cases:
  assumes "jsonb_objects svc" "table_wf t"
    and refused: "jsonb_in svc (Valid (JObj obj)) = None \<Longrightarrow> (\<exists>msg. res = Inl (ErrOther msg)) \<and> t' = t"
    and recorded: "\<And>obj'. jsonb_in svc (Valid (JObj obj)) = Some (JObj obj') \<Longrightarrow>
      table_wf t' \<and> meets ok (spec (JObj obj')) (db_abs t) (res, db_abs t')"
  shows "table_wf t' \<and> meets_detail ok (jsonb_in svc (Valid (JObj obj))) spec (db_abs t) (res, db_abs t')"
proof (cases "jsonb_in svc (Valid (JObj obj))")
  case None
  then show ?thesis using refused assms(2) by (auto simp: meets_detail_def)
next
  case (Some j)
  then obtain obj' where "j = JObj obj'" using assms(1) by (auto simp: jsonb_objects_def)
  then show ?thesis using recorded[of obj'] Some by (simp add: meets_detail_def)
qed

lemma pg_contract:
  assumes svc: "jsonb_objects svc"
  shows "driver_contract (pg_ops svc) db_abs table_wf reliable (\<lambda>env. se_now env 0) (tstz svc)
    (make_interval svc) (\<lambda>j. jsonb_in svc (Valid j)) (\<lambda>env r. ID r \<notin> set (se_locked env))
    (\<lambda>l. lease_Attempt l \<le> MaxInt32)"
proof (unfold_locales, goal_cases)
  case (1 s k r)
  then show ?case using table_wf_row[of s k r] by (simp add: row_lease_def)
next
  case (2 s)
  then show ?case by (simp add: db_abs_def finite_dom_map_of dom_map_option_comp[unfolded comp_def])
next
  case (3 s l e res s')
  then show ?case
    using pg_MarkCompleted_guarded[of s l e res s'] by (simp add: pg_ops_def meets_def)
next
  case (4 s l e u res s')
  then show ?case
    using pg_MarkSnoozed_guarded[of s l svc e u res s'] by (simp add: pg_ops_def meets_def)
next
  case (5 s l e obj res s')
  show ?case
    by (rule detail_cases[OF svc 5(1)])
      (use pg_error_marks_refused(1)[of svc _ e l s res s'] pg_MarkDead_guarded[of s l svc "Valid (JObj obj)" _ e res s'] 5 svc
        in \<open>simp_all add: pg_ops_def meets_def jsonb_objects_def\<close>)
next
  case (6 s l e obj res s')
  show ?case
    by (rule detail_cases[OF svc 6(1)])
      (use pg_error_marks_refused(2)[of svc _ e l s res s'] pg_MarkCancelled_guarded[of s l svc "Valid (JObj obj)" _ e res s'] 6 svc
        in \<open>simp_all add: pg_ops_def meets_def jsonb_objects_def\<close>)
next
  case (7 s l e u obj res s')
  show ?case
    by (rule detail_cases[OF svc 7(1)])
      (use pg_error_marks_refused(3)[of svc _ e l u s res s'] pg_MarkRetryable_guarded[of s l svc "Valid (JObj obj)" _ e u res s'] 7 svc
        in \<open>simp_all add: pg_ops_def meets_def jsonb_objects_def\<close>)
next
  case (8 s n e queue d got s')
  then show ?case
    using pg_FetchAvailable_rows[of s n svc e queue d got s'] attempts_below[of s]
    by (force simp: pg_ops_def fetched_def meets_def Let_def)
next
  case (9 s n e d got s')
  then show ?case
    using pg_FetchExpired_rows[of s n svc e d got s']
    by (force simp: pg_ops_def fetched_def meets_def Let_def)
next
  case (10 s leases e d res s')
  then show ?case
    using pg_ExtendLeases_rows[of s leases svc e d res s'] by (simp add: pg_ops_def meets_def)
qed

end
