(* ===== verification/Worker.thy ===== *)
theory Worker
  imports Outcome
begin

text \<open>
  Executing one job: handlers and the chain of middleware around them
  (\<^verbatim>\<open>middleware.go\<close>), the metrics recorded on the way (\<^verbatim>\<open>metrics.go\<close>), the registry
  of workers (\<^verbatim>\<open>worker.go\<close>), and \<^verbatim>\<open>execute\<close> and \<^verbatim>\<open>dispatch\<close> of
  \<^verbatim>\<open>loop.go\<close>.
\<close>

section \<open>Metrics\<close>

text \<open>
  The collectors of one client, by label. Counters and gauges are numbers, a histogram is the list
  of its observations, a gauge vector knows only the series that were set and not deleted.
\<close>

record metric_set =
  m_completed :: "string \<Rightarrow> int"
  m_failed :: "string \<Rightarrow> int"
  m_duration :: "string \<Rightarrow> duration list"
  m_executing :: int
  m_concurrency :: int
  m_depth :: "string \<times> string \<Rightarrow> real option"
  m_oldestAge :: "string \<Rightarrow> real option"

definition newMetricSet :: "int \<Rightarrow> metric_set" where
  "newMetricSet concurrency =
     \<lparr>m_completed = (\<lambda>_. 0), m_failed = (\<lambda>_. 0), m_duration = (\<lambda>_. []), m_executing = 0,
      m_concurrency = concurrency, m_depth = (\<lambda>_. None), m_oldestAge = (\<lambda>_. None)\<rparr>"

text \<open>\<open>label_ok\<close> says which label values the metrics library accepts. A refused label is
  reported and costs the whole observation.\<close>

definition observeExecution ::
  "(string \<Rightarrow> bool) \<Rightarrow> string \<Rightarrow> duration \<Rightarrow> go_error option \<Rightarrow> metric_set \<Rightarrow> metric_set" where
  "observeExecution label_ok queue d err m =
     (if \<not> label_ok queue then m
      else
        let m1 = (case err of
              None \<Rightarrow> m\<lparr>m_completed := (m_completed m)(queue := m_completed m queue + 1)\<rparr>
            | Some _ \<Rightarrow> m\<lparr>m_failed := (m_failed m)(queue := m_failed m queue + 1)\<rparr>)
        in m1\<lparr>m_duration := (m_duration m1)(queue := m_duration m1 queue @ [d])\<rparr>)"

definition setDepth :: "(string \<Rightarrow> bool) \<Rightarrow> string \<Rightarrow> string \<Rightarrow> real \<Rightarrow> metric_set \<Rightarrow> metric_set" where
  "setDepth label_ok queue state n m =
     (if label_ok queue \<and> label_ok state then m\<lparr>m_depth := (m_depth m)((queue, state) \<mapsto> n)\<rparr> else m)"

definition setOldestAge :: "(string \<Rightarrow> bool) \<Rightarrow> string \<Rightarrow> real \<Rightarrow> metric_set \<Rightarrow> metric_set" where
  "setOldestAge label_ok queue seconds m =
     (if label_ok queue then m\<lparr>m_oldestAge := (m_oldestAge m)(queue \<mapsto> seconds)\<rparr> else m)"

definition deleteDepth :: "string \<Rightarrow> string \<Rightarrow> metric_set \<Rightarrow> metric_set" where
  "deleteDepth queue state m = m\<lparr>m_depth := (m_depth m)((queue, state) := None)\<rparr>"

definition deleteOldestAge :: "string \<Rightarrow> metric_set \<Rightarrow> metric_set" where
  "deleteOldestAge queue m = m\<lparr>m_oldestAge := (m_oldestAge m)(queue := None)\<rparr>"

section \<open>Handlers\<close>

text \<open>
  What a handler runs in: the clock, the log and the metrics of the client. A handler returns an
  error or nil, or panics with a value and a stack; the time it takes shows on the clock.
\<close>

datatype log_record =
    JobStarted int string string int
  | JobExecutionFailed int string string int duration go_error
  | JobExecutionFinished int string string int duration

record world =
  w_now :: time
  w_log :: "log_record list"
  w_metrics :: metric_set

datatype verdict = Verdict "go_error option" | Panicking string string

record go_context =
  ctx_deadline :: "time option"
  ctx_cancelled :: bool

type_synonym handler = "go_context \<Rightarrow> job_row \<Rightarrow> world \<Rightarrow> verdict \<times> world"

type_synonym middleware = "handler \<Rightarrow> handler"

text \<open>The loop of \<^verbatim>\<open>wrap\<close> walks the slice backwards.\<close>

fun wrap_back :: "handler \<Rightarrow> middleware list \<Rightarrow> handler" where
  "wrap_back h [] = h"
| "wrap_back h (mw # mws) = wrap_back (mw h) mws"

definition wrap :: "handler \<Rightarrow> middleware list \<Rightarrow> handler" where
  "wrap h mws = wrap_back h (rev mws)"

text \<open>\<^verbatim>\<open>context.WithTimeout\<close>: the earlier of the two deadlines.\<close>

definition WithTimeout :: "go_context \<Rightarrow> time \<Rightarrow> duration \<Rightarrow> go_context" where
  "WithTimeout ctx now d =
     ctx\<lparr>ctx_deadline := Some (case ctx_deadline ctx of None \<Rightarrow> now + d | Some u \<Rightarrow> min u (now + d))\<rparr>"

definition Timeout :: "duration \<Rightarrow> middleware" where
  "Timeout d nxt =
     (if d \<le> 0 then nxt
      else (\<lambda>ctx job w. nxt (WithTimeout ctx (w_now w) d) job w))"

definition Logging :: middleware where
  "Logging nxt ctx job w =
     (let start = w_now w;
          w1 = w\<lparr>w_log := w_log w @ [JobStarted (ID job) (Kind job) (Queue job) (Attempt job)]\<rparr>
      in case nxt ctx job w1 of
           (Panicking v st, w2) \<Rightarrow> (Panicking v st, w2)
         | (Verdict (Some err), w2) \<Rightarrow>
             (Verdict (Some err), w2\<lparr>w_log := w_log w2 @
                [JobExecutionFailed (ID job) (Kind job) (Queue job) (Attempt job) (w_now w2 - start) err]\<rparr>)
         | (Verdict None, w2) \<Rightarrow>
             (Verdict None, w2\<lparr>w_log := w_log w2 @
                [JobExecutionFinished (ID job) (Kind job) (Queue job) (Attempt job) (w_now w2 - start)]\<rparr>))"

definition add_executing :: "int \<Rightarrow> world \<Rightarrow> world" where
  "add_executing n w = w\<lparr>w_metrics := (w_metrics w)\<lparr>m_executing := m_executing (w_metrics w) + n\<rparr>\<rparr>"

text \<open>The deferred decrement runs when the frame returns and when a panic unwinds it.\<close>

definition metricsMiddleware :: "(string \<Rightarrow> bool) \<Rightarrow> middleware" where
  "metricsMiddleware label_ok nxt ctx job w =
     (let start = w_now w
      in case nxt ctx job (add_executing 1 w) of
           (Panicking v st, w2) \<Rightarrow> (Panicking v st, add_executing (- 1) w2)
         | (Verdict err, w2) \<Rightarrow>
             (Verdict err, add_executing (- 1)
                (w2\<lparr>w_metrics := observeExecution label_ok (Queue job) (w_now w2 - start) err (w_metrics w2)\<rparr>)))"

section \<open>The registry\<close>

type_synonym workers = "(string \<times> handler) list"

definition NewWorkers :: workers where
  "NewWorkers = []"

definition handler_of :: "workers \<Rightarrow> string \<Rightarrow> handler option" where
  "handler_of ws kind = map_of ws kind"

text \<open>A job as its worker sees it.\<close>

record 'a job =
  job_ID :: int
  job_Attempt :: int
  job_CreatedAt :: time
  job_Args :: 'a

text \<open>
  \<^verbatim>\<open>Register\<close> for a type of arguments: its kind, how package encoding/json decodes it (an
  error or the value), and the worker. Registering a kind twice panics.
\<close>

definition Register ::
  "string \<Rightarrow> (raw_message \<Rightarrow> string + 'a) \<Rightarrow> (go_context \<Rightarrow> 'a job \<Rightarrow> world \<Rightarrow> verdict \<times> world) \<Rightarrow>
   workers \<Rightarrow> workers go_result" where
  "Register kind decode work ws =
     (if handler_of ws kind \<noteq> None then Panics
      else Returns (AList.update kind (\<lambda>ctx row w.
        case decode (Args row) of
          Inl err \<Rightarrow> (Verdict (Some (Wrapf ''decode args for job'' [Text err])), w)
        | Inr args \<Rightarrow>
            work ctx \<lparr>job_ID = ID row, job_Attempt = Attempt row, job_CreatedAt = CreatedAt row, job_Args = args\<rparr> w) ws))"

section \<open>Executing a job\<close>

text \<open>The deferred function of \<^verbatim>\<open>execute\<close> and \<^verbatim>\<open>dispatch\<close>.\<close>

fun recovered :: "verdict \<times> world \<Rightarrow> verdict \<times> world" where
  "recovered (Panicking v st, w) = (Verdict (Some (PanicError v st)), w)"
| "recovered (Verdict err, w) = (Verdict err, w)"

definition dispatch :: "workers \<Rightarrow> handler" where
  "dispatch ws ctx job w =
     recovered (case handler_of ws (Kind job) of
       None \<Rightarrow> (Verdict (Some (Text ''no worker registered for kind'')), w)
     | Some fn \<Rightarrow> fn ctx job w)"

text \<open>The chain as the client composes it: logging outermost, then metrics, then the configured
  middleware.\<close>

definition chain :: "(string \<Rightarrow> bool) \<Rightarrow> workers \<Rightarrow> middleware list \<Rightarrow> handler" where
  "chain label_ok ws mws = wrap (dispatch ws) ([Logging, metricsMiddleware label_ok] @ mws)"

definition execute :: "handler \<Rightarrow> handler" where
  "execute ch ctx job w = recovered (ch ctx job w)"

section \<open>The chain\<close>

lemma wrap_simps [simp]: "wrap h [] = h" "wrap h (mw # mws) = mw (wrap h mws)"
proof -
  have "wrap_back h (mws @ [mw]) = mw (wrap_back h mws)" for mws h
    by (induction mws arbitrary: h) auto
  then show "wrap h [] = h" "wrap h (mw # mws) = mw (wrap h mws)" by (simp_all add: wrap_def)
qed

lemma recovered_verdict: "\<exists>err. recovered x = (Verdict err, snd x)"
  by (cases x rule: recovered.cases) auto

text \<open>The log and the metrics are the client's own: handlers, and what middleware makes of them,
  leave both alone.\<close>

definition own_work :: "handler \<Rightarrow> bool" where
  "own_work h \<longleftrightarrow> (\<forall>ctx job w. let w' = snd (h ctx job w) in w_log w' = w_log w \<and> w_metrics w' = w_metrics w)"

definition own_chain :: "workers \<Rightarrow> middleware list \<Rightarrow> bool" where
  "own_chain ws mws \<longleftrightarrow> (\<forall>(kind, h) \<in> set ws. own_work h) \<and> (\<forall>mw \<in> set mws. \<forall>h. own_work h \<longrightarrow> own_work (mw h))"

lemma own_dispatch: "\<forall>(kind, h) \<in> set ws. own_work h \<Longrightarrow> own_work (dispatch ws)"
proof -
  assume ws: "\<forall>(kind, h) \<in> set ws. own_work h"
  have "w_log (snd (dispatch ws ctx job w)) = w_log w \<and> w_metrics (snd (dispatch ws ctx job w)) = w_metrics w"
    for ctx job w
  proof (cases "handler_of ws (Kind job)")
    case None
    then show ?thesis by (simp add: dispatch_def)
  next
    case (Some fn)
    then have "own_work fn" using ws by (auto simp: handler_of_def dest: map_of_SomeD)
    moreover obtain err where "dispatch ws ctx job w = (Verdict err, snd (fn ctx job w))"
      using recovered_verdict[of "fn ctx job w"] Some by (auto simp: dispatch_def)
    ultimately show ?thesis by (simp add: own_work_def Let_def)
  qed
  then show ?thesis by (simp add: own_work_def Let_def)
qed

lemma own_wrap: "own_work h \<Longrightarrow> \<forall>mw \<in> set mws. \<forall>h. own_work h \<longrightarrow> own_work (mw h) \<Longrightarrow> own_work (wrap h mws)"
  by (induction mws) auto

text \<open>What the client's own two middlewares add around a handler.\<close>

lemma chain_step:
  assumes "own_work inner"
    and "inner ctx job (add_executing 1 (w\<lparr>w_log := w_log w @ [JobStarted (ID job) (Kind job) (Queue job) (Attempt job)]\<rparr>)) = (r, w2)"
  shows "Logging (metricsMiddleware label_ok inner) ctx job w =
    (r, case r of
       Panicking v st \<Rightarrow> w2\<lparr>w_log := w_log w @ [JobStarted (ID job) (Kind job) (Queue job) (Attempt job)], w_metrics := w_metrics w\<rparr>
     | Verdict err \<Rightarrow>
         w2\<lparr>w_log := w_log w @ [JobStarted (ID job) (Kind job) (Queue job) (Attempt job),
              (case err of
                 None \<Rightarrow> JobExecutionFinished (ID job) (Kind job) (Queue job) (Attempt job) (w_now w2 - w_now w)
               | Some e \<Rightarrow> JobExecutionFailed (ID job) (Kind job) (Queue job) (Attempt job) (w_now w2 - w_now w) e)],
            w_metrics := observeExecution label_ok (Queue job) (w_now w2 - w_now w) err (w_metrics w)\<rparr>)"
proof -
  let ?w1 = "add_executing 1 (w\<lparr>w_log := w_log w @ [JobStarted (ID job) (Kind job) (Queue job) (Attempt job)]\<rparr>)"
  have "w_log w2 = w_log ?w1" "w_metrics w2 = w_metrics ?w1"
    using assms(1)[unfolded own_work_def Let_def, rule_format, of ctx job ?w1] assms(2) by simp_all
  then have own: "w_log w2 = w_log w @ [JobStarted (ID job) (Kind job) (Queue job) (Attempt job)]"
    "w_metrics w2 = (w_metrics w)\<lparr>m_executing := m_executing (w_metrics w) + 1\<rparr>"
    by (simp_all add: add_executing_def)
  show ?thesis
  proof (cases r)
    case (Verdict err)
    then show ?thesis
      using assms(2) own
      by (cases err) (simp_all add: Logging_def metricsMiddleware_def Let_def add_executing_def observeExecution_def)
  next
    case (Panicking v st)
    then show ?thesis
      using assms(2) own by (simp add: Logging_def metricsMiddleware_def Let_def add_executing_def)
  qed
qed


definition demo_work :: handler where
  "demo_work ctx job w = (Panicking ''boom'' ''stack'', w\<lparr>w_now := w_now w + 5\<rparr>)"

definition demo_row :: job_row where
  "demo_row = \<lparr>ID = 7, Kind = ''email'', Queue = ''default'', Args = Valid (JObj []), State = Running,
     Attempt = 3, MaxAttempts = 25, Errors = Valid (JArr []), ScheduledAt = 1000, LeasedUntil = Some 9000,
     CreatedAt = 1000, FinalizedAt = None, UniqueKey = []\<rparr>"

definition demo_world :: world where
  "demo_world = \<lparr>w_now = 100, w_log = [], w_metrics = newMetricSet 4\<rparr>"


end
