(* ===== verification/Client.thy ===== *)
theory Client
  imports Contract Worker Queues Cron
begin

text \<open>
  The client as it is built and as it enqueues: the normalisation of its configuration and the
  inserts of \<^verbatim>\<open>client.go\<close>, and the check of periodic jobs of \<^verbatim>\<open>periodic.go\<close>.
\<close>

section \<open>Arguments of a job\<close>

text \<open>A value of type \<^verbatim>\<open>JobArgs\<close>: its kind, and what \<^verbatim>\<open>json.Marshal\<close> makes of it,
  an error or a message.\<close>

record job_args =
  ja_Kind :: string
  ja_Marshal :: "string + json"

record insert_opts =
  io_Queue :: string
  io_ScheduledAt :: time
  io_UniqueKey :: string

definition insertParamsFor :: "job_args option \<Rightarrow> insert_opts option \<Rightarrow> go_error + insert_params" where
  "insertParamsFor args opts =
     (case args of
        None \<Rightarrow> Inl (Sentinel ErrInvalidKind)
      | Some a \<Rightarrow>
          if ja_Kind a = [] then Inl (Sentinel ErrInvalidKind)
          else case ja_Marshal a of
            Inl err \<Rightarrow> Inl (Wrapf ''drover: marshal args for kind'' [Text err])
          | Inr encoded \<Rightarrow>
              let params = \<lparr>ip_Kind = ja_Kind a, ip_Queue = defaultQueue, ip_Args = Valid encoded,
                            ip_ScheduledAt = 0, ip_UniqueKey = []\<rparr>
              in case opts of
                   None \<Rightarrow> Inr params
                 | Some o' \<Rightarrow> Inr (params\<lparr>
                     ip_Queue := (if io_Queue o' \<noteq> [] then io_Queue o' else ip_Queue params),
                     ip_ScheduledAt := io_ScheduledAt o', ip_UniqueKey := io_UniqueKey o'\<rparr>))"

fun insertParamsForMany ::
  "(job_args option \<times> insert_opts option) list \<Rightarrow> go_error + insert_params list" where
  "insertParamsForMany [] = Inr []"
| "insertParamsForMany ((args, opts) # items) =
     (case insertParamsFor args opts of
        Inl err \<Rightarrow> Inl (Wrapf ''item'' [err])
      | Inr params \<Rightarrow>
          (case insertParamsForMany items of Inl err \<Rightarrow> Inl err | Inr batch \<Rightarrow> Inr (params # batch)))"

section \<open>Periodic jobs\<close>

record periodic_job =
  pj_ID :: string
  pj_Cron :: string
  pj_Args :: "job_args option"
  pj_Opts :: "insert_opts option"
  pj_Location :: "location option"

record periodic_entry =
  pe_job :: periodic_job
  pe_schedule :: schedule

text \<open>The loop, with the ids seen so far. Every check that fails panics; so does a panic of the
  parser.\<close>

fun checkPeriodic :: "string list \<Rightarrow> periodic_job list \<Rightarrow> periodic_entry list go_result option" where
  "checkPeriodic seen [] = Some (Returns [])"
| "checkPeriodic seen (job # rest) =
     (if pj_ID job = [] then Some Panics
      else if pj_ID job \<in> set seen then Some Panics
      else case pj_Args job of
        None \<Rightarrow> Some Panics
      | Some args \<Rightarrow>
          if ja_Kind args = [] then Some Panics
          else case ParseIn (pj_Cron job) (pj_Location job) of
            Some (Returns sched) \<Rightarrow>
              and_then (checkPeriodic (pj_ID job # seen) rest) (\<lambda>out.
                Some (Returns (\<lparr>pe_job = job, pe_schedule = sched\<rparr> # out)))
          | Some _ \<Rightarrow> Some Panics
          | None \<Rightarrow> None)"

definition checkedPeriodicJobs :: "periodic_job list \<Rightarrow> periodic_entry list go_result option" where
  "checkedPeriodicJobs pjs = checkPeriodic [] pjs"

section \<open>Building a client\<close>

definition defaultPollInterval :: duration where "defaultPollInterval = second"
definition defaultConcurrency :: int where "defaultConcurrency = 10"
definition heartbeatsPerLease :: int where "heartbeatsPerLease = 3"
definition minLeaseDuration :: duration where "minLeaseDuration = millisecond"
definition defaultStatsInterval :: duration where "defaultStatsInterval = 15 * second"

text \<open>\<open>cfg_registry_taken\<close> says that the configured metrics registry already holds the metrics
  of another client; a nil middleware is None.\<close>

record config =
  cfg_Workers :: "workers option"
  cfg_PollInterval :: duration
  cfg_NotifyWakeup :: bool
  cfg_RetryPolicy :: "retry_policy option"
  cfg_Middleware :: "middleware option list"
  cfg_Queues :: "(string \<times> int) list"
  cfg_Concurrency :: int
  cfg_LeaseDuration :: duration
  cfg_HeartbeatInterval :: duration
  cfg_RescueInterval :: duration
  cfg_registry_taken :: bool
  cfg_StatsInterval :: duration
  cfg_OpsAddr :: string
  cfg_PeriodicJobs :: "periodic_job list"

record client =
  c_pollInterval :: duration
  c_notifyWakeup :: bool
  c_retryPolicy :: "retry_policy option"
  c_leaseDuration :: duration
  c_heartbeatInterval :: duration
  c_rescueInterval :: duration
  c_concurrency :: int
  c_statsInterval :: duration
  c_opsAddr :: string
  c_queues :: "weighted_queue list"
  c_metrics :: metric_set
  c_chain :: handler
  c_periodic :: "periodic_entry list"

definition checkedMiddleware :: "middleware option list \<Rightarrow> middleware list go_result" where
  "checkedMiddleware mws = (if None \<in> set mws then Panics else Returns (map the mws))"

text \<open>The settled interval between heartbeats: the configured one, unless it would renew too late or
  is not set.\<close>

definition settledHeartbeat :: "duration \<Rightarrow> duration \<Rightarrow> duration" where
  "settledHeartbeat heartbeat lease =
     (let h = (if heartbeat \<ge> lease then 0 else heartbeat)
      in if h \<le> 0 then lease div heartbeatsPerLease else h)"

text \<open>
  \<^verbatim>\<open>newClient\<close>, with the default policy kept as None. \<open>label_ok\<close> is the metrics library's
  check of a label. The steps that can panic come in the order of the code: the queues, the
  registration of the metrics, the middleware, the periodic jobs.
\<close>

definition newClient :: "(string \<Rightarrow> bool) \<Rightarrow> config \<Rightarrow> client go_result option" where
  "newClient label_ok cfg =
     (let workers = (case cfg_Workers cfg of None \<Rightarrow> NewWorkers | Some ws \<Rightarrow> ws);
          poll = (if cfg_PollInterval cfg \<le> 0 then defaultPollInterval else cfg_PollInterval cfg);
          lease = (if cfg_LeaseDuration cfg < minLeaseDuration then DefaultLeaseDuration else cfg_LeaseDuration cfg);
          heartbeat = settledHeartbeat (cfg_HeartbeatInterval cfg) lease;
          rescue = (if cfg_RescueInterval cfg \<le> 0 then lease else cfg_RescueInterval cfg);
          concurrency = (if cfg_Concurrency cfg \<le> 0 then defaultConcurrency else cfg_Concurrency cfg);
          stats = (if cfg_StatsInterval cfg < 0 then defaultStatsInterval
                   else if cfg_StatsInterval cfg = 0 then defaultStatsInterval
                   else cfg_StatsInterval cfg)
      in case checkedQueues (cfg_Queues cfg) of
           None \<Rightarrow> Some Panics
         | Some queues \<Rightarrow>
             if cfg_registry_taken cfg then Some Panics
             else case checkedMiddleware (cfg_Middleware cfg) of
               Fails e \<Rightarrow> Some (Fails e)
             | Panics \<Rightarrow> Some Panics
             | Returns mws \<Rightarrow>
                 and_then (checkedPeriodicJobs (cfg_PeriodicJobs cfg)) (\<lambda>periodic.
                   Some (Returns
                     \<lparr>c_pollInterval = poll, c_notifyWakeup = cfg_NotifyWakeup cfg,
                      c_retryPolicy = cfg_RetryPolicy cfg, c_leaseDuration = lease,
                      c_heartbeatInterval = heartbeat, c_rescueInterval = rescue,
                      c_concurrency = concurrency, c_statsInterval = stats, c_opsAddr = cfg_OpsAddr cfg,
                      c_queues = queues, c_metrics = newMetricSet concurrency,
                      c_chain = chain label_ok workers mws, c_periodic = periodic\<rparr>)))"

section \<open>Enqueueing\<close>

text \<open>
  What an insert touches besides the store: the one-place channel that wakes the fetch loop, and
  the notifications sent to other processes. \<open>notifier\<close> says whether the driver can notify.
\<close>

record signals =
  wake :: bool
  notified :: nat

definition nudge :: "signals \<Rightarrow> signals" where
  "nudge sg = sg\<lparr>wake := True\<rparr>"

definition notify :: "bool \<Rightarrow> signals \<Rightarrow> signals" where
  "notify notifier sg = (if notifier then sg\<lparr>notified := notified sg + 1\<rparr> else sg)"

definition wakeAfterInsert :: "client \<Rightarrow> bool \<Rightarrow> signals \<Rightarrow> signals" where
  "wakeAfterInsert c notifier sg = (if c_notifyWakeup c then notify notifier (nudge sg) else sg)"

definition notifyTx :: "client \<Rightarrow> bool \<Rightarrow> signals \<Rightarrow> signals" where
  "notifyTx c notifier sg = (if c_notifyWakeup c then notify notifier sg else sg)"

fun driver_text :: "driver_error \<Rightarrow> string" where
  "driver_text ErrInvalidTransition = ''driver: invalid job state transition''"
| "driver_text ErrNotFound = ''driver: job not found''"
| "driver_text ErrTxUnsupported = ''driver: transactional insert not supported''"
| "driver_text ErrLeaseLost = ''driver: job reclaimed by another worker''"
| "driver_text ErrDuplicateJob = ''driver: job with this unique key already exists''"
| "driver_text (ErrOther msg) = msg"

definition publicInsertErr :: "driver_error \<Rightarrow> go_error" where
  "publicInsertErr err = (if err = ErrDuplicateJob then Sentinel DuplicateJob else Text (driver_text err))"

definition rowFromDriver :: "job_row \<Rightarrow> job_row" where
  "rowFromDriver row =
     \<lparr>ID = ID row, Kind = Kind row, Queue = Queue row, Args = Args row, State = State row,
      Attempt = Attempt row, MaxAttempts = MaxAttempts row, Errors = Errors row,
      ScheduledAt = ScheduledAt row, LeasedUntil = LeasedUntil row, CreatedAt = CreatedAt row,
      FinalizedAt = FinalizedAt row, UniqueKey = UniqueKey row\<rparr>"

definition rowsFromDriver :: "job_row list \<Rightarrow> job_row list" where
  "rowsFromDriver rows = map rowFromDriver rows"

definition c_Insert ::
  "('e, 's) driver_ops \<Rightarrow> client \<Rightarrow> bool \<Rightarrow> 'e \<Rightarrow> job_args option \<Rightarrow> insert_opts option \<Rightarrow> signals \<times> 's \<Rightarrow>
   (go_error + job_row) \<times> signals \<times> 's" where
  "c_Insert ops c notifier e args opts st =
     (case insertParamsFor args opts of
        Inl err \<Rightarrow> (Inl err, st)
      | Inr params \<Rightarrow>
          (case drv_Insert ops e params (snd st) of
             (Inl err, s') \<Rightarrow> (Inl (Wrapf ''drover: insert job kind'' [publicInsertErr err]), fst st, s')
           | (Inr row, s') \<Rightarrow> (Inr (rowFromDriver row), wakeAfterInsert c notifier (fst st), s')))"

definition c_InsertTx ::
  "('e, 's) driver_ops \<Rightarrow> client \<Rightarrow> bool \<Rightarrow> 'e \<Rightarrow> bool \<Rightarrow> job_args option \<Rightarrow> insert_opts option \<Rightarrow>
   signals \<times> 's \<Rightarrow> (go_error + job_row) \<times> signals \<times> 's" where
  "c_InsertTx ops c notifier e tx args opts st =
     (case insertParamsFor args opts of
        Inl err \<Rightarrow> (Inl err, st)
      | Inr params \<Rightarrow>
          (case drv_InsertTx ops e tx params (snd st) of
             (Inl err, s') \<Rightarrow> (Inl (Wrapf ''drover: insert job kind in tx'' [publicInsertErr err]), fst st, s')
           | (Inr row, s') \<Rightarrow> (Inr (rowFromDriver row), notifyTx c notifier (fst st), s')))"

definition c_InsertMany ::
  "('e, 's) driver_ops \<Rightarrow> client \<Rightarrow> bool \<Rightarrow> 'e \<Rightarrow> (job_args option \<times> insert_opts option) list \<Rightarrow>
   signals \<times> 's \<Rightarrow> (go_error + job_row list) \<times> signals \<times> 's" where
  "c_InsertMany ops c notifier e items st =
     (case insertParamsForMany items of
        Inl err \<Rightarrow> (Inl err, st)
      | Inr batch \<Rightarrow>
          if batch = [] then (Inr [], st)
          else case drv_InsertMany ops e batch (snd st) of
            (Inl err, s') \<Rightarrow> (Inl (Wrapf ''drover: insert jobs'' [publicInsertErr err]), fst st, s')
          | (Inr rows, s') \<Rightarrow> (Inr (rowsFromDriver rows), wakeAfterInsert c notifier (fst st), s'))"

definition c_InsertManyTx ::
  "('e, 's) driver_ops \<Rightarrow> client \<Rightarrow> bool \<Rightarrow> 'e \<Rightarrow> bool \<Rightarrow> (job_args option \<times> insert_opts option) list \<Rightarrow>
   signals \<times> 's \<Rightarrow> (go_error + job_row list) \<times> signals \<times> 's" where
  "c_InsertManyTx ops c notifier e tx items st =
     (case insertParamsForMany items of
        Inl err \<Rightarrow> (Inl err, st)
      | Inr batch \<Rightarrow>
          if batch = [] then (Inr [], st)
          else case drv_InsertManyTx ops e tx batch (snd st) of
            (Inl err, s') \<Rightarrow> (Inl (Wrapf ''drover: insert jobs in tx'' [publicInsertErr err]), fst st, s')
          | (Inr rows, s') \<Rightarrow> (Inr (rowsFromDriver rows), notifyTx c notifier (fst st), s'))"

section \<open>The configuration a client runs with\<close>

definition periodic_valid :: "periodic_job \<Rightarrow> bool" where
  "periodic_valid job \<longleftrightarrow> pj_ID job \<noteq> [] \<and> (\<exists>a. pj_Args job = Some a \<and> ja_Kind a \<noteq> []) \<and>
     (\<exists>sched. ParseIn (pj_Cron job) (pj_Location job) = Some (Returns sched))"

definition entry_of :: "periodic_job \<Rightarrow> periodic_entry" where
  "entry_of job =
     \<lparr>pe_job = job, pe_schedule =
        (case ParseIn (pj_Cron job) (pj_Location job) of Some (Returns sched) \<Rightarrow> sched)\<rparr>"

definition periodic_ok :: "periodic_job list \<Rightarrow> bool" where
  "periodic_ok pjs \<longleftrightarrow> (\<forall>job \<in> set pjs. periodic_valid job) \<and> distinct (map pj_ID pjs)"

lemma checkPeriodic_eq:
  "checkPeriodic seen pjs = Some
     (if periodic_ok pjs \<and> set (map pj_ID pjs) \<inter> set seen = {} then Returns (map entry_of pjs) else Panics)"
proof (induction pjs arbitrary: seen)
  case Nil
  then show ?case by (simp add: periodic_ok_def)
next
  case (Cons job pjs)
  show ?case
  proof (cases "periodic_valid job \<and> pj_ID job \<notin> set seen")
    case True
    then obtain a sched where "pj_Args job = Some a" "ja_Kind a \<noteq> []" "pj_ID job \<noteq> []"
      "ParseIn (pj_Cron job) (pj_Location job) = Some (Returns sched)"
      by (auto simp: periodic_valid_def)
    then show ?thesis
      using True by (auto simp: Cons.IH and_then_def periodic_ok_def entry_of_def)
  next
    case False
    obtain r where r: "ParseIn (pj_Cron job) (pj_Location job) = Some r" using ParseIn_total by blast
    have "checkPeriodic seen (job # pjs) = Some Panics"
      using False r by (cases r) (auto simp: periodic_valid_def split: option.split)
    then show ?thesis using False by (auto simp: periodic_ok_def)
  qed
qed

lemma settledHeartbeat:
  assumes "minLeaseDuration \<le> lease"
  shows "0 < settledHeartbeat h lease" "settledHeartbeat h lease < lease"
    "0 < h \<Longrightarrow> h < lease \<Longrightarrow> settledHeartbeat h lease = h"
  using assms by (auto simp: settledHeartbeat_def heartbeatsPerLease_def minLeaseDuration_def Let_def)

text \<open>What the loops of a client rely on.\<close>

definition client_ok :: "client \<Rightarrow> bool" where
  "client_ok c \<longleftrightarrow> 0 < c_pollInterval c \<and> minLeaseDuration \<le> c_leaseDuration c \<and>
     0 < c_heartbeatInterval c \<and> c_heartbeatInterval c < c_leaseDuration c \<and>
     0 < c_rescueInterval c \<and> 1 \<le> c_concurrency c \<and> 0 < c_statsInterval c \<and> queues_ok (c_queues c) \<and>
     distinct (map (\<lambda>e. pj_ID (pe_job e)) (c_periodic c)) \<and>
     (\<forall>e \<in> set (c_periodic c). periodic_valid (pe_job e) \<and> schedule_ok (pe_schedule e))"

lemma entries_ok:
  assumes "periodic_ok pjs"
  shows "distinct (map (\<lambda>e. pj_ID (pe_job e)) (map entry_of pjs))"
    "\<forall>e \<in> set (map entry_of pjs). periodic_valid (pe_job e) \<and> schedule_ok (pe_schedule e)"
proof -
  show "distinct (map (\<lambda>e. pj_ID (pe_job e)) (map entry_of pjs))"
    using assms by (simp add: periodic_ok_def entry_of_def comp_def)
  show "\<forall>e \<in> set (map entry_of pjs). periodic_valid (pe_job e) \<and> schedule_ok (pe_schedule e)"
    using assms ParseIn_ok by (auto simp: periodic_ok_def periodic_valid_def entry_of_def)
qed

lemma newClient_cases:
  assumes "distinct (map fst (cfg_Queues cfg))"
  shows "newClient label_ok cfg = Some (
    if [] \<in> fst ` set (cfg_Queues cfg) \<or> cfg_registry_taken cfg \<or> None \<in> set (cfg_Middleware cfg) \<or>
       \<not> periodic_ok (cfg_PeriodicJobs cfg)
    then Panics
    else let lease = (if cfg_LeaseDuration cfg < minLeaseDuration then DefaultLeaseDuration else cfg_LeaseDuration cfg);
             concurrency = (if cfg_Concurrency cfg \<le> 0 then defaultConcurrency else cfg_Concurrency cfg)
      in Returns
        \<lparr>c_pollInterval = (if cfg_PollInterval cfg \<le> 0 then defaultPollInterval else cfg_PollInterval cfg),
         c_notifyWakeup = cfg_NotifyWakeup cfg, c_retryPolicy = cfg_RetryPolicy cfg, c_leaseDuration = lease,
         c_heartbeatInterval = settledHeartbeat (cfg_HeartbeatInterval cfg) lease,
         c_rescueInterval = (if cfg_RescueInterval cfg \<le> 0 then lease else cfg_RescueInterval cfg),
         c_concurrency = concurrency,
         c_statsInterval = (if cfg_StatsInterval cfg \<le> 0 then defaultStatsInterval else cfg_StatsInterval cfg),
         c_opsAddr = cfg_OpsAddr cfg, c_queues = the (checkedQueues (cfg_Queues cfg)),
         c_metrics = newMetricSet concurrency,
         c_chain = chain label_ok (case cfg_Workers cfg of None \<Rightarrow> NewWorkers | Some ws \<Rightarrow> ws)
           (map the (cfg_Middleware cfg)),
         c_periodic = map entry_of (cfg_PeriodicJobs cfg)\<rparr>)"
proof (cases "checkedQueues (cfg_Queues cfg)")
  case None
  then show ?thesis using checkedQueues_facts(1)[OF assms] by (simp add: newClient_def)
next
  case (Some qs)
  then have "[] \<notin> fst ` set (cfg_Queues cfg)" using checkedQueues_facts(1)[OF assms] by auto
  then show ?thesis
    using Some by (simp add: newClient_def Let_def checkedMiddleware_def checkedPeriodicJobs_def
        checkPeriodic_eq and_then_def)
qed


definition demo_config :: config where
  "demo_config =
     \<lparr>cfg_Workers = None, cfg_PollInterval = 0, cfg_NotifyWakeup = True, cfg_RetryPolicy = None,
      cfg_Middleware = [], cfg_Queues = [], cfg_Concurrency = 3, cfg_LeaseDuration = 5 * second,
      cfg_HeartbeatInterval = 6 * second, cfg_RescueInterval = 0, cfg_registry_taken = False,
      cfg_StatsInterval = - 1, cfg_OpsAddr = [], cfg_PeriodicJobs = []\<rparr>"


definition demo_client :: client where
  "demo_client = (case newClient (\<lambda>_. True) demo_config of Some (Returns c) \<Rightarrow> c)"

lemma demo_client_wakes: "c_notifyWakeup demo_client"
  by (simp add: demo_client_def newClient_cases demo_config_def periodic_ok_def Let_def)

section \<open>What an insert does\<close>

lemma rowFromDriver_eq [simp]: "rowFromDriver r = r"
  by (simp add: rowFromDriver_def)

text \<open>The parameters an insert stands for.\<close>

definition params_of :: "job_args \<Rightarrow> json \<Rightarrow> insert_opts option \<Rightarrow> insert_params" where
  "params_of a encoded opts =
     \<lparr>ip_Kind = ja_Kind a,
      ip_Queue = (case opts of None \<Rightarrow> defaultQueue | Some x \<Rightarrow> if io_Queue x = [] then defaultQueue else io_Queue x),
      ip_Args = Valid encoded, ip_ScheduledAt = (case opts of None \<Rightarrow> 0 | Some x \<Rightarrow> io_ScheduledAt x),
      ip_UniqueKey = (case opts of None \<Rightarrow> [] | Some x \<Rightarrow> io_UniqueKey x)\<rparr>"

lemma insertParamsFor_eq:
  "insertParamsFor args opts =
     (case args of
        None \<Rightarrow> Inl (Sentinel ErrInvalidKind)
      | Some a \<Rightarrow>
          if ja_Kind a = [] then Inl (Sentinel ErrInvalidKind)
          else case ja_Marshal a of
            Inl err \<Rightarrow> Inl (Wrapf ''drover: marshal args for kind'' [Text err])
          | Inr encoded \<Rightarrow> Inr (params_of a encoded opts))"
  by (auto simp: insertParamsFor_def params_of_def Let_def split: option.split sum.split)

lemma c_Insert_eq:
  "c_Insert mem_ops c notifier now args opts (sg, s) =
     (case insertParamsFor args opts of
        Inl err \<Rightarrow> (Inl err, sg, s)
      | Inr p \<Rightarrow>
          let row = jobFromParams (nextID s + 1) p now
          in if uniqueConflict s (ip_Queue p) (ip_Kind p) (ip_UniqueKey p) []
             then (Inl (Wrapf ''drover: insert job kind'' [Sentinel DuplicateJob]), sg, s)
             else (Inr row, wakeAfterInsert c notifier sg, put_row row (s\<lparr>nextID := nextID s + 1\<rparr>)))"
  by (auto simp: c_Insert_def mem_ops_def mem_Insert_def Let_def publicInsertErr_def split: sum.split)

lemma inserted_slot_taken:
  assumes "row_of s' k = Some row" "UniqueKey row \<noteq> []" "uniqueActive (State row)"
  shows "uniqueConflict s' (Queue row) (Kind row) (UniqueKey row) []"
  using assms map_of_SomeD[OF assms(1)] by (force simp: uniqueConflict_def)

lemma jobFromParams_slot [simp]:
  "ID (jobFromParams k p now) = k" "Queue (jobFromParams k p now) = ip_Queue p"
  "Kind (jobFromParams k p now) = ip_Kind p" "UniqueKey (jobFromParams k p now) = ip_UniqueKey p"
  "uniqueActive (State (jobFromParams k p now))"
  by (simp_all add: jobFromParams_def Let_def)

text \<open>C28: an insert through the client refuses arguments without a kind, and arguments that do not
  marshal, and then touches nothing; on arguments that are fine it fails only as
  \<^verbatim>\<open>ErrDuplicateJob\<close>, again touching nothing. When it succeeds it has added exactly the row it
  returns, under an id not used before and with the kind, queue (the default one unless another is
  named), time and key it was asked for, has woken the fetch loop if the client is configured to,
  and from then on an insert for the same unique slot is refused and changes nothing.\<close>

theorem c_Insert_spec:
  assumes "store_wf s" and "c_Insert mem_ops c notifier now args opts (sg, s) = (res, sg', s')"
  shows "case res of
      Inl err \<Rightarrow> s' = s \<and> sg' = sg \<and>
        (\<forall>a encoded. args = Some a \<and> ja_Kind a \<noteq> [] \<and> ja_Marshal a = Inr encoded \<longrightarrow> errors_Is err DuplicateJob) \<and>
        ((\<forall>a. args = Some a \<longrightarrow> ja_Kind a = []) \<longrightarrow> err = Sentinel ErrInvalidKind)
    | Inr row \<Rightarrow> row_of s (ID row) = None \<and> row_of s' = (row_of s)(ID row \<mapsto> row) \<and> store_wf s' \<and>
        (\<exists>a encoded. args = Some a \<and> ja_Kind a \<noteq> [] \<and> ja_Marshal a = Inr encoded \<and>
           row = jobFromParams (ID row) (params_of a encoded opts) now) \<and>
        (c_notifyWakeup c \<longrightarrow> wake sg') \<and>
        (\<forall>c' notifier' now' a' encoded' opts' sg''. UniqueKey row \<noteq> [] \<and>
           ja_Kind a' = Kind row \<and> ja_Marshal a' = Inr encoded' \<and>
           ip_Queue (params_of a' encoded' opts') = Queue row \<and>
           ip_UniqueKey (params_of a' encoded' opts') = UniqueKey row \<longrightarrow>
           (\<exists>err. errors_Is err DuplicateJob \<and>
              c_Insert mem_ops c' notifier' now' (Some a') opts' (sg'', s') = (Inl err, sg'', s')))"
proof (cases "insertParamsFor args opts")
  case (Inl err)
  then show ?thesis
    using assms(2) by (auto simp: c_Insert_eq insertParamsFor_eq split: option.splits if_splits sum.splits)
next
  case (Inr p)
  then obtain a encoded where a: "args = Some a" "ja_Kind a \<noteq> []" "ja_Marshal a = Inr encoded"
    and p: "p = params_of a encoded opts"
    by (auto simp: insertParamsFor_eq split: option.splits if_splits sum.splits)
  show ?thesis
  proof (cases "uniqueConflict s (ip_Queue p) (ip_Kind p) (ip_UniqueKey p) []")
    case True
    then show ?thesis using assms(2) Inr a by (auto simp: c_Insert_eq Let_def)
  next
    case False
    define row where "row = jobFromParams (nextID s + 1) p now"
    have res: "res = Inr row" "sg' = wakeAfterInsert c notifier sg" "s' = snd (mem_Insert now p s)"
      using assms(2) Inr False by (auto simp: c_Insert_eq Let_def row_def mem_Insert_def)
    have new: "row_of s (ID row) = None"
      using store_wf_row(3)[OF assms(1), of "ID row"] by (cases "row_of s (ID row)") (auto simp: row_def)
    have upd: "row_of s' = (row_of s)(ID row \<mapsto> row)"
      using False by (simp add: res(3) mem_Insert_def row_def Let_def update_conv')
    have kind: "ip_Kind p = ja_Kind a" by (simp add: p params_of_def)
    have again: "c_Insert mem_ops c' notifier' now' (Some a') opts' (sg'', s') =
        (Inl (Wrapf ''drover: insert job kind'' [Sentinel DuplicateJob]), sg'', s')"
      if "UniqueKey row \<noteq> []" "ja_Kind a' = Kind row" "ja_Marshal a' = Inr encoded'"
        "ip_Queue (params_of a' encoded' opts') = Queue row"
        "ip_UniqueKey (params_of a' encoded' opts') = UniqueKey row"
      for c' notifier' now' a' encoded' opts' sg''
    proof -
      have "insertParamsFor (Some a') opts' = Inr (params_of a' encoded' opts')"
        using that a(2) kind by (simp add: insertParamsFor_eq row_def)
      moreover have "ip_Kind (params_of a' encoded' opts') = Kind row" using that(2) by (simp add: params_of_def)
      moreover have "uniqueConflict s' (Queue row) (Kind row) (UniqueKey row) []"
        using that(1) by (intro inserted_slot_taken[of s' "ID row"]) (simp_all add: upd row_def)
      ultimately show ?thesis using that(4,5) by (simp add: c_Insert_eq)
    qed
    have "wake sg'" if "c_notifyWakeup c"
      using that by (simp add: res(2) wakeAfterInsert_def notify_def nudge_def)
    moreover have "store_wf s'" using assms(1) by (simp add: res(3) store_wf_Insert)
    moreover have "row = jobFromParams (ID row) (params_of a encoded opts) now" by (simp add: row_def p)
    ultimately show ?thesis using new upd a again unfolding res(1) by fastforce
  qed
qed

theorem c_Insert_spec_witness:
  "\<exists>row sg' s'. c_Insert mem_ops demo_client False 5 (Some \<lparr>ja_Kind = ''k'', ja_Marshal = Inr (JObj [])\<rparr>) None
      (\<lparr>wake = False, notified = 0\<rparr>, mem_New) = (Inr row, sg', s') \<and> row_of s' (ID row) = Some row \<and> wake sg'"
proof -
  let ?a = "\<lparr>ja_Kind = ''k'', ja_Marshal = Inr (JObj [])\<rparr>" and ?sg = "\<lparr>wake = False, notified = 0\<rparr>"
  obtain res sg' s' where out: "c_Insert mem_ops demo_client False 5 (Some ?a) None (?sg, mem_New) = (res, sg', s')"
    by (metis prod_cases3)
  have "\<exists>row. res = Inr row"
    using out by (auto simp: c_Insert_eq insertParamsFor_eq uniqueConflict_def params_of_def Let_def mem_New_def)
  then obtain row where "res = Inr row" ..
  then show ?thesis using c_Insert_spec[OF store_wf_New out] out demo_client_wakes by auto
qed

end
