(* ===== verification/Loop.thy ===== *)
theory Loop
  imports Client
begin

text \<open>
  What a worker does with one claimed job (\<^verbatim>\<open>runJob\<close> and \<^verbatim>\<open>dispose\<close> of
  \<^verbatim>\<open>loop.go\<close>), the leases it keeps alive meanwhile (\<^verbatim>\<open>inflight.go\<close>,
  \<^verbatim>\<open>heartbeat.go\<close>), and the rescue of jobs whose worker died (\<^verbatim>\<open>rescue.go\<close>).
\<close>

section \<open>In-flight leases\<close>

text \<open>The Go map from job id to attempt.\<close>

type_synonym inflight_set = "(int \<times> int) list"

definition newInflightSet :: inflight_set where
  "newInflightSet = []"

definition inflight_add :: "lease \<Rightarrow> inflight_set \<Rightarrow> inflight_set" where
  "inflight_add l infl = AList.update (lease_ID l) (lease_Attempt l) infl"

definition inflight_remove :: "lease \<Rightarrow> inflight_set \<Rightarrow> inflight_set" where
  "inflight_remove l infl =
     (case map_of infl (lease_ID l) of
        None \<Rightarrow> infl
      | Some attempt \<Rightarrow> if attempt = lease_Attempt l then AList.delete (lease_ID l) infl else infl)"

text \<open>Ids are positive, so the difference that orders two of them does not overflow.\<close>

definition snapshot :: "inflight_set \<Rightarrow> lease list" where
  "snapshot infl =
     (if infl = [] then []
      else sort_key lease_ID (map (\<lambda>(jid, attempt). \<lparr>lease_ID = jid, lease_Attempt = attempt\<rparr>) infl))"

section \<open>The record of a failed attempt\<close>

text \<open>
  How package encoding/json writes a string: each byte that is not part of a well-formed UTF-8
  sequence becomes U+FFFD. \<open>continues lo hi n s\<close> says that \<open>s\<close> starts with \<open>n\<close> continuation
  bytes, the first between \<open>lo\<close> and \<open>hi\<close>.
\<close>

fun continues :: "nat \<Rightarrow> nat \<Rightarrow> nat \<Rightarrow> string \<Rightarrow> bool" where
  "continues lo hi 0 s = True"
| "continues lo hi (Suc n) [] = False"
| "continues lo hi (Suc n) (c # s) = (lo \<le> of_char c \<and> of_char c \<le> hi \<and> continues 128 191 n s)"

text \<open>The length of the first rune, or nothing if it is not well formed.\<close>

definition rune_length :: "string \<Rightarrow> nat option" where
  "rune_length s =
     (case s of
        [] \<Rightarrow> None
      | c # rest \<Rightarrow>
          let b = (of_char c :: nat);
              try = (\<lambda>lo hi n. if continues lo hi n rest then Some (Suc n) else None)
          in if b < 128 then Some 1
             else if b < 194 then None
             else if b < 224 then try 128 191 1
             else if b = 224 then try 160 191 2
             else if b = 237 then try 128 159 2
             else if b < 240 then try 128 191 2
             else if b = 240 then try 144 191 3
             else if b < 244 then try 128 191 3
             else if b = 244 then try 128 143 3
             else None)"

definition replacement :: string where
  "replacement = [char_of (239::nat), char_of (191::nat), char_of (189::nat)]"

function valid_UTF8 :: "string \<Rightarrow> string" where
  "valid_UTF8 s =
     (if s = [] then []
      else case rune_length s of
        None \<Rightarrow> replacement @ valid_UTF8 (drop 1 s)
      | Some n \<Rightarrow> take (max 1 n) s @ valid_UTF8 (drop (max 1 n) s))"
  by pat_completeness auto
termination
  by (relation "measure length") auto

declare valid_UTF8.simps [simp del]

record attempt_error =
  ae_Attempt :: int
  ae_At :: time
  ae_Error :: string
  ae_Trace :: string

text \<open>\<^verbatim>\<open>json.Marshal\<close> of the record; a time is refused unless its year has four digits.\<close>

definition marshal_attempt_error :: "attempt_error \<Rightarrow> json option" where
  "marshal_attempt_error ae =
     (if Year (ae_At ae) < 0 \<or> Year (ae_At ae) > 9999 then None
      else Some (JObj
        ([(''attempt'', JNum (itoa (ae_Attempt ae))), (''at'', JStr (format_RFC3339Nano (ae_At ae))),
          (''error'', JStr (valid_UTF8 (ae_Error ae)))] @
         (if ae_Trace ae = [] then [] else [(''trace'', JStr (valid_UTF8 (ae_Trace ae)))]))))"

section \<open>Ending an attempt\<close>

text \<open>
  What ending an attempt meets: the successive readings of the clock, the draws of the random
  source, and the call to the driver, under the context it is made with.
\<close>

record 'e moment =
  mo_now :: "nat \<Rightarrow> time"
  mo_draw :: "nat \<Rightarrow> real"
  mo_call :: "go_context \<Rightarrow> 'e"

text \<open>What is logged at the end.\<close>

datatype loop_event =
    JobSnoozed time | JobCancelled | JobDead | RetryScheduled time
  | EncodeFailed | OutcomeDiscarded driver_error | FinalizeFailed driver_error

definition writeFailed :: "driver_error \<Rightarrow> loop_event" where
  "writeFailed err =
     (if err = ErrLeaseLost \<or> err = ErrInvalidTransition then OutcomeDiscarded err else FinalizeFailed err)"

definition policy_of :: "client \<Rightarrow> 'e moment \<Rightarrow> retry_policy" where
  "policy_of c mo =
     (case c_retryPolicy c of
        None \<Rightarrow> (\<lambda>job. Inr (ExponentialRetryPolicy (mo_now mo 2) (mo_draw mo 0) job))
      | Some p \<Rightarrow> p)"

text \<open>\<open>msg_of\<close> is the method Error of an error.\<close>

definition dispose ::
  "('e, 's) driver_ops \<Rightarrow> client \<Rightarrow> (go_error \<Rightarrow> string) \<Rightarrow> 'e moment \<Rightarrow> go_context \<Rightarrow> job_row \<Rightarrow> go_error \<Rightarrow>
   's \<Rightarrow> loop_event \<times> 's" where
  "dispose ops c msg_of mo ctx row jobErr s =
     (let lease = \<lparr>lease_ID = ID row, lease_Attempt = Attempt row\<rparr>;
          e = mo_call mo ctx;
          reported = (\<lambda>(res, s') ev. (case res of Inl err \<Rightarrow> writeFailed err | Inr _ \<Rightarrow> ev, s'));
          (outcome, snooze) = classifyOutcome jobErr
      in if outcome = outcomeSnoozed then
           let runAt = mo_now mo 0 + snooze
           in reported (drv_MarkSnoozed ops e lease runAt s) (JobSnoozed runAt)
         else case marshal_attempt_error
             \<lparr>ae_Attempt = Attempt row, ae_At = mo_now mo 0, ae_Error = msg_of jobErr, ae_Trace = stackOf jobErr\<rparr> of
           None \<Rightarrow> (EncodeFailed, s)
         | Some detail \<Rightarrow>
             if outcome = outcomeCancelled then
               reported (drv_MarkCancelled ops e lease (Some (Valid detail)) s) JobCancelled
             else if Attempt row \<ge> MaxAttempts row then
               reported (drv_MarkDead ops e lease (Some (Valid detail)) s) JobDead
             else
               let retry = retryAt (policy_of c mo) (rowFromDriver row) (mo_now mo 1) (mo_now mo 3) (mo_draw mo 1)
               in reported (drv_MarkRetryable ops e lease retry (Some (Valid detail)) s) (RetryScheduled retry))"

section \<open>Running a job\<close>

text \<open>\<^verbatim>\<open>context.WithoutCancel\<close> drops the deadline as well.\<close>

definition WithoutCancel :: "go_context \<Rightarrow> go_context" where
  "WithoutCancel ctx = \<lparr>ctx_deadline = None, ctx_cancelled = False\<rparr>"

definition finalizeContext :: "client \<Rightarrow> time \<Rightarrow> go_context \<Rightarrow> go_context" where
  "finalizeContext c now jobCtx = WithTimeout (WithoutCancel jobCtx) now (c_leaseDuration c)"

text \<open>
  \<open>others\<close> is what the rest of the system does while the handler runs: heartbeats, rescuers,
  other workers of this process and of others. The deferred removal also runs if the frame
  unwinds.
\<close>

definition runJob ::
  "('e, 's) driver_ops \<Rightarrow> client \<Rightarrow> (go_error \<Rightarrow> string) \<Rightarrow> 'e moment \<Rightarrow> (inflight_set \<times> 's \<Rightarrow> inflight_set \<times> 's) \<Rightarrow>
   go_context \<Rightarrow> job_row \<Rightarrow> inflight_set \<times> world \<times> 's \<Rightarrow> loop_event option \<times> inflight_set \<times> world \<times> 's" where
  "runJob ops c msg_of mo others jobCtx row st =
     (let (infl, w, s) = st;
          lease = \<lparr>lease_ID = ID row, lease_Attempt = Attempt row\<rparr>;
          infl1 = inflight_add lease infl;
          (v, w1) = execute (c_chain c) jobCtx (rowFromDriver row) w;
          (infl2, s2) = others (infl1, s);
          ctx = finalizeContext c (w_now w1) jobCtx
      in case v of
           Panicking _ _ \<Rightarrow> (None, inflight_remove lease infl2, w1, s2)
         | Verdict (Some err) \<Rightarrow>
             let (ev, s3) = dispose ops c msg_of mo ctx row err s2
             in (Some ev, inflight_remove lease infl2, w1, s3)
         | Verdict None \<Rightarrow>
             let (res, s3) = drv_MarkCompleted ops (mo_call mo ctx) lease s2
             in (case res of Inl err \<Rightarrow> Some (writeFailed err) | Inr _ \<Rightarrow> None,
                 inflight_remove lease infl2, w1, s3))"

section \<open>Heartbeat\<close>

text \<open>One beat: the error it logs, if any.\<close>

definition extendLeases ::
  "('e, 's) driver_ops \<Rightarrow> client \<Rightarrow> (go_context \<Rightarrow> 'e) \<Rightarrow> time \<Rightarrow> inflight_set \<Rightarrow> 's \<Rightarrow> driver_error option \<times> 's" where
  "extendLeases ops c call now infl s =
     (let leases = snapshot infl
      in if leases = [] then (None, s)
         else
           let ctx = WithTimeout \<lparr>ctx_deadline = None, ctx_cancelled = False\<rparr> now (c_heartbeatInterval c);
               (res, s') = drv_ExtendLeases ops (call ctx) leases (c_leaseDuration c) s
           in (case res of Inl err \<Rightarrow> Some err | Inr _ \<Rightarrow> None, s'))"

section \<open>Rescue\<close>

definition rescueBatch :: int where "rescueBatch = 100"
definition rescueRounds :: nat where "rescueRounds = 10"

definition errLeaseExpired :: go_error where
  "errLeaseExpired = Text ''drover: lease expired, worker presumed dead''"

text \<open>What one round meets: its fetch, each of the jobs it disposes of, and whether the context is
  cancelled at its end.\<close>

record 'e sweep =
  sw_fetch :: "go_context \<Rightarrow> 'e"
  sw_row :: "nat \<Rightarrow> 'e moment"
  sw_cancelled :: bool

fun disposeRows ::
  "('e, 's) driver_ops \<Rightarrow> client \<Rightarrow> (go_error \<Rightarrow> string) \<Rightarrow> (nat \<Rightarrow> 'e moment) \<Rightarrow> go_context \<Rightarrow> job_row list \<Rightarrow> 's \<Rightarrow> 's" where
  "disposeRows ops c msg_of mo ctx [] s = s"
| "disposeRows ops c msg_of mo ctx (row # rows) s =
     disposeRows ops c msg_of (\<lambda>i. mo (Suc i)) ctx rows (snd (dispose ops c msg_of (mo 0) ctx row errLeaseExpired s))"

text \<open>\<open>rounds\<close> counts the rounds left, so the loop ends; \<open>rescued\<close> counts the jobs.\<close>

fun rescueLoopOnce ::
  "('e, 's) driver_ops \<Rightarrow> client \<Rightarrow> (go_error \<Rightarrow> string) \<Rightarrow> (nat \<Rightarrow> 'e sweep) \<Rightarrow> go_context \<Rightarrow> nat \<Rightarrow> int \<Rightarrow> 's \<Rightarrow>
   (int \<times> driver_error option) \<times> 's" where
  "rescueLoopOnce ops c msg_of sw ctx 0 rescued s = ((rescued, None), s)"
| "rescueLoopOnce ops c msg_of sw ctx (Suc rounds) rescued s =
     (case drv_FetchExpired ops (sw_fetch (sw 0) ctx) (c_leaseDuration c) rescueBatch s of
        (Inl err, s1) \<Rightarrow> ((rescued, Some err), s1)
      | (Inr rows, s1) \<Rightarrow>
          let s2 = disposeRows ops c msg_of (sw_row (sw 0)) (WithoutCancel ctx) rows s1;
              rescued' = rescued + int (length rows)
          in if int (length rows) < rescueBatch \<or> sw_cancelled (sw 0) then ((rescued', None), s2)
             else rescueLoopOnce ops c msg_of (\<lambda>i. sw (Suc i)) ctx rounds rescued' s2)"

definition rescueOnce ::
  "('e, 's) driver_ops \<Rightarrow> client \<Rightarrow> (go_error \<Rightarrow> string) \<Rightarrow> (nat \<Rightarrow> 'e sweep) \<Rightarrow> go_context \<Rightarrow> 's \<Rightarrow>
   (int \<times> driver_error option) \<times> 's" where
  "rescueOnce ops c msg_of sw ctx s = rescueLoopOnce ops c msg_of sw ctx rescueRounds 0 s"

section \<open>In-flight leases\<close>

lemma inflight_keys:
  "distinct (map fst infl) \<Longrightarrow> distinct (map fst (inflight_add l infl))"
  "distinct (map fst infl) \<Longrightarrow> distinct (map fst (inflight_remove l infl))"
  by (auto simp: inflight_add_def inflight_remove_def distinct_update distinct_delete split: option.split)

lemma inflight_add: "map_of (inflight_add l infl) = (map_of infl)(lease_ID l \<mapsto> lease_Attempt l)"
  by (simp add: inflight_add_def update_conv')

lemma inflight_remove:
  "map_of (inflight_remove l infl) =
     (if map_of infl (lease_ID l) = Some (lease_Attempt l) then (map_of infl)(lease_ID l := None) else map_of infl)"
  by (auto simp: inflight_remove_def delete_conv' split: option.split)

lemma set_snapshot:
  assumes "distinct (map fst infl)"
  shows "l \<in> set (snapshot infl) \<longleftrightarrow> map_of infl (lease_ID l) = Some (lease_Attempt l)"
proof -
  have "l \<in> set (snapshot infl) \<longleftrightarrow> (lease_ID l, lease_Attempt l) \<in> set infl"
    by (cases l) (force simp: snapshot_def)
  then show ?thesis using assms by simp
qed

section \<open>The fate of an attempt\<close>

definition detail_of :: "(go_error \<Rightarrow> string) \<Rightarrow> 'e moment \<Rightarrow> job_row \<Rightarrow> go_error \<Rightarrow> json option" where
  "detail_of msg_of mo row err = marshal_attempt_error
     \<lparr>ae_Attempt = Attempt row, ae_At = mo_now mo 0, ae_Error = msg_of err, ae_Trace = stackOf err\<rparr>"

definition retry_time :: "client \<Rightarrow> 'e moment \<Rightarrow> job_row \<Rightarrow> time" where
  "retry_time c mo row = retryAt (policy_of c mo) row (mo_now mo 1) (mo_now mo 3) (mo_draw mo 1)"

text \<open>What becomes of the stored row of a failed attempt: put off if the handler asked for it,
  cancelled if it declared the job hopeless, dead if the attempts are spent, and otherwise due again
  at the time of the retry policy. \<open>kept\<close> is how the store keeps an instant, \<open>now\<close> the time it
  reads, \<open>stored\<close> the record of the error as it reads it; a record it cannot take leaves the row
  to the rescuer.\<close>

definition fate ::
  "client \<Rightarrow> 'e moment \<Rightarrow> (time \<Rightarrow> time) \<Rightarrow> time \<Rightarrow> json option \<Rightarrow> job_row \<Rightarrow> go_error \<Rightarrow> job_row \<Rightarrow> job_row" where
  "fate c mo kept now stored row err r =
     (case (classifyOutcome err, stored) of
        ((outcomeSnoozed, d), _) \<Rightarrow> snoozed_row (kept (mo_now mo 0 + d)) r
      | ((outcomeCancelled, _), Some j) \<Rightarrow> cancelled_row now j r
      | ((outcomeFailed, _), Some j) \<Rightarrow>
          if Attempt row \<ge> MaxAttempts row then dead_row now j r else retryable_row (kept (retry_time c mo row)) j r
      | (_, None) \<Rightarrow> r)"

definition fate_event :: "client \<Rightarrow> 'e moment \<Rightarrow> job_row \<Rightarrow> go_error \<Rightarrow> loop_event" where
  "fate_event c mo row err =
     (case classifyOutcome err of
        (outcomeSnoozed, d) \<Rightarrow> JobSnoozed (mo_now mo 0 + d)
      | (outcomeCancelled, _) \<Rightarrow> JobCancelled
      | (outcomeFailed, _) \<Rightarrow> if Attempt row \<ge> MaxAttempts row then JobDead else RetryScheduled (retry_time c mo row))"

fun event_of :: "driver_error + unit \<Rightarrow> loop_event \<Rightarrow> loop_event" where
  "event_of (Inl err) ev = writeFailed err"
| "event_of (Inr _) ev = ev"

lemma dispose_eq:
  "dispose ops c msg_of mo ctx row err s =
     (case classifyOutcome err of
        (outcomeSnoozed, d) \<Rightarrow>
          (case drv_MarkSnoozed ops (mo_call mo ctx) (row_lease row) (mo_now mo 0 + d) s of
             (res, s') \<Rightarrow> (event_of res (fate_event c mo row err), s'))
      | (outcome, _) \<Rightarrow>
          (case detail_of msg_of mo row err of
             None \<Rightarrow> (EncodeFailed, s)
           | Some d \<Rightarrow>
               (case (if outcome = outcomeCancelled then drv_MarkCancelled ops (mo_call mo ctx) (row_lease row) (Some (Valid d)) s
                      else if Attempt row \<ge> MaxAttempts row then drv_MarkDead ops (mo_call mo ctx) (row_lease row) (Some (Valid d)) s
                      else drv_MarkRetryable ops (mo_call mo ctx) (row_lease row) (retry_time c mo row) (Some (Valid d)) s) of
                  (res, s') \<Rightarrow> (event_of res (fate_event c mo row err), s'))))"
proof -
  have ev: "(case res of Inl e \<Rightarrow> writeFailed e | Inr _ \<Rightarrow> ev) = event_of res ev" for res ev
    by (cases res) simp_all
  show ?thesis
    by (cases "classifyOutcome err"; cases "fst (classifyOutcome err)"; cases "detail_of msg_of mo row err")
      (simp_all add: dispose_def ev row_lease_def[symmetric] detail_of_def[symmetric] retry_time_def
        fate_event_def Let_def case_prod_beta)
qed

lemma detail_object: "detail_of msg_of mo row err = Some d \<Longrightarrow> \<exists>obj. d = JObj obj"
  by (auto simp: detail_of_def marshal_attempt_error_def split: if_splits)

lemma guarded_same: "(\<And>r. change r = r) \<Longrightarrow> snd (guarded l change m) = m"
  by (auto simp: guarded_def split: option.split)

lemma meets_rows:
  assumes "meets b spec m (res, m')"
  shows "m' \<in> {m, snd spec} \<and> (b \<longrightarrow> m' = snd spec \<and> res = fst spec)"
proof -
  have "m' = snd spec" if "(res, m') = spec" using that by (metis snd_conv)
  moreover have "res = fst spec" if "(res, m') = spec" using that by (metis fst_conv)
  ultimately show ?thesis using assms by (auto simp: meets_def call_ok_def)
qed

context driver_contract
begin

abbreviation stored_detail :: "(go_error \<Rightarrow> string) \<Rightarrow> 'f moment \<Rightarrow> job_row \<Rightarrow> go_error \<Rightarrow> json option" where
  "stored_detail msg_of mo row err \<equiv> Option.bind (detail_of msg_of mo row err) detail"

lemma dispose_fate:
  assumes "inv s" "lease_ok (row_lease row)" and out: "dispose ops c msg_of mo ctx row err s = (ev, s')"
  defines "spec \<equiv> guarded (row_lease row)
    (fate c mo kept (clock (mo_call mo ctx)) (stored_detail msg_of mo row err) row err) (abs s)"
  shows "inv s' \<and> abs s' \<in> {abs s, snd spec} \<and>
    (reliable_call (mo_call mo ctx) \<longrightarrow> abs s' = snd spec \<and>
       (stored_detail msg_of mo row err \<noteq> None \<longrightarrow> ev = event_of (fst spec) (fate_event c mo row err)))"
proof (cases "classifyOutcome err")
  case (Pair outcome t)
  show ?thesis
  proof (cases "outcome = outcomeSnoozed")
    case True
    then obtain res where m: "drv_MarkSnoozed ops (mo_call mo ctx) (row_lease row) (mo_now mo 0 + t) s = (res, s')"
      and ev: "ev = event_of res (fate_event c mo row err)"
      using out Pair by (auto simp: dispose_eq split: prod.splits)
    have "spec = guarded (row_lease row) (snoozed_row (kept (mo_now mo 0 + t))) (abs s)"
      using Pair True by (simp add: spec_def fate_def[abs_def])
    then show ?thesis using MarkSnoozed[OF assms(1,2) m] meets_rows ev by fastforce
  next
    case False
    show ?thesis
    proof (cases "detail_of msg_of mo row err")
      case None
      then have "spec = guarded (row_lease row) (\<lambda>r. r) (abs s)" "s' = s"
        using Pair False out by (cases outcome; simp add: spec_def fate_def[abs_def] dispose_eq)+
      then show ?thesis using None guarded_same[of "\<lambda>r. r"] assms(1) by simp
    next
      case (Some d)
      then obtain obj where d: "d = JObj obj" using detail_object by blast
      then have obj: "dispose ops c msg_of mo ctx row err s =
        (case (if outcome = outcomeCancelled then drv_MarkCancelled ops (mo_call mo ctx) (row_lease row) (Some (Valid (JObj obj))) s
           else if Attempt row \<ge> MaxAttempts row then drv_MarkDead ops (mo_call mo ctx) (row_lease row) (Some (Valid (JObj obj))) s
           else drv_MarkRetryable ops (mo_call mo ctx) (row_lease row) (retry_time c mo row) (Some (Valid (JObj obj))) s) of
         (res, s') \<Rightarrow> (event_of res (fate_event c mo row err), s'))"
        using Some Pair False by (cases outcome) (simp_all add: dispose_eq)
      note laws = MarkCancelled[OF assms(1,2)] MarkDead[OF assms(1,2)] MarkRetryable[OF assms(1,2)]
      show ?thesis
      proof (cases "detail (JObj obj)")
        case None
        have "spec = guarded (row_lease row) (\<lambda>r. r) (abs s)"
          using Pair False Some d None by (cases outcome) (simp_all add: spec_def fate_def[abs_def])
        moreover have "inv s' \<and> abs s' = abs s"
          using out None unfolding obj by (auto simp: meets_detail_def split: prod.splits if_splits dest!: laws)
        ultimately show ?thesis using Some d None guarded_same[of "\<lambda>r. r"] by simp
      next
        case (Some j)
        then have "spec = guarded (row_lease row)
           (if outcome = outcomeCancelled then cancelled_row (clock (mo_call mo ctx)) j
            else if Attempt row \<ge> MaxAttempts row then dead_row (clock (mo_call mo ctx)) j
            else retryable_row (kept (retry_time c mo row)) j) (abs s)"
          using Pair False \<open>detail_of msg_of mo row err = Some d\<close> d
          by (cases outcome) (auto simp: spec_def fate_def[abs_def])
        then have "\<exists>res. inv s' \<and> ev = event_of res (fate_event c mo row err) \<and>
           meets (reliable_call (mo_call mo ctx)) spec (abs s) (res, abs s')"
          using out Some unfolding obj by (auto simp: meets_detail_def split: prod.splits if_splits dest!: laws)
        then show ?thesis using meets_rows by fastforce
      qed
    qed
  qed
qed

lemma runJob_records:
  assumes others: "others (inflight_add (row_lease row) infl, s) = (infl2, s2)"
    and "inv s2" "lease_ok (row_lease row)"
    and v: "execute (c_chain c) jobCtx row w = (Verdict err, w1)"
    and out: "runJob ops c msg_of mo others jobCtx row (infl, w, s) = (ev, infl', w', s')"
  defines "ctx \<equiv> finalizeContext c (w_now w1) jobCtx"
  defines "spec \<equiv> snd (guarded (row_lease row)
      (case err of
         None \<Rightarrow> completed_row (clock (mo_call mo ctx))
       | Some e \<Rightarrow> fate c mo kept (clock (mo_call mo ctx)) (stored_detail msg_of mo row e) row e) (abs s2))"
  shows "w' = w1 \<and> infl' = inflight_remove (row_lease row) infl2 \<and> inv s' \<and>
    abs s' \<in> {abs s2, spec} \<and> (reliable_call (mo_call mo ctx) \<longrightarrow> abs s' = spec)"
proof -
  have run: "runJob ops c msg_of mo others jobCtx row (infl, w, s) =
    (case err of
       None \<Rightarrow> (case drv_MarkCompleted ops (mo_call mo ctx) (row_lease row) s2 of
         (res, s3) \<Rightarrow> (case res of Inl x \<Rightarrow> Some (writeFailed x) | Inr _ \<Rightarrow> None, inflight_remove (row_lease row) infl2, w1, s3))
     | Some e \<Rightarrow> (case dispose ops c msg_of mo ctx row e s2 of
         (ev, s3) \<Rightarrow> (Some ev, inflight_remove (row_lease row) infl2, w1, s3)))"
    using others v by (cases err) (simp_all add: runJob_def Let_def row_lease_def ctx_def)
  show ?thesis
  proof (cases err)
    case None
    then obtain res where m: "drv_MarkCompleted ops (mo_call mo ctx) (row_lease row) s2 = (res, s')"
      and eq: "infl' = inflight_remove (row_lease row) infl2" "w' = w1"
      using out run by (auto split: prod.splits)
    show ?thesis using MarkCompleted[OF assms(2,3) m] meets_rows None eq by (fastforce simp: spec_def)
  next
    case (Some e)
    then obtain ev' where m: "dispose ops c msg_of mo ctx row e s2 = (ev', s')"
      and eq: "infl' = inflight_remove (row_lease row) infl2" "w' = w1"
      using out run by (auto split: prod.splits)
    show ?thesis using dispose_fate[OF assms(2,3) m] Some eq by (simp add: spec_def)
  qed
qed

end

section \<open>What a run records\<close>

lemma execute_verdict: "\<exists>err w'. execute ch ctx row w = (Verdict err, w')"
  using recovered_verdict by (metis execute_def)

text \<open>C2: running a claimed job on PostgreSQL always ends in one attempt to record its outcome,
  under a context that is not cancelled even if the job's is. Unless that call fails, a row this
  attempt still holds becomes completed for a nil verdict, and for an error or a panic becomes put
  off, cancelled, dead or due again as the error asks and the attempts left allow; a row it no
  longer holds is left alone. If the call fails the rows are as before or as recorded. No other
  row changes, and the lease is no longer renewed.\<close>

theorem runJob_records_outcome:
  assumes "jsonb_objects svc" "table_wf t2" "Attempt row \<le> MaxInt32"
    and "others (inflight_add \<lparr>lease_ID = ID row, lease_Attempt = Attempt row\<rparr> infl, t) = (infl2, t2)"
  shows "\<exists>err w1 ev infl' t'. execute (c_chain c) jobCtx row w = (Verdict err, w1) \<and>
    runJob (pg_ops svc) c msg_of mo others jobCtx row (infl, w, t) = (ev, infl', w1, t') \<and> table_wf t' \<and>
    map_of infl' (ID row) \<noteq> Some (Attempt row) \<and> \<not> ctx_cancelled (finalizeContext c (w_now w1) jobCtx) \<and>
    (let env = mo_call mo (finalizeContext c (w_now w1) jobCtx);
         spec = snd (guarded \<lparr>lease_ID = ID row, lease_Attempt = Attempt row\<rparr>
           (case err of
              None \<Rightarrow> completed_row (se_now env 0)
            | Some e \<Rightarrow> fate c mo (tstz svc) (se_now env 0)
                (Option.bind (detail_of msg_of mo row e) (\<lambda>d. jsonb_in svc (Valid d))) row e) (db_abs t2))
     in db_abs t' \<in> {db_abs t2, spec} \<and> (reliable env \<longrightarrow> db_abs t' = spec))"
proof -
  obtain err w1 where v: "execute (c_chain c) jobCtx row w = (Verdict err, w1)" using execute_verdict by blast
  obtain ev infl' w' t' where out: "runJob (pg_ops svc) c msg_of mo others jobCtx row (infl, w, t) = (ev, infl', w', t')"
    by (metis prod_cases4)
  have lease: "lease_Attempt (row_lease row) \<le> MaxInt32" using assms(3) by (simp add: row_lease_def)
  note run = driver_contract.runJob_records[OF pg_contract[OF assms(1)]
      assms(4)[folded row_lease_def] assms(2) lease v out]
  have eq: "w' = w1" "infl' = inflight_remove (row_lease row) infl2" "table_wf t'" using run by blast+
  have infl: "map_of infl' (ID row) \<noteq> Some (Attempt row)"
    unfolding eq(2) inflight_remove by (simp add: row_lease_def)
  have ctx: "\<not> ctx_cancelled (finalizeContext c (w_now w1) jobCtx)"
    by (simp add: finalizeContext_def WithoutCancel_def WithTimeout_def)
  show ?thesis
    unfolding Let_def row_lease_def[symmetric]
    using run v out infl ctx unfolding eq(1) by blast
qed

definition demo_moment :: "sql_env moment" where
  "demo_moment = \<lparr>mo_now = (\<lambda>i. 9000), mo_draw = (\<lambda>i. 0), mo_call = (\<lambda>ctx. demo_env)\<rparr>"

definition demo_claimed :: job_row where
  "demo_claimed = (case db_abs demo_running 1 of Some r \<Rightarrow> r)"

definition demo_ctx :: go_context where
  "demo_ctx = \<lparr>ctx_deadline = None, ctx_cancelled = True\<rparr>"

lemma demo_claimed_facts:
  "db_abs demo_running 1 = Some demo_claimed" "ID demo_claimed = 1" "Attempt demo_claimed = 1"
  "State demo_claimed = Running" "MaxAttempts demo_claimed = 25"
proof -
  have "db_abs demo_running 1 \<noteq> None" by code_simp
  then show "db_abs demo_running 1 = Some demo_claimed" unfolding demo_claimed_def by auto
  show "ID demo_claimed = 1" "Attempt demo_claimed = 1" "State demo_claimed = Running" "MaxAttempts demo_claimed = 25"
    by code_simp+
qed

lemma demo_svc_objects: "jsonb_objects demo_svc"
  using demo_svc_facts(1) by (simp add: jsonb_objects_def demo_svc_def)

theorem runJob_records_outcome_witness:
  "\<exists>ev infl' w1 t'. runJob (pg_ops demo_svc) demo_client (\<lambda>_. ''boom'') demo_moment id demo_ctx demo_claimed
      ([], demo_world, demo_running) = (ev, infl', w1, t') \<and> table_wf t' \<and>
      (\<exists>r. db_abs t' 1 = Some r \<and> State r = Retryable \<and> Attempt r = 1)"
proof -
  obtain w1 where err: "execute (c_chain demo_client) demo_ctx demo_claimed demo_world =
      (Verdict (Some (Text ''no worker registered for kind'')), w1)"
    by (simp add: demo_client_def newClient_cases demo_config_def periodic_ok_def Let_def execute_def chain_def
        Logging_def metricsMiddleware_def dispatch_def handler_of_def NewWorkers_def)
  have cls: "classifyOutcome (Text m) = (outcomeFailed, 0)" for m by (simp add: classifyOutcome_def)
  have "Year 9000 = 1" by code_simp
  then obtain j where d: "Option.bind (detail_of (\<lambda>_. ''boom'') demo_moment demo_claimed (Text ''no worker registered for kind''))
      (\<lambda>d. jsonb_in demo_svc (Valid d)) = Some j"
    by (simp add: detail_of_def marshal_attempt_error_def demo_moment_def demo_svc_def)
  have int: "Attempt demo_claimed \<le> MaxInt32" by (simp add: MaxInt32_def demo_claimed_facts)
  have call: "mo_call demo_moment ctx = demo_env" for ctx by (simp add: demo_moment_def)
  have fate: "fate demo_client demo_moment k now (Some j) demo_claimed (Text m) =
      retryable_row (k (retry_time demo_client demo_moment demo_claimed)) j" for k now m
    by (auto simp: fate_def fun_eq_iff cls demo_claimed_facts)
  obtain ev infl' t' where run: "runJob (pg_ops demo_svc) demo_client (\<lambda>_. ''boom'') demo_moment id demo_ctx demo_claimed
      ([], demo_world, demo_running) = (ev, infl', w1, t')" "table_wf t'"
    and rows: "db_abs t' = snd (guarded \<lparr>lease_ID = 1, lease_Attempt = 1\<rparr>
      (fate demo_client demo_moment (tstz demo_svc) (se_now demo_env 0) (Some j) demo_claimed
        (Text ''no worker registered for kind'')) (db_abs demo_running))"
    using runJob_records_outcome[OF demo_svc_objects demo_tables_wf(2) int, where others = id and infl = "[]" and
        c = demo_client and jobCtx = demo_ctx and w = demo_world and msg_of = "\<lambda>_. ''boom''" and mo = demo_moment]
      demo_env_reliable
    by (auto simp: err d Let_def demo_claimed_facts call)
  have "db_abs t' 1 = Some (retryable_row (tstz demo_svc (retry_time demo_client demo_moment demo_claimed)) j demo_claimed)"
    using rows by (simp add: fate guarded_def demo_claimed_facts)
  then have "\<exists>r. db_abs t' 1 = Some r \<and> State r = Retryable \<and> Attempt r = 1"
    by (simp add: demo_claimed_facts retryable_row_def)
  then show ?thesis using run by blast
qed

section \<open>Rescue\<close>

text \<open>What a sweep makes of a row: due for a retry, or dead once its attempts are spent, with one
  more error and nothing else about the job changed.\<close>

definition rescued_row :: "job_row \<Rightarrow> job_row \<Rightarrow> bool" where
  "rescued_row r r' \<longleftrightarrow>
     State r' = (if Attempt r \<ge> MaxAttempts r then Dead else Retryable) \<and>
     ID r' = ID r \<and> Kind r' = Kind r \<and> Queue r' = Queue r \<and> Args r' = Args r \<and> Attempt r' = Attempt r \<and>
     MaxAttempts r' = MaxAttempts r \<and> CreatedAt r' = CreatedAt r \<and> UniqueKey r' = UniqueKey r \<and>
     LeasedUntil r' = None \<and> (\<exists>j. Errors r' = add_error j (Errors r))"

lemma fate_rescued: "rescued_row r (fate c mo kept now (Some j) r errLeaseExpired r)"
  by (auto simp: rescued_row_def fate_def errLeaseExpired_def classifyOutcome_def dead_row_def retryable_row_def)

lemma rescued_not_expired: "rescued_row r r' \<Longrightarrow> \<not> expired now r'"
  by (auto simp: rescued_row_def expired_def)

lemma rescued_reclaimed: "rescued_row (reclaimRow now d r) r' \<longleftrightarrow> rescued_row r r'"
  by (simp add: rescued_row_def reclaimRow_def)

text \<open>A sweep of the rows \<open>E\<close> has dealt with the rows \<open>P\<close> of them: those whose leases ran out
  first.\<close>

definition swept :: "job_row set \<Rightarrow> job_row set \<Rightarrow> rows \<Rightarrow> rows \<Rightarrow> bool" where
  "swept E P m m' \<longleftrightarrow> P \<subseteq> E \<and>
     (\<forall>p \<in> P. \<forall>r \<in> E - P. (byLeasedUntil p, ID p) < (byLeasedUntil r, ID r)) \<and>
     (\<forall>p \<in> P. \<exists>r'. m' (ID p) = Some r' \<and> rescued_row p r') \<and>
     (\<forall>k. k \<notin> ID ` P \<longrightarrow> m' k = m k)"

lemma swept_rest:
  assumes "swept (eligible_rows (expired now) m) P m m'" "\<forall>k r. m k = Some r \<longrightarrow> ID r = k"
    and "\<forall>k r. m' k = Some r \<longrightarrow> ID r = k"
  shows "eligible_rows (expired now) m' = eligible_rows (expired now) m - P"
  unfolding eligible_rows_def
proof (intro set_eqI iffI)
  fix r assume "r \<in> {r. \<exists>k. m' k = Some r \<and> expired now r}"
  then obtain k where k: "m' k = Some r" "expired now r" by blast
  have "k \<notin> ID ` P"
  proof
    assume "k \<in> ID ` P"
    then obtain p r' where "p \<in> P" "m' k = Some r'" "rescued_row p r'" using assms(1) by (auto simp: swept_def)
    then show False using k rescued_not_expired by simp
  qed
  moreover then have "m k = Some r" using assms(1) k(1) by (simp add: swept_def)
  ultimately show "r \<in> {r. \<exists>k. m k = Some r \<and> expired now r} - P" using k(2) assms(2) by blast
next
  fix r assume r: "r \<in> {r. \<exists>k. m k = Some r \<and> expired now r} - P"
  then obtain k where k: "m k = Some r" "expired now r" by blast
  have "k \<notin> ID ` P"
  proof
    assume "k \<in> ID ` P"
    then obtain p where p: "p \<in> P" "k = ID p" by blast
    have "P \<subseteq> {r. \<exists>k. m k = Some r \<and> expired now r}" using assms(1) unfolding swept_def eligible_rows_def by (rule conjunct1)
    with p(1) obtain k' where "m k' = Some p" by blast
    then have "m k = Some p" using assms(2) p(2) by blast
    then show False using p r k by simp
  qed
  then have "m' k = Some r" using assms(1) k(1) by (simp add: swept_def)
  then show "r \<in> {r. \<exists>k. m' k = Some r \<and> expired now r}" using k(2) by blast
qed

lemma swept_trans:
  assumes "swept E P m m1" "swept (E - P) Q m1 m2" "inj_on ID E"
  shows "swept E (P \<union> Q) m m2"
proof -
  have one: "P \<subseteq> E" "\<And>p r. p \<in> P \<Longrightarrow> r \<in> E - P \<Longrightarrow> (byLeasedUntil p, ID p) < (byLeasedUntil r, ID r)"
    "\<And>p. p \<in> P \<Longrightarrow> \<exists>r'. m1 (ID p) = Some r' \<and> rescued_row p r'" "\<And>k. k \<notin> ID ` P \<Longrightarrow> m1 k = m k"
    using assms(1) unfolding swept_def by blast+
  have two: "Q \<subseteq> E - P" "\<And>p r. p \<in> Q \<Longrightarrow> r \<in> E - P - Q \<Longrightarrow> (byLeasedUntil p, ID p) < (byLeasedUntil r, ID r)"
    "\<And>p. p \<in> Q \<Longrightarrow> \<exists>r'. m2 (ID p) = Some r' \<and> rescued_row p r'" "\<And>k. k \<notin> ID ` Q \<Longrightarrow> m2 k = m1 k"
    using assms(2) unfolding swept_def by blast+
  have apart: "ID p \<notin> ID ` Q" if "p \<in> P" for p
  proof
    assume "ID p \<in> ID ` Q"
    then obtain q where q: "q \<in> Q" "ID p = ID q" by blast
    then have "p = q" using assms(3) one(1) two(1) that by (meson Diff_iff inj_onD subsetD)
    then show False using that q(1) two(1) by blast
  qed
  show ?thesis
    unfolding swept_def
  proof (intro conjI ballI allI impI)
    show "P \<union> Q \<subseteq> E" using one(1) two(1) by blast
    show "(byLeasedUntil p, ID p) < (byLeasedUntil r, ID r)" if "p \<in> P \<union> Q" "r \<in> E - (P \<union> Q)" for p r
      using that one(2)[of p r] two(2)[of p r] by blast
    show "\<exists>r'. m2 (ID p) = Some r' \<and> rescued_row p r'" if "p \<in> P \<union> Q" for p
      using that one(3)[of p] two(3)[of p] two(4)[of "ID p"] apart[of p] by fastforce
    show "m2 k = m k" if "k \<notin> ID ` (P \<union> Q)" for k
      using that one(4)[of k] two(4)[of k] by (simp add: image_Un)
  qed
qed

context driver_contract
begin

lemma disposeRows_rescues:
  assumes "inv s" "distinct (map ID rows)"
    and "\<forall>row \<in> set rows. abs s (ID row) = Some row \<and> State row = Running"
    and "\<forall>i. reliable_call (mo_call (mo i) ctx)"
    and "\<forall>i row. stored_detail msg_of (mo i) row errLeaseExpired \<noteq> None"
    and "disposeRows ops c msg_of mo ctx rows s = s'"
  shows "inv s' \<and> (\<forall>k. k \<notin> ID ` set rows \<longrightarrow> abs s' k = abs s k) \<and>
    (\<forall>row \<in> set rows. \<exists>r'. abs s' (ID row) = Some r' \<and> rescued_row row r')"
  using assms
proof (induction rows arbitrary: s mo)
  case Nil
  then show ?case by simp
next
  case (Cons row rows)
  obtain ev s1 where d: "dispose ops c msg_of (mo 0) ctx row errLeaseExpired s = (ev, s1)" by fastforce
  have row: "abs s (ID row) = Some row" "State row = Running" using Cons.prems(3) by simp_all
  have lease: "lease_ok (row_lease row)" using stored_row[OF Cons.prems(1) row(1)] by simp
  obtain j where j: "stored_detail msg_of (mo 0) row errLeaseExpired = Some j" using Cons.prems(5) by blast
  define r1 where "r1 = fate c (mo 0) kept (clock (mo_call (mo 0) ctx)) (Some j) row errLeaseExpired row"
  have s1: "inv s1" "abs s1 = (abs s)(ID row \<mapsto> r1)"
    using dispose_fate[OF Cons.prems(1) lease d] Cons.prems(4) row j
    by (auto simp: guarded_def row_lease_def r1_def)
  have rest: "\<forall>r \<in> set rows. abs s1 (ID r) = Some r \<and> State r = Running"
    using Cons.prems(2,3) s1(2) by (auto simp: image_iff)
  have "inv s' \<and> (\<forall>k. k \<notin> ID ` set rows \<longrightarrow> abs s' k = abs s1 k) \<and>
    (\<forall>row \<in> set rows. \<exists>r'. abs s' (ID row) = Some r' \<and> rescued_row row r')"
    by (rule Cons.IH[of s1 "\<lambda>i. mo (Suc i)"]) (use Cons.prems s1 rest d in auto)
  moreover have "rescued_row row r1" unfolding r1_def by (rule fate_rescued)
  ultimately show ?case using Cons.prems(2) s1(2) by auto
qed

lemma sweep_round:
  assumes "inv s" and call: "reliable_call e" "\<forall>r. visible e r"
    and now: "\<forall>k r. abs s k = Some r \<longrightarrow> expired (clock e) r = expired now r"
    and mo: "\<forall>i. reliable_call (mo_call (mo i) ctx)" "\<forall>i row. stored_detail msg_of (mo i) row errLeaseExpired \<noteq> None"
    and fetch: "drv_FetchExpired ops e d rescueBatch s = (got, s1)"
  obtains rows P where "got = Inr rows" "inv (disposeRows ops c msg_of mo ctx rows s1)"
    "swept (eligible_rows (expired now) (abs s)) P (abs s) (abs (disposeRows ops c msg_of mo ctx rows s1))"
    "card P = length rows" "int (length rows) = min 100 (int (card (eligible_rows (expired now) (abs s))))"
proof -
  let ?E = "eligible_rows (expired now) (abs s)" and ?re = "reclaimRow (clock e) (span d)"
  have bounds: "0 \<le> rescueBatch" "rescueBatch \<le> MaxInt32" by (simp_all add: rescueBatch_def MaxInt32_def)
  have "?E = eligible_rows (\<lambda>r. expired (clock e) r \<and> visible e r) (abs s)"
    using now call(2) by (auto simp: eligible_rows_def)
  then obtain picked rows where p: "picks (\<lambda>r. expired (clock e) r \<and> visible e r) byLeasedUntil 100 (abs s) picked"
      "distinct (map ID picked)" "set picked \<subseteq> ?E" "int (length picked) = min 100 (int (card ?E))"
      "\<forall>p \<in> set picked. \<forall>r \<in> ?E - set picked. (byLeasedUntil p, ID p) < (byLeasedUntil r, ID r)"
    and rows: "mset rows = mset (map ?re picked)" "got = Inr rows" "abs s1 = change_rows ?re picked (abs s)" "inv s1"
    using FetchExpired[OF assms(1) bounds fetch] call(1)
    by (auto simp: fetched_def picks_def rescueBatch_def meets_def)
  have stored: "abs s (ID q) = Some q \<and> State q = Running" if q: "q \<in> set picked" for q
  proof -
    obtain k where k: "abs s k = Some q" "expired now q" using p(3) q by (auto simp: eligible_rows_def)
    then show ?thesis using stored_row[OF assms(1) k(1)] by (simp add: expired_def)
  qed
  have re: "ID (?re q) = ID q" "State (?re q) = State q" for q by (simp_all add: reclaimRow_def)
  have set: "set rows = ?re ` set picked" using arg_cong[OF rows(1), of set_mset] by simp
  have ids: "mset (map ID rows) = mset (map ID picked)" using rows(1) by (simp add: re image_mset.compositionality comp_def)
  have "distinct (map ID rows)" using p(2) mset_eq_imp_distinct_iff[OF ids] by simp
  moreover have "\<forall>row \<in> set rows. abs s1 (ID row) = Some row \<and> State row = Running"
    using stored by (auto simp: set re rows(3) change_rows_def)
  ultimately have d: "inv (disposeRows ops c msg_of mo ctx rows s1)"
      "\<forall>k. k \<notin> ID ` set rows \<longrightarrow> abs (disposeRows ops c msg_of mo ctx rows s1) k = abs s1 k"
      "\<forall>row \<in> set rows. \<exists>r'. abs (disposeRows ops c msg_of mo ctx rows s1) (ID row) = Some r' \<and> rescued_row row r'"
    using disposeRows_rescues[OF rows(4) _ _ mo refl, of rows c] by blast+
  have img: "ID ` set rows = ID ` set picked" by (simp add: set re image_image)
  have "swept ?E (set picked) (abs s) (abs (disposeRows ops c msg_of mo ctx rows s1))"
    unfolding swept_def
  proof (intro conjI)
    show "set picked \<subseteq> ?E" by (rule p(3))
    show "\<forall>p \<in> set picked. \<forall>r \<in> ?E - set picked. (byLeasedUntil p, ID p) < (byLeasedUntil r, ID r)" by (rule p(5))
    show "\<forall>p \<in> set picked. \<exists>r'. abs (disposeRows ops c msg_of mo ctx rows s1) (ID p) = Some r' \<and> rescued_row p r'"
      using d(3) by (auto simp: set re rescued_reclaimed)
    show "\<forall>k. k \<notin> ID ` set picked \<longrightarrow> abs (disposeRows ops c msg_of mo ctx rows s1) k = abs s k"
      using d(2) by (simp add: img rows(3) change_rows_def)
  qed
  moreover have "card (set picked) = length rows"
    using p(2) mset_eq_length[OF rows(1)] by (simp add: distinct_card distinct_map)
  moreover have "int (length rows) = min 100 (int (card ?E))" using p(4) mset_eq_length[OF rows(1)] by simp
  ultimately show ?thesis using that rows(2) d(1) by blast
qed

lemma rescueLoopOnce_sweeps:
  assumes "inv s"
    and call: "\<forall>i. reliable_call (sw_fetch (sw i) ctx) \<and> \<not> sw_cancelled (sw i) \<and> (\<forall>r. visible (sw_fetch (sw i) ctx) r)"
    and now: "\<forall>i k r. abs s k = Some r \<longrightarrow> expired (clock (sw_fetch (sw i) ctx)) r = expired now r"
    and mo: "\<forall>i k. reliable_call (mo_call (sw_row (sw i) k) (WithoutCancel ctx))"
      "\<forall>i k row. stored_detail msg_of (sw_row (sw i) k) row errLeaseExpired \<noteq> None"
  shows "\<exists>s' P. rescueLoopOnce ops c msg_of sw ctx rounds n s = ((n + int (card P), None), s') \<and> inv s' \<and>
    swept (eligible_rows (expired now) (abs s)) P (abs s) (abs s') \<and>
    card P = min (100 * rounds) (card (eligible_rows (expired now) (abs s)))"
  using assms
proof (induction rounds arbitrary: s n sw)
  case 0
  have "swept E {} m m" for E m by (simp add: swept_def)
  then show ?case using 0 by (intro exI[of _ s] exI[of _ "{}"]) simp
next
  case (Suc rounds)
  let ?E = "\<lambda>s. eligible_rows (expired now) (abs s)"
  obtain got s1 where f: "drv_FetchExpired ops (sw_fetch (sw 0) ctx) (c_leaseDuration c) rescueBatch s = (got, s1)"
    by fastforce
  obtain rows P where r: "got = Inr rows" "inv (disposeRows ops c msg_of (sw_row (sw 0)) (WithoutCancel ctx) rows s1)"
    "swept (?E s) P (abs s) (abs (disposeRows ops c msg_of (sw_row (sw 0)) (WithoutCancel ctx) rows s1))"
    "card P = length rows" "int (length rows) = min 100 (int (card (?E s)))"
    by (rule sweep_round[OF Suc.prems(1) _ _ _ _ _ f, where now = now and mo = "sw_row (sw 0)"
          and ctx = "WithoutCancel ctx" and msg_of = msg_of and c = c]) (use Suc.prems in auto)
  define s2 where "s2 = disposeRows ops c msg_of (sw_row (sw 0)) (WithoutCancel ctx) rows s1"
  note r = r[folded s2_def]
  have ids: "\<forall>k x. abs s k = Some x \<longrightarrow> ID x = k" "\<forall>k x. abs s2 k = Some x \<longrightarrow> ID x = k"
    using stored_row[OF Suc.prems(1)] stored_row[OF r(2)] by blast+
  have E: "?E s2 = ?E s - P" by (rule swept_rest[OF r(3) ids])
  have "?E s \<subseteq> ran (abs s)" by (auto simp: eligible_rows_def ran_def)
  then have fin: "finite (?E s)" using finite_subset finite_ran[OF stored_finite[OF Suc.prems(1)]] by blast
  have sub: "P \<subseteq> ?E s" using r(3) by (simp add: swept_def)
  have inj: "inj_on ID (?E s)" using ids(1) by (auto simp: inj_on_def eligible_rows_def)
  show ?case
  proof (cases "length rows < 100")
    case True
    then have "card P = card (?E s)" "card (?E s) < 100" using r(4,5) by simp_all
    moreover have "rescueLoopOnce ops c msg_of sw ctx (Suc rounds) n s = ((n + int (card P), None), s2)"
      using f r(1,4) True by (simp add: s2_def rescueBatch_def Let_def)
    ultimately show ?thesis using r by (intro exI[of _ s2] exI[of _ P]) auto
  next
    case False
    then have len: "length rows = 100" "100 \<le> card (?E s)" using r(5) by simp_all
    have step: "rescueLoopOnce ops c msg_of sw ctx (Suc rounds) n s =
      rescueLoopOnce ops c msg_of (\<lambda>i. sw (Suc i)) ctx rounds (n + 100) s2"
      using f r(1) len Suc.prems(2) by (simp add: s2_def rescueBatch_def Let_def)
    have "expired (clock (sw_fetch (sw (Suc i)) ctx)) x = expired now x" if x: "abs s2 k = Some x" for i k x
    proof (cases "k \<in> ID ` P")
      case True
      then obtain p where "rescued_row p x" using r(3) x by (auto simp: swept_def)
      then show ?thesis using rescued_not_expired by blast
    next
      case False
      then show ?thesis using r(3) x Suc.prems(3) by (simp add: swept_def)
    qed
    then obtain s' Q where q: "rescueLoopOnce ops c msg_of (\<lambda>i. sw (Suc i)) ctx rounds (n + 100) s2 =
        ((n + 100 + int (card Q), None), s')" "inv s'" "swept (?E s2) Q (abs s2) (abs s')"
        "card Q = min (100 * rounds) (card (?E s2))"
      using Suc.IH[of s2 "\<lambda>i. sw (Suc i)" "n + 100"] Suc.prems r(2) by auto
    have sw: "swept (?E s) (P \<union> Q) (abs s) (abs s')" by (rule swept_trans[OF r(3) q(3)[unfolded E] inj])
    have "Q \<subseteq> ?E s - P" using q(3) E by (simp add: swept_def)
    then have "card (P \<union> Q) = 100 + card Q"
      using r(4) len(1) fin sub by (subst card_Un_disjoint) (auto intro: finite_subset)
    moreover have "card (?E s2) = card (?E s) - 100"
      using r(4) len(1) sub fin by (simp add: E card_Diff_subset finite_subset)
    ultimately show ?thesis
      using q sw step len(2) by (intro exI[of _ s'] exI[of _ "P \<union> Q"]) auto
  qed
qed

end

section \<open>Heartbeat\<close>

lemma fetch_spares:
  assumes "fetched b keep key change n m (got, m')" "\<forall>k r. m k = Some r \<longrightarrow> ID r = k"
    and "\<forall>r. ID (change r) = ID r" "\<forall>r. m k = Some r \<longrightarrow> \<not> keep r"
  shows "m' k = m k \<and> (\<forall>rows. got = Inr rows \<longrightarrow> k \<notin> ID ` set rows)"
proof -
  obtain picked rows where p: "set picked \<subseteq> eligible_rows keep m" "mset rows = mset (map change picked)"
    and m: "meets b (Inr rows, change_rows change picked m) m (got, m')"
    using assms(1) by (auto simp: fetched_def picks_def)
  have k: "k \<notin> ID ` set picked"
  proof
    assume "k \<in> ID ` set picked"
    then obtain r where "r \<in> set picked" "k = ID r" by blast
    moreover then obtain k' where "m k' = Some r" "keep r" using p(1) by (auto simp: eligible_rows_def)
    ultimately show False using assms(2,4) by blast
  qed
  have "change_rows change picked m k = m k" using k by (simp add: change_rows_def)
  then have "m' k = m k" using meets_rows[OF m] by auto
  moreover have "k \<notin> ID ` set rows"
  proof -
    have "set rows = change ` set picked" using arg_cong[OF p(2), of set_mset] by simp
    then show ?thesis using k assms(3) by (simp add: image_image)
  qed
  moreover have "got = Inr rows' \<Longrightarrow> rows' = rows" for rows' using m by (auto simp: meets_def call_ok_def)
  ultimately show ?thesis by blast
qed

context driver_contract
begin

lemma extendLeases_extends:
  assumes "inv s" "\<forall>l \<in> set (snapshot infl). lease_ok l"
    and "extendLeases ops c call now infl s = (err, s')"
    and "\<forall>ctx. reliable_call (call ctx) \<and> clock (call ctx) = beat"
  shows "inv s' \<and> err = None \<and> abs s' = extended (beat + span (c_leaseDuration c)) (snapshot infl) (abs s)"
proof (cases "snapshot infl = []")
  case True
  then show ?thesis using assms(1,3) by (simp add: extendLeases_def extended_Nil)
next
  case False
  define ctx where "ctx = WithTimeout \<lparr>ctx_deadline = None, ctx_cancelled = False\<rparr> now (c_heartbeatInterval c)"
  obtain res where call: "drv_ExtendLeases ops (call ctx) (snapshot infl) (c_leaseDuration c) s = (res, s')"
    and err: "err = (case res of Inl err \<Rightarrow> Some err | Inr _ \<Rightarrow> None)"
    using assms(3) False by (auto simp: extendLeases_def ctx_def Let_def split: prod.splits)
  then show ?thesis using ExtendLeases[OF assms(1,2) call] assms(4) by (simp add: meets_def)
qed

lemma heartbeat_shields:
  assumes "inv s" "distinct (map fst infl)" "\<forall>l \<in> set (snapshot infl). lease_ok l"
    and "extendLeases ops c call now infl s = (err, s')"
    and "\<forall>ctx. reliable_call (call ctx) \<and> clock (call ctx) = beat"
    and k: "map_of infl k = Some (Attempt r)" "abs s k = Some r" "State r = Running"
    and sweep: "drv_FetchExpired ops e d n s' = (got, s'')" "0 \<le> n" "n \<le> MaxInt32"
    and soon: "clock e < beat + span (c_leaseDuration c)"
  shows "err = None \<and> abs s'' k = Some (r\<lparr>LeasedUntil := Some (beat + span (c_leaseDuration c))\<rparr>) \<and>
    (\<forall>rows. got = Inr rows \<longrightarrow> k \<notin> ID ` set rows)"
proof -
  let ?until = "beat + span (c_leaseDuration c)"
  have ext: "inv s'" "err = None" "abs s' = extended ?until (snapshot infl) (abs s)"
    using extendLeases_extends[OF assms(1,3,4,5)] by blast+
  have "\<lparr>lease_ID = k, lease_Attempt = Attempt r\<rparr> \<in> set (snapshot infl)" using k(1) assms(2) by (simp add: set_snapshot)
  then have "holds_lease (snapshot infl) k r" using k(3) by (force simp: holds_lease_def)
  then have row: "abs s' k = Some (r\<lparr>LeasedUntil := Some ?until\<rparr>)" using k(2) by (simp add: ext(3) extended_def)
  have "abs s'' k = abs s' k \<and> (\<forall>rows. got = Inr rows \<longrightarrow> k \<notin> ID ` set rows)"
    by (rule fetch_spares[OF conjunct2[OF FetchExpired[OF ext(1) sweep(2,3,1)]]])
      (use row soon stored_row[OF ext(1)] in \<open>auto simp: expired_def reclaimRow_def\<close>)
  then show ?thesis using row ext(2) by simp
qed

end

section \<open>Properties of heartbeat and rescue\<close>

text \<open>C13: a job that is running under a lease of this client is safe from rescuers: after a heartbeat
  at the store's time \<open>beat\<close>, a sweep by any process before the renewed lease ends, which is one
  lease duration later and so after the next heartbeat is due, does not return the job and leaves
  its row, with the renewed lease, alone.\<close>

theorem heartbeat_protects:
  assumes "jsonb_objects svc" "table_wf t" "distinct (map fst infl)" "\<forall>l \<in> set (snapshot infl). lease_Attempt l \<le> MaxInt32"
    and "extendLeases (pg_ops svc) c call now infl t = (err, t')"
    and "\<forall>ctx. reliable (call ctx) \<and> se_now (call ctx) 0 = beat"
    and "map_of infl k = Some (Attempt r)" "db_abs t k = Some r" "State r = Running"
    and "pg_FetchExpired svc alone env d n t' = (got, t'')" "0 \<le> n" "n \<le> MaxInt32"
    and "se_now env 0 < beat + make_interval svc (c_leaseDuration c)"
  shows "err = None \<and> db_abs t'' k = Some (r\<lparr>LeasedUntil := Some (beat + make_interval svc (c_leaseDuration c))\<rparr>) \<and>
    (\<forall>rows. got = Inr rows \<longrightarrow> k \<notin> ID ` set rows)"
proof -
  have sweep: "drv_FetchExpired (pg_ops svc) env d n t' = (got, t'')" using assms(10) by (simp add: pg_ops_def)
  show ?thesis
    by (rule driver_contract.heartbeat_shields[OF pg_contract[OF assms(1)] assms(2-9) sweep assms(11-13)])
qed

theorem heartbeat_protects_witness:
  "\<exists>t' got t''. extendLeases (pg_ops demo_svc) demo_client (\<lambda>_. demo_env) 0 [(1, 1)] demo_running = (None, t') \<and>
     pg_FetchExpired demo_svc alone demo_env minute 100 t' = (got, t'') \<and> (\<forall>rows. got = Inr rows \<longrightarrow> 1 \<notin> ID ` set rows)"
proof -
  obtain err t' where beat: "extendLeases (pg_ops demo_svc) demo_client (\<lambda>_. demo_env) 0 [(1, 1)] demo_running = (err, t')"
    by fastforce
  obtain got t'' where sweep: "pg_FetchExpired demo_svc alone demo_env minute 100 t' = (got, t'')" by fastforce
  have lease: "c_leaseDuration demo_client = 5 * second"
    by (simp add: demo_client_def newClient_cases demo_config_def periodic_ok_def Let_def minLeaseDuration_def)
  have "err = None \<and> (\<forall>rows. got = Inr rows \<longrightarrow> 1 \<notin> ID ` set rows)"
    using heartbeat_protects[OF demo_svc_objects demo_tables_wf(2) _ _ beat _ _ demo_claimed_facts(1) _ sweep, of 9000]
      demo_env_reliable demo_claimed_facts
    by (simp add: snapshot_def demo_env_def demo_svc_def MaxInt32_def lease)
  then show ?thesis using beat sweep by blast
qed

text \<open>C12: one rescue sweep on PostgreSQL, undisturbed, ends after at most ten rounds and takes exactly
  the thousand jobs whose leases ran out first, or all of them if there are fewer: each becomes due
  for a retry, or dead if its attempts are spent, with one more recorded error and nothing else
  about it changed; it reports their number, and no other row changes.\<close>

theorem rescueOnce_sweeps:
  assumes "jsonb_objects svc" "table_wf t"
    and "\<forall>i. reliable (sw_fetch (sw i) ctx) \<and> se_locked (sw_fetch (sw i) ctx) = [] \<and> \<not> sw_cancelled (sw i)"
    and "\<forall>i k r. db_abs t k = Some r \<longrightarrow> expired (se_now (sw_fetch (sw i) ctx) 0) r = expired now r"
    and "\<forall>i k. reliable (mo_call (sw_row (sw i) k) (WithoutCancel ctx))"
    and "\<forall>i k row. \<exists>d. detail_of msg_of (sw_row (sw i) k) row errLeaseExpired = Some d \<and> jsonb_in svc (Valid d) \<noteq> None"
  shows "\<exists>t' P. rescueOnce (pg_ops svc) c msg_of sw ctx t = ((int (card P), None), t') \<and> table_wf t' \<and>
    card P = min 1000 (card (eligible_rows (expired now) (db_abs t))) \<and>
    swept (eligible_rows (expired now) (db_abs t)) P (db_abs t) (db_abs t')"
proof -
  have d: "Option.bind (detail_of msg_of (sw_row (sw i) k) row errLeaseExpired) (\<lambda>d. jsonb_in svc (Valid d)) \<noteq> None" for i k row
    using assms(6)[rule_format, of i k row] by auto
  have "\<exists>t' P. rescueLoopOnce (pg_ops svc) c msg_of sw ctx rescueRounds 0 t = ((0 + int (card P), None), t') \<and> table_wf t' \<and>
    swept (eligible_rows (expired now) (db_abs t)) P (db_abs t) (db_abs t') \<and>
    card P = min (100 * rescueRounds) (card (eligible_rows (expired now) (db_abs t)))"
    by (rule driver_contract.rescueLoopOnce_sweeps[OF pg_contract[OF assms(1)] assms(2)])
      (use assms(3-5) d in \<open>simp_all del: not_None_eq\<close>)
  then show ?thesis by (auto simp: rescueOnce_def rescueRounds_def)
qed

definition demo_sweep :: "nat \<Rightarrow> sql_env sweep" where
  "demo_sweep i = \<lparr>sw_fetch = (\<lambda>ctx. demo_env), sw_row = (\<lambda>k. demo_moment), sw_cancelled = False\<rparr>"

theorem rescueOnce_sweeps_witness:
  "\<exists>t'. rescueOnce (pg_ops demo_svc) demo_client (\<lambda>_. ''lost'') demo_sweep demo_ctx demo_running = ((1, None), t') \<and>
     (\<exists>r. db_abs t' 1 = Some r \<and> rescued_row demo_claimed r)"
proof -
  have one: "k = 1 \<and> r = demo_claimed" if "db_abs demo_running k = Some r" for k r
  proof -
    have "map db_ID (db_rows demo_running) = [1]" by code_simp
    then have "k = 1" using that by (auto simp: db_abs_def map_eq_Cons_conv split: if_splits)
    then show ?thesis using that demo_claimed_facts(1) by simp
  qed
  have "expired 9000 demo_claimed" by code_simp
  then have E: "eligible_rows (expired 9000) (db_abs demo_running) = {demo_claimed}"
    using one demo_claimed_facts(1) by (auto simp: eligible_rows_def)
  have "Year 9000 = 1" by code_simp
  then have d: "\<exists>d. detail_of (\<lambda>_. ''lost'') demo_moment row err = Some d \<and> jsonb_in demo_svc (Valid d) \<noteq> None" for row err
    by (simp add: detail_of_def marshal_attempt_error_def demo_moment_def demo_svc_def)
  obtain t' P where "rescueOnce (pg_ops demo_svc) demo_client (\<lambda>_. ''lost'') demo_sweep demo_ctx demo_running = ((int (card P), None), t')"
    "card P = min 1000 (card {demo_claimed})" "swept {demo_claimed} P (db_abs demo_running) (db_abs t')"
    using rescueOnce_sweeps[OF demo_svc_objects demo_tables_wf(2), of demo_sweep demo_ctx 9000 "\<lambda>_. ''lost''" demo_client]
      d demo_env_reliable
    by (auto simp: demo_sweep_def E) (auto simp: demo_env_def demo_moment_def)
  moreover then have "P = {demo_claimed}" by (auto simp: swept_def subset_singleton_iff)
  ultimately show ?thesis by (auto simp: swept_def demo_claimed_facts)
qed

section \<open>The loops\<close>

text \<open>The loop of \<^verbatim>\<open>heartbeat\<close>, as what its \<^verbatim>\<open>select\<close> receives, in order, with what the rest
  of the system does in between.\<close>

datatype ('e, 's) beat =
    BeatStop
  | BeatTick "go_context \<Rightarrow> 'e" time
  | BeatOthers "inflight_set \<times> 's \<Rightarrow> inflight_set \<times> 's"

fun heartbeat :: "('e, 's) driver_ops \<Rightarrow> client \<Rightarrow> ('e, 's) beat list \<Rightarrow> inflight_set \<times> 's \<Rightarrow> inflight_set \<times> 's" where
  "heartbeat ops c [] st = st"
| "heartbeat ops c (BeatStop # beats) st = st"
| "heartbeat ops c (BeatTick call now # beats) st =
     heartbeat ops c beats (fst st, snd (extendLeases ops c call now (fst st) (snd st)))"
| "heartbeat ops c (BeatOthers f # beats) st = heartbeat ops c beats (f st)"

text \<open>The loop of \<^verbatim>\<open>rescueLoop\<close>; a tick also says whether the context is cancelled when its sweep
  returns.\<close>

datatype ('e, 's) rescue_event =
    RescueStop
  | RescueTick "nat \<Rightarrow> 'e sweep" go_context bool
  | RescueOthers "'s \<Rightarrow> 's"

fun rescueLoop ::
  "('e, 's) driver_ops \<Rightarrow> client \<Rightarrow> (go_error \<Rightarrow> string) \<Rightarrow> ('e, 's) rescue_event list \<Rightarrow> 's \<Rightarrow> 's" where
  "rescueLoop ops c msg_of [] s = s"
| "rescueLoop ops c msg_of (RescueStop # evs) s = s"
| "rescueLoop ops c msg_of (RescueTick sw ctx cancelled # evs) s =
     (case rescueOnce ops c msg_of sw ctx s of
        ((rescued, None), s') \<Rightarrow> rescueLoop ops c msg_of evs s'
      | ((rescued, Some err), s') \<Rightarrow> if cancelled then s' else rescueLoop ops c msg_of evs s')"
| "rescueLoop ops c msg_of (RescueOthers f # evs) s = rescueLoop ops c msg_of evs (f s)"

text \<open>Whatever fails, both loops leave the store well formed as long as the others do.\<close>

context driver_contract
begin

lemma extendLeases_inv:
  assumes "inv s" "\<forall>l \<in> set (snapshot infl). lease_ok l"
  shows "inv (snd (extendLeases ops c call now infl s))"
  using assms ExtendLeases[OF assms] by (auto simp: extendLeases_def Let_def split: prod.splits)

lemma heartbeat_inv:
  assumes "inv (snd st)" "\<forall>l \<in> set (snapshot (fst st)). lease_ok l"
    and "\<forall>f st. BeatOthers f \<in> set beats \<longrightarrow> inv (snd st) \<longrightarrow> inv (snd (f st)) \<and> (\<forall>l \<in> set (snapshot (fst (f st))). lease_ok l)"
  shows "inv (snd (heartbeat ops c beats st))"
  using assms
proof (induction beats arbitrary: st)
  case Nil
  then show ?case by simp
next
  case (Cons beat beats)
  show ?case
  proof (cases beat)
    case BeatStop
    then show ?thesis using Cons.prems by simp
  next
    case (BeatTick call now)
    then show ?thesis using Cons.prems extendLeases_inv Cons.IH by simp
  next
    case (BeatOthers f)
    have "inv (snd (f st)) \<and> (\<forall>l \<in> set (snapshot (fst (f st))). lease_ok l)"
      using Cons.prems(1,3) BeatOthers by (metis list.set_intros(1))
    then show ?thesis using Cons.prems(3) Cons.IH[of "f st"] BeatOthers by simp
  qed
qed

end

end
