(* ===== verification/Scheduler.thy ===== *)
theory Scheduler
  imports Loop
begin

text \<open>
  The scheduler of periodic jobs (\<^verbatim>\<open>scheduler.go\<close>): it enqueues one job for every tick of
  every schedule while it is the leader.
\<close>

section \<open>Ticks\<close>

definition periodicUniqueKey :: "string \<Rightarrow> time \<Rightarrow> string" where
  "periodicUniqueKey pid fire = pid @ ''/'' @ format_RFC3339Nano fire"

text \<open>What one tick meets: whether the context was cancelled before its insert, the call to the
  store, and whether the context was cancelled when the call returned.\<close>

record 'e tick_env =
  te_stopped :: bool
  te_call :: 'e
  te_cancelled :: bool

definition insertPeriodicTick ::
  "('e, 's) driver_ops \<Rightarrow> client \<Rightarrow> bool \<Rightarrow> 'e tick_env \<Rightarrow> periodic_entry \<Rightarrow> time \<Rightarrow> signals \<times> 's \<Rightarrow> bool \<times> signals \<times> 's" where
  "insertPeriodicTick ops c notifier env entry fire st =
     (let job = pe_job entry;
          opts = (case pj_Opts job of None \<Rightarrow> \<lparr>io_Queue = [], io_ScheduledAt = 0, io_UniqueKey = []\<rparr> | Some o' \<Rightarrow> o');
          opts = opts\<lparr>io_ScheduledAt := fire, io_UniqueKey := periodicUniqueKey (pj_ID job) fire\<rparr>;
          (res, st') = c_Insert ops c notifier (te_call env) (pj_Args job) (Some opts) st
      in case res of
           Inr _ \<Rightarrow> (True, st')
         | Inl err \<Rightarrow> if te_cancelled env then (False, st') else (errors_Is err DuplicateJob, st'))"

text \<open>
  The inner loop of \<^verbatim>\<open>enqueueDuePeriodic\<close> for one entry: whether the context stopped it, the
  last tick that is done, the next one, and the new state. \<open>n\<close> numbers the inserts. The loop is
  None if it never ends.
\<close>

partial_function (option) tickLoop ::
  "('e, 's) driver_ops \<Rightarrow> client \<Rightarrow> bool \<Rightarrow> (nat \<Rightarrow> 'e tick_env) \<Rightarrow> periodic_entry \<Rightarrow> time \<Rightarrow> nat \<Rightarrow> time \<Rightarrow> time \<Rightarrow>
   signals \<times> 's \<Rightarrow> (bool \<times> time \<times> time \<times> signals \<times> 's) option" where
  "tickLoop ops c notifier env entry now n prev fire st =
     (if \<not> IsZero fire \<and> \<not> After fire now then
        if te_stopped (env n) then Some (True, prev, fire, st)
        else let r = insertPeriodicTick ops c notifier (env n) entry fire st
             in if fst r
                then Option.bind (Next (pe_schedule entry) fire)
                       (\<lambda>fire'. tickLoop ops c notifier env entry now (Suc n) fire fire' (snd r))
                else Some (False, prev, fire, snd r)
      else Some (False, prev, fire, st))"

text \<open>The loop over the entries and their last ticks; \<open>behind\<close> holds those of the entries before.
  The result is the time to wait, the last ticks and the new state.\<close>

fun enqueueEntries ::
  "('e, 's) driver_ops \<Rightarrow> client \<Rightarrow> bool \<Rightarrow> (nat \<Rightarrow> nat \<Rightarrow> 'e tick_env) \<Rightarrow> time \<Rightarrow> periodic_entry list \<Rightarrow> time list \<Rightarrow>
   time list \<Rightarrow> time \<Rightarrow> signals \<times> 's \<Rightarrow> (duration \<times> time list \<times> signals \<times> 's) option" where
  "enqueueEntries ops c notifier env now (entry # entries) (prev # prevs) behind soonest st =
     Option.bind (Next (pe_schedule entry) prev) (\<lambda>fire.
     Option.bind (tickLoop ops c notifier (env (length behind)) entry now 0 prev fire st) (\<lambda>(stopped, prev', fire', st').
       if stopped then Some (0, behind @ prev' # prevs, st')
       else enqueueEntries ops c notifier env now entries prevs (behind @ [prev'])
              (if IsZero fire' then soonest
               else if IsZero soonest \<or> Before fire' soonest then fire' else soonest) st'))"
| "enqueueEntries ops c notifier env now entries prevs behind soonest st =
     Some (if IsZero soonest then c_pollInterval c else soonest - now, behind @ prevs, st)"

definition enqueueDuePeriodic ::
  "('e, 's) driver_ops \<Rightarrow> client \<Rightarrow> bool \<Rightarrow> (nat \<Rightarrow> nat \<Rightarrow> 'e tick_env) \<Rightarrow> time \<Rightarrow> time list \<Rightarrow> signals \<times> 's \<Rightarrow>
   (duration \<times> time list \<times> signals \<times> 's) option" where
  "enqueueDuePeriodic ops c notifier env now lastFire st =
     enqueueEntries ops c notifier env now (c_periodic c) lastFire [] 0 st"

section \<open>The scheduler\<close>

text \<open>
  One turn of \<^verbatim>\<open>schedulePeriodic\<close>: whether the context is cancelled at its start, and after
  the driver was asked for leadership; the answer of the driver, an error or whether it leads,
  if it elects leaders at all; the clock when leadership begins and when ticks are computed; the
  inserts; and whether the wait at its end outlives the context.
\<close>

record 'e turn =
  tn_cancelled :: bool
  tn_leader :: "(string + bool) option"
  tn_cancelled2 :: bool
  tn_gained :: time
  tn_now :: time
  tn_ticks :: "nat \<Rightarrow> nat \<Rightarrow> 'e tick_env"
  tn_waited :: bool

definition waitFetch :: "bool \<Rightarrow> duration \<Rightarrow> duration \<times> bool" where
  "waitFetch alive d = (if d < 0 then 0 else d, alive)"

record scheduler =
  sch_lastFire :: "time list"
  sch_wasLeader :: bool
  sch_waits :: "duration list"

text \<open>The result of a turn: whether the loop goes on, and the state. The waits are collected.\<close>

definition scheduleTurn ::
  "('e, 's) driver_ops \<Rightarrow> client \<Rightarrow> bool \<Rightarrow> 'e turn \<Rightarrow> scheduler \<times> signals \<times> 's \<Rightarrow>
   (bool \<times> scheduler \<times> signals \<times> 's) option" where
  "scheduleTurn ops c notifier tn sst =
     (let (sch, st) = sst;
          waiting = (\<lambda>d sch st. case waitFetch (tn_waited tn) d of
            (d', alive) \<Rightarrow> Some (alive, sch\<lparr>sch_waits := sch_waits sch @ [d']\<rparr>, st))
      in if tn_cancelled tn then Some (False, sch, st)
         else case tn_leader tn of
           Some (Inl err) \<Rightarrow>
             if tn_cancelled2 tn then Some (False, sch, st)
             else waiting (c_pollInterval c) (sch\<lparr>sch_wasLeader := False\<rparr>) st
         | leadership \<Rightarrow>
             if leadership \<noteq> None \<and> tn_cancelled2 tn then Some (False, sch, st)
             else if leadership = Some (Inr False) then
               waiting (c_pollInterval c) (sch\<lparr>sch_wasLeader := False\<rparr>) st
             else
               let sch1 = (if sch_wasLeader sch then sch
                           else sch\<lparr>sch_wasLeader := True, sch_lastFire := map (\<lambda>_. tn_gained tn) (sch_lastFire sch)\<rparr>)
               in case enqueueDuePeriodic ops c notifier (tn_ticks tn) (tn_now tn) (sch_lastFire sch1) st of
                    None \<Rightarrow> None
                  | Some (wait, lastFire, st') \<Rightarrow> waiting wait (sch1\<lparr>sch_lastFire := lastFire\<rparr>) st')"

fun scheduleTurns ::
  "('e, 's) driver_ops \<Rightarrow> client \<Rightarrow> bool \<Rightarrow> 'e turn list \<Rightarrow> scheduler \<times> signals \<times> 's \<Rightarrow> (scheduler \<times> signals \<times> 's) option" where
  "scheduleTurns ops c notifier [] sst = Some sst"
| "scheduleTurns ops c notifier (tn # tns) sst =
     (case scheduleTurn ops c notifier tn sst of
        None \<Rightarrow> None
      | Some (alive, sst') \<Rightarrow> if alive then scheduleTurns ops c notifier tns sst' else Some sst')"

definition schedulePeriodic ::
  "('e, 's) driver_ops \<Rightarrow> client \<Rightarrow> bool \<Rightarrow> 'e turn list \<Rightarrow> signals \<times> 's \<Rightarrow> (scheduler \<times> signals \<times> 's) option" where
  "schedulePeriodic ops c notifier tns st =
     scheduleTurns ops c notifier tns
       (\<lparr>sch_lastFire = replicate (length (c_periodic c)) 0, sch_wasLeader = False, sch_waits = []\<rparr>, st)"

section \<open>Keys of ticks\<close>

lemma pad_no_slash: "0 \<le> n \<Longrightarrow> CHR ''/'' \<notin> set (pad k n)"
  using digits_no_char[of "CHR ''/''" n] by (simp add: pad_def Let_def digit_value_def)

lemma format_no_slash:
  assumes "0 \<le> Year t"
  shows "CHR ''/'' \<notin> set (format_RFC3339Nano t)"
proof -
  have "0 \<le> Month t" "0 \<le> Day t" using wall_fields[of t] by simp_all
  moreover have "0 \<le> Hour t" "0 \<le> Minute t" "0 \<le> Second t" "0 \<le> Nanosecond t"
    by (simp_all add: Hour_def Minute_def Second_def Nanosecond_def)
  moreover have "CHR ''/'' \<notin> set (fraction n)" if "0 \<le> n" for n
    using pad_no_slash[OF that, of 9] by (auto simp: fraction_def dest: set_dropWhileD)
  ultimately show ?thesis using pad_no_slash assms by (auto simp: format_RFC3339Nano_def)
qed

lemma last_slash:
  assumes "p @ CHR ''/'' # s = q @ CHR ''/'' # t" "CHR ''/'' \<notin> set s" "CHR ''/'' \<notin> set t"
  shows "p = q \<and> s = t"
proof -
  have eq: "rev s @ CHR ''/'' # rev p = rev t @ CHR ''/'' # rev q"
    using arg_cong[OF assms(1), of rev] by simp
  have "takeWhile (\<lambda>c. c \<noteq> CHR ''/'') (rev x @ CHR ''/'' # y) = rev x" if "CHR ''/'' \<notin> set x" for x y
    using that by (subst takeWhile_append2) auto
  then have "rev s = rev t" using eq assms(2,3) by metis
  then show ?thesis using eq by simp
qed

lemma periodicUniqueKey_inj:
  assumes "periodicUniqueKey a f = periodicUniqueKey b g"
    and "0 \<le> Year f" "Year f \<le> 9999" "0 \<le> Year g" "Year g \<le> 9999"
  shows "a = b \<and> f = g"
  using last_slash[of a "format_RFC3339Nano f" b "format_RFC3339Nano g"] assms format_no_slash format_RFC3339Nano_inj
  by (auto simp: periodicUniqueKey_def)

section \<open>Schedules that move on\<close>

text \<open>The instants a schedule names, and the schedules whose clock is never set back.\<close>

fun names :: "schedule \<Rightarrow> time \<Rightarrow> bool" where
  "names (CronSchedule s) u \<longleftrightarrow> minute dvd u \<and> matches s u"
| "names (EverySchedule d) u \<longleftrightarrow> d dvd u"

fun advances :: "schedule \<Rightarrow> bool" where
  "advances (CronSchedule s) \<longleftrightarrow> steady (cs_loc s)"
| "advances (EverySchedule d) \<longleftrightarrow> 0 < d"

lemma Next_advances:
  assumes "advances sched"
  obtains f where "Next sched t = Some f"
    "f = 0 \<or> t < f \<and> names sched f \<and> (\<forall>u. t < u \<and> u < f \<longrightarrow> \<not> names sched u)"
proof (cases sched)
  case (CronSchedule s)
  then show ?thesis using that cron_Next_facts[of s t] assms by auto
next
  case (EverySchedule d)
  let ?f = "t - t mod d + d"
  have d: "0 < d" using EverySchedule assms by simp
  have "\<not> d dvd u" if "t < u" "u < ?f" for u
  proof
    assume "d dvd u"
    then obtain k where k: "u = d * k" by blast
    obtain m where m: "t - t mod d = d * m" by (metis minus_mod_eq_mult_div mult.commute)
    have "d * m < d * k" "d * k < d * (m + 1)" using that every_Next_eq(3)[OF d, of t] by (simp_all add: k m[symmetric] algebra_simps)
    then show False using d by simp
  qed
  then show ?thesis using that[of ?f] EverySchedule every_Next_eq[OF d, of t] by auto
qed

section \<open>The ticks of one entry\<close>

definition tick_opts :: "periodic_entry \<Rightarrow> time \<Rightarrow> insert_opts" where
  "tick_opts entry fire =
     (case pj_Opts (pe_job entry) of None \<Rightarrow> \<lparr>io_Queue = [], io_ScheduledAt = 0, io_UniqueKey = []\<rparr> | Some o' \<Rightarrow> o')
       \<lparr>io_ScheduledAt := fire, io_UniqueKey := periodicUniqueKey (pj_ID (pe_job entry)) fire\<rparr>"

text \<open>The parameters a tick is inserted with, for arguments that marshal.\<close>

definition tick_params :: "periodic_entry \<Rightarrow> time \<Rightarrow> insert_params" where
  "tick_params entry fire =
     (case pj_Args (pe_job entry) of Some a \<Rightarrow> params_of a (projr (ja_Marshal a)) (Some (tick_opts entry fire)))"

definition args_ok :: "periodic_entry \<Rightarrow> bool" where
  "args_ok entry \<longleftrightarrow>
     (\<exists>a encoded. pj_Args (pe_job entry) = Some a \<and> ja_Kind a \<noteq> [] \<and> ja_Marshal a = Inr encoded)"

definition entry_ok :: "periodic_entry \<Rightarrow> bool" where
  "entry_ok entry \<longleftrightarrow> advances (pe_schedule entry) \<and> args_ok entry"

lemma insertPeriodicTick_mem:
  assumes "args_ok entry" "\<not> te_cancelled env"
  shows "\<exists>sg'. insertPeriodicTick mem_ops c notifier env entry fire (sg, s) =
    (True, sg', snd (mem_Insert (te_call env) (tick_params entry fire) s))"
proof -
  obtain a encoded where a: "pj_Args (pe_job entry) = Some a" "ja_Kind a \<noteq> []" "ja_Marshal a = Inr encoded"
    using assms(1) by (auto simp: args_ok_def)
  then have p: "insertParamsFor (Some a) (Some (tick_opts entry fire)) = Inr (tick_params entry fire)"
    by (simp add: insertParamsFor_eq tick_params_def)
  show ?thesis
    using a(1) p assms(2)
    by (simp add: insertPeriodicTick_def tick_opts_def[symmetric] c_Insert_eq mem_Insert_def Let_def)
qed

lemma tick_slot:
  assumes "args_ok entry"
  shows "ip_UniqueKey (tick_params entry u) = periodicUniqueKey (pj_ID (pe_job entry)) u"
    "ip_ScheduledAt (tick_params entry u) = u"
    "ip_UniqueKey (tick_params entry u) \<noteq> []"
  using assms by (auto simp: args_ok_def tick_params_def params_of_def tick_opts_def periodicUniqueKey_def split: option.split)

text \<open>The stores before and after the ticks of the instants \<open>U\<close>: no row is lost or changed, every
  instant has an active job of its own, and a job that is new is the one of such an instant.\<close>

definition has_tick :: "periodic_entry \<Rightarrow> mem_store \<Rightarrow> time \<Rightarrow> bool" where
  "has_tick entry s u \<longleftrightarrow> (\<exists>k r. row_of s k = Some r \<and> uniqueActive (State r) \<and>
     Queue r = ip_Queue (tick_params entry u) \<and> Kind r = ip_Kind (tick_params entry u) \<and>
     UniqueKey r = periodicUniqueKey (pj_ID (pe_job entry)) u)"

definition ticked :: "periodic_entry \<Rightarrow> (time \<Rightarrow> bool) \<Rightarrow> mem_store \<Rightarrow> mem_store \<Rightarrow> bool" where
  "ticked entry U s s' \<longleftrightarrow>
     (\<forall>k r. row_of s k = Some r \<longrightarrow> row_of s' k = Some r) \<and>
     (\<forall>u. U u \<longrightarrow> has_tick entry s' u) \<and>
     (\<forall>k r. row_of s' k = Some r \<and> row_of s k = None \<longrightarrow> (\<exists>u now. U u \<and> r = jobFromParams k (tick_params entry u) now))"

lemma has_tick_mono:
  "has_tick entry s u \<Longrightarrow> \<forall>k r. row_of s k = Some r \<longrightarrow> row_of s' k = Some r \<Longrightarrow> has_tick entry s' u"
  unfolding has_tick_def by meson

lemma ticked_Insert:
  assumes "args_ok entry" "store_wf s"
  shows "ticked entry (\<lambda>v. v = u) s (snd (mem_Insert now (tick_params entry u) s))"
proof (cases "uniqueConflict s (ip_Queue (tick_params entry u)) (ip_Kind (tick_params entry u)) (ip_UniqueKey (tick_params entry u)) []")
  case True
  then obtain r where r: "r \<in> set (map snd (jobs s))" "UniqueKey r = ip_UniqueKey (tick_params entry u)"
      "Queue r = ip_Queue (tick_params entry u)" "Kind r = ip_Kind (tick_params entry u)" "uniqueActive (State r)"
    by (auto simp: uniqueConflict_def split: if_splits)
  then obtain k where "row_of s k = Some r" using assms(2) by (auto simp: row_of_mem)
  then show ?thesis using True r tick_slot[OF assms(1)] by (auto simp: ticked_def has_tick_def mem_Insert_def)
next
  case False
  let ?row = "jobFromParams (nextID s + 1) (tick_params entry u) now"
  have s': "row_of (snd (mem_Insert now (tick_params entry u) s)) = (row_of s)(nextID s + 1 \<mapsto> ?row)"
    using False by (simp add: mem_Insert_def Let_def update_conv')
  have "row_of s (nextID s + 1) = None" using store_wf_row(3)[OF assms(2), of "nextID s + 1"] by (cases "row_of s (nextID s + 1)") auto
  moreover have "has_tick entry (snd (mem_Insert now (tick_params entry u) s)) u"
    unfolding has_tick_def s' by (intro exI[of _ "nextID s + 1"] exI[of _ ?row]) (simp add: tick_slot[OF assms(1)])
  ultimately show ?thesis unfolding ticked_def s' by auto
qed

lemma ticked_trans:
  assumes "ticked entry U s s1" "ticked entry V s1 s2"
  shows "ticked entry (\<lambda>u. U u \<or> V u) s s2"
proof -
  have keep: "row_of s k = Some r \<Longrightarrow> row_of s2 k = Some r" for k r using assms by (simp add: ticked_def)
  have ticks: "has_tick entry s2 u" if "U u \<or> V u" for u
    using that assms has_tick_mono[of entry s1 u s2] by (auto simp: ticked_def)
  have new: "\<exists>u now. (U u \<or> V u) \<and> r = jobFromParams k (tick_params entry u) now"
    if "row_of s2 k = Some r" "row_of s k = None" for k r
  proof (cases "row_of s1 k")
    case None
    then show ?thesis using assms(2) that by (fastforce simp: ticked_def)
  next
    case (Some r1)
    then have "r1 = r" using assms(2) that(1) by (auto simp: ticked_def)
    then show ?thesis using assms(1) Some that(2) by (fastforce simp: ticked_def)
  qed
  show ?thesis unfolding ticked_def using keep ticks new by blast
qed

lemma tickLoop_mem:
  assumes "entry_ok entry" "\<forall>n. \<not> te_stopped (env n) \<and> \<not> te_cancelled (env n)"
    and "Next (pe_schedule entry) prev = Some fire" "store_wf s" "unique_ok s"
  shows "\<exists>prev' fire' sg' s'. tickLoop mem_ops c notifier env entry now n prev fire (sg, s) = Some (False, prev', fire', sg', s') \<and>
    Next (pe_schedule entry) prev' = Some fire' \<and> prev \<le> prev' \<and> (prev' = prev \<or> prev' \<le> now) \<and>
    (fire' = 0 \<or> now < fire') \<and> store_wf s' \<and> unique_ok s' \<and>
    ticked entry (\<lambda>u. prev < u \<and> u \<le> prev' \<and> names (pe_schedule entry) u) s s'"
  using assms(3-)
proof (induction "if fire = 0 then 0 else nat (now + 1 - fire)" arbitrary: n prev fire sg s rule: less_induct)
  case less
  have adv: "advances (pe_schedule entry)" and args: "args_ok entry" using assms(1) by (simp_all add: entry_ok_def)
  have nxt: "fire = 0 \<or> prev < fire \<and> names (pe_schedule entry) fire \<and>
      (\<forall>u. prev < u \<and> u < fire \<longrightarrow> \<not> names (pe_schedule entry) u)"
    using Next_advances[OF adv, of prev] less.prems(1) by auto
  show ?case
  proof (cases "fire = 0 \<or> now < fire")
    case True
    then have "tickLoop mem_ops c notifier env entry now n prev fire (sg, s) = Some (False, prev, fire, sg, s)"
      by (subst tickLoop.simps) auto
    moreover have "ticked entry (\<lambda>u. prev < u \<and> u \<le> prev \<and> names (pe_schedule entry) u) s s" by (auto simp: ticked_def)
    ultimately show ?thesis using True less.prems by blast
  next
    case False
    define s1 where "s1 = snd (mem_Insert (te_call (env n)) (tick_params entry fire) s)"
    obtain sg1 where ins: "insertPeriodicTick mem_ops c notifier (env n) entry fire (sg, s) = (True, sg1, s1)"
      using insertPeriodicTick_mem[OF args] assms(2) unfolding s1_def by blast
    obtain fire2 where f2: "Next (pe_schedule entry) fire = Some fire2" "fire2 = 0 \<or> fire < fire2"
      by (rule Next_advances[OF adv, of fire]) auto
    have ok: "store_wf s1" "unique_ok s1"
      using less.prems by (simp_all add: s1_def store_wf_Insert unique_ok_Insert)
    have step: "tickLoop mem_ops c notifier env entry now n prev fire (sg, s) =
        tickLoop mem_ops c notifier env entry now (Suc n) fire fire2 (sg1, s1)"
      using False assms(2) ins f2(1) by (subst tickLoop.simps) (simp add: Let_def)
    have dec: "(if fire2 = 0 then 0 else nat (now + 1 - fire2)) < (if fire = 0 then 0 else nat (now + 1 - fire))"
      using f2(2) False by auto
    obtain prev' fire' sg' s' where rec: "tickLoop mem_ops c notifier env entry now (Suc n) fire fire2 (sg1, s1) =
          Some (False, prev', fire', sg', s')"
        "Next (pe_schedule entry) prev' = Some fire'" "fire \<le> prev'" "prev' = fire \<or> prev' \<le> now"
        "fire' = 0 \<or> now < fire'" "store_wf s'" "unique_ok s'"
        "ticked entry (\<lambda>u. fire < u \<and> u \<le> prev' \<and> names (pe_schedule entry) u) s1 s'"
      using less.hyps[OF dec f2(1) ok, of "Suc n" sg1] by blast
    have "ticked entry (\<lambda>u. u = fire \<or> fire < u \<and> u \<le> prev' \<and> names (pe_schedule entry) u) s s'"
      using ticked_trans[OF ticked_Insert[OF args less.prems(2)] rec(8)[unfolded s1_def]] .
    moreover have "(\<lambda>u. u = fire \<or> fire < u \<and> u \<le> prev' \<and> names (pe_schedule entry) u) =
        (\<lambda>u. prev < u \<and> u \<le> prev' \<and> names (pe_schedule entry) u)"
      using nxt False rec(3) by (fastforce simp: fun_eq_iff)
    ultimately have "ticked entry (\<lambda>u. prev < u \<and> u \<le> prev' \<and> names (pe_schedule entry) u) s s'" by simp
    then show ?thesis using rec step nxt False by fastforce
  qed
qed

section \<open>All entries\<close>

text \<open>The stores before and after the due ticks of a list of entries with their last ticks.\<close>

definition all_ticked :: "(periodic_entry \<times> time) list \<Rightarrow> time \<Rightarrow> mem_store \<Rightarrow> mem_store \<Rightarrow> bool" where
  "all_ticked eps now s s' \<longleftrightarrow>
     (\<forall>k r. row_of s k = Some r \<longrightarrow> row_of s' k = Some r) \<and>
     (\<forall>(entry, prev) \<in> set eps. \<forall>u. prev < u \<and> u \<le> now \<and> names (pe_schedule entry) u \<and>
        (\<forall>t. prev \<le> t \<and> t < u \<longrightarrow> Next (pe_schedule entry) t \<noteq> Some 0) \<longrightarrow> has_tick entry s' u) \<and>
     (\<forall>k r. row_of s' k = Some r \<and> row_of s k = None \<longrightarrow>
        (\<exists>(entry, prev) \<in> set eps. \<exists>u now0. prev < u \<and> u \<le> now \<and> names (pe_schedule entry) u \<and>
           r = jobFromParams k (tick_params entry u) now0))"

lemma all_ticked_Cons:
  assumes "ticked entry (\<lambda>u. prev < u \<and> u \<le> prev' \<and> names (pe_schedule entry) u) s s1"
    and "advances (pe_schedule entry)" "Next (pe_schedule entry) prev' = Some fire'" "prev \<le> prev'"
    and "prev' = prev \<or> prev' \<le> now" "fire' = 0 \<or> now < fire'" and rest: "all_ticked eps now s1 s'"
  shows "all_ticked ((entry, prev) # eps) now s s'"
proof -
  have one: "row_of s k = Some r \<Longrightarrow> row_of s1 k = Some r"
    "prev < u \<Longrightarrow> u \<le> prev' \<Longrightarrow> names (pe_schedule entry) u \<Longrightarrow> has_tick entry s1 u"
    "row_of s1 k = Some r \<Longrightarrow> row_of s k = None \<Longrightarrow>
       \<exists>u now0. prev < u \<and> u \<le> prev' \<and> names (pe_schedule entry) u \<and> r = jobFromParams k (tick_params entry u) now0" for k r u
    using assms(1) by (auto simp: ticked_def)
  have two: "row_of s1 k = Some r \<Longrightarrow> row_of s' k = Some r" for k r using rest by (simp add: all_ticked_def)
  have tick: "has_tick entry s' u" if "prev < u" "u \<le> now" "names (pe_schedule entry) u"
    "\<forall>t. prev \<le> t \<and> t < u \<longrightarrow> Next (pe_schedule entry) t \<noteq> Some 0" for u
  proof (cases "u \<le> prev'")
    case True
    then show ?thesis using one(2)[OF that(1) True that(3)] two has_tick_mono by blast
  next
    case False
    then have "fire' \<noteq> 0" using that(4) assms(3,4) by fastforce
    then have "now < fire'" "\<forall>v. prev' < v \<and> v < fire' \<longrightarrow> \<not> names (pe_schedule entry) v"
      using assms(6) Next_advances[OF assms(2), of prev'] assms(3) by auto
    then show ?thesis using that(2,3) False by fastforce
  qed
  have new: "\<exists>(e, p) \<in> set ((entry, prev) # eps). \<exists>u now0. p < u \<and> u \<le> now \<and> names (pe_schedule e) u \<and>
      r = jobFromParams k (tick_params e u) now0" if fresh: "row_of s' k = Some r" "row_of s k = None" for k r
  proof (cases "row_of s1 k")
    case None
    then show ?thesis using rest fresh(1) by (auto simp: all_ticked_def)
  next
    case (Some r1)
    then have "r1 = r" using two fresh(1) by fastforce
    then obtain u now0 where "prev < u" "u \<le> prev'" "names (pe_schedule entry) u" "r = jobFromParams k (tick_params entry u) now0"
      using one(3)[OF Some fresh(2)] by blast
    then show ?thesis using assms(5) by fastforce
  qed
  have old: "row_of s k = Some r \<Longrightarrow> row_of s' k = Some r" for k r using one(1) two by blast
  have others: "\<forall>(e, p) \<in> set eps. \<forall>u. p < u \<and> u \<le> now \<and> names (pe_schedule e) u \<and>
        (\<forall>t. p \<le> t \<and> t < u \<longrightarrow> Next (pe_schedule e) t \<noteq> Some 0) \<longrightarrow> has_tick e s' u"
    using rest by (simp add: all_ticked_def)
  show ?thesis
    unfolding all_ticked_def
  proof (intro conjI)
    show "\<forall>k r. row_of s k = Some r \<longrightarrow> row_of s' k = Some r" using old by blast
    show "\<forall>(e, p) \<in> set ((entry, prev) # eps). \<forall>u. p < u \<and> u \<le> now \<and> names (pe_schedule e) u \<and>
        (\<forall>t. p \<le> t \<and> t < u \<longrightarrow> Next (pe_schedule e) t \<noteq> Some 0) \<longrightarrow> has_tick e s' u"
      using tick others by simp
    show "\<forall>k r. row_of s' k = Some r \<and> row_of s k = None \<longrightarrow>
        (\<exists>(e, p) \<in> set ((entry, prev) # eps). \<exists>u now0. p < u \<and> u \<le> now \<and> names (pe_schedule e) u \<and>
           r = jobFromParams k (tick_params e u) now0)"
      using new by blast
  qed
qed

lemma enqueueEntries_mem:
  assumes "\<forall>entry \<in> set entries. entry_ok entry"
    and "\<forall>i n. \<not> te_stopped (env i n) \<and> \<not> te_cancelled (env i n)"
    and "length entries = length prevs" "0 < c_pollInterval c"
  shows "store_wf s \<Longrightarrow> unique_ok s \<Longrightarrow> soonest = 0 \<or> now < soonest \<Longrightarrow>
    \<exists>wait prevs' sg' s'. enqueueEntries mem_ops c notifier env now entries prevs behind soonest (sg, s) =
        Some (wait, behind @ prevs', sg', s') \<and> length prevs' = length prevs \<and> 0 < wait \<and> store_wf s' \<and> unique_ok s' \<and>
        all_ticked (zip entries prevs) now s s'"
  using assms(3,1)
proof (induction entries prevs arbitrary: behind soonest sg s rule: list_induct2)
  case Nil
  then show ?case using assms(4) by (auto simp: all_ticked_def)
next
  case (Cons entry entries prev prevs)
  have ok: "entry_ok entry" using Cons.prems by simp
  have adv: "advances (pe_schedule entry)" using ok by (simp add: entry_ok_def)
  obtain fire where fire: "Next (pe_schedule entry) prev = Some fire" using Next_advances[OF adv] by metis
  obtain prev' fire' sg1 s1 where t: "tickLoop mem_ops c notifier (env (length behind)) entry now 0 prev fire (sg, s) =
        Some (False, prev', fire', sg1, s1)" "Next (pe_schedule entry) prev' = Some fire'" "prev \<le> prev'"
      "prev' = prev \<or> prev' \<le> now" "fire' = 0 \<or> now < fire'" "store_wf s1" "unique_ok s1"
      "ticked entry (\<lambda>u. prev < u \<and> u \<le> prev' \<and> names (pe_schedule entry) u) s s1"
    using tickLoop_mem[OF ok _ fire Cons.prems(1,2), of "env (length behind)" c notifier now 0 sg] assms(2) by blast
  define soonest' where "soonest' = (if fire' = 0 then soonest else if soonest = 0 \<or> fire' < soonest then fire' else soonest)"
  have soon: "soonest' = 0 \<or> now < soonest'" using t(5) Cons.prems(3) by (auto simp: soonest'_def)
  have step: "enqueueEntries mem_ops c notifier env now (entry # entries) (prev # prevs) behind soonest (sg, s) =
      enqueueEntries mem_ops c notifier env now entries prevs (behind @ [prev']) soonest' (sg1, s1)"
    using fire t(1) by (simp add: soonest'_def)
  obtain wait prevs' sg' s' where rec: "enqueueEntries mem_ops c notifier env now entries prevs (behind @ [prev']) soonest' (sg1, s1) =
        Some (wait, (behind @ [prev']) @ prevs', sg', s')" "length prevs' = length prevs" "0 < wait" "store_wf s'" "unique_ok s'"
      "all_ticked (zip entries prevs) now s1 s'"
    using Cons.IH[OF t(6,7) soon, of "behind @ [prev']" sg1] Cons.prems(4) by auto
  have "all_ticked (zip (entry # entries) (prev # prevs)) now s s'"
    using all_ticked_Cons[OF t(8) adv t(2-5) rec(6)] by simp
  then show ?case
    using step rec by (intro exI[of _ wait] exI[of _ "prev' # prevs'"] exI[of _ sg'] exI[of _ s']) simp
qed

section \<open>A clock that is set back\<close>

text \<open>A loop that stays among ticks that are due never ends.\<close>

lemma tickLoop_never_ends:
  assumes "args_ok entry" "\<forall>n. \<not> te_stopped (env n) \<and> \<not> te_cancelled (env n)"
    and R: "\<forall>f \<in> R. f \<noteq> 0 \<and> f \<le> now \<and> (\<exists>f' \<in> R. Next (pe_schedule entry) f = Some f')"
    and "fire \<in> R"
  shows "tickLoop mem_ops c notifier env entry now n prev fire st = None"
proof (rule ccontr)
  assume "tickLoop mem_ops c notifier env entry now n prev fire st \<noteq> None"
  then obtain y where y: "tickLoop mem_ops c notifier env entry now n prev fire st = Some y" by blast
  define P where "P ops c' notifier' env' entry' now' n prev fire st y \<longleftrightarrow>
    (ops = mem_ops \<and> env' = env \<and> entry' = entry \<and> now' = now \<longrightarrow> fire \<notin> R)"
    for ops :: "(time, mem_store) driver_ops" and c' :: client and notifier' :: bool and env' entry' now'
      and n :: nat and prev :: time and fire and st :: "signals \<times> mem_store" and y :: "bool \<times> time \<times> time \<times> signals \<times> mem_store"
  have "P mem_ops c notifier env entry now n prev fire st y"
  proof (rule tickLoop.raw_induct[OF _ y, where P = P])
    fix rec ops c' notifier' env' entry' now' n' prev' fire' st' y'
    assume IH: "\<And>c' notifier' env' entry' now' n' prev' fire' st' b y.
        rec c' notifier' env' entry' now' n' prev' fire' st' b = Some y \<Longrightarrow> P c' notifier' env' entry' now' n' prev' fire' st' b y"
      and body: "(if \<not> IsZero fire' \<and> \<not> After fire' now' then if te_stopped (env' n') then Some (True, prev', fire', st')
        else let r = insertPeriodicTick ops c' notifier' (env' n') entry' fire' st'
             in if fst r then Option.bind (Next (pe_schedule entry') fire')
                  (\<lambda>fire''. rec ops c' notifier' env' entry' now' (Suc n') fire' fire'' (snd r))
                else Some (False, prev', fire', snd r)
        else Some (False, prev', fire', st')) = Some y'"
    show "P ops c' notifier' env' entry' now' n' prev' fire' st' y'"
      unfolding P_def
    proof (intro impI notI, elim conjE)
      assume eq: "ops = mem_ops" "env' = env" "entry' = entry" "now' = now" and fire': "fire' \<in> R"
      obtain sg s where st': "st' = (sg, s)" by fastforce
      obtain sg1 s1 where ins: "insertPeriodicTick mem_ops c' notifier' (env n') entry fire' st' = (True, sg1, s1)"
        using insertPeriodicTick_mem[OF assms(1), of "env n'" c' notifier' fire' sg s] assms(2) st' by auto
      obtain f where f: "f \<in> R" "Next (pe_schedule entry) fire' = Some f" "fire' \<noteq> 0" "fire' \<le> now"
        using R fire' by blast
      have "rec mem_ops c' notifier' env entry now (Suc n') fire' f (sg1, s1) = Some y'"
        using body eq ins f assms(2) by (simp add: Let_def)
      then have "P mem_ops c' notifier' env entry now (Suc n') fire' f (sg1, s1) y'" by (rule IH)
      then show False using f(1) by (simp add: P_def)
    qed
  qed
  then show False using assms(4) by (simp add: P_def)
qed

lemma every_minute_parsed:
  obtains s where "ParseIn ''* * * * *'' (Some loc) = Some (Returns (CronSchedule s))" "cs_loc s = loc" "\<And>t. matches s t"
proof -
  let ?star = "[(Star, None)]"
  have spec: "print_spec [?star, ?star, ?star, ?star, ?star] = ''* * * * *''" by code_simp
  have ok: "list_all2 items_ok field_bounds [?star, ?star, ?star, ?star, ?star]"
    by (simp add: field_bounds_def items_ok_def item_ok_def)
  have "item_values lo hi False (Star, None) = {lo..hi}" for lo hi
    by (auto simp: item_values_def part_values_def)
  moreover have "item_values 0 7 True (Star, None) = {0..6}"
  proof -
    have "\<exists>v. (v = 7 \<longrightarrow> x = 0) \<and> (v \<noteq> 7 \<longrightarrow> x = v \<and> 0 \<le> v \<and> v \<le> 7)" if "0 \<le> x" "x \<le> 6" for x :: int
      using that by (intro exI[of _ x]) simp
    then show ?thesis by (auto simp: item_values_def part_values_def)
  qed
  ultimately obtain s where s: "ParseIn ''* * * * *'' (Some loc) = Some (Returns (CronSchedule s))" "cs_loc s = loc"
      "\<And>v. has (cs_minute s) v \<longleftrightarrow> v \<in> {0..59}" "\<And>v. has (cs_hour s) v \<longleftrightarrow> v \<in> {0..23}"
      "\<And>v. has (cs_dom s) v \<longleftrightarrow> v \<in> {1..31}" "\<And>v. has (cs_month s) v \<longleftrightarrow> v \<in> {1..12}"
      "\<And>v. has (cs_dow s) v \<longleftrightarrow> v \<in> {0..6}"
    using ParseIn_print_spec[OF ok, of loc] unfolding spec by (auto simp: field_bounds_def means_def)
  have "matches s t" for t using wall_fields[of "wall loc t"] s(2-) by (simp add: matches_def Let_def)
  then show thesis using that s(1,2) by blast
qed

text \<open>Every minute in New York: after the last minute before the clock is set back comes the minute
  at which it is, and after that one the minute 59 minutes before it.\<close>

lemma new_york_Next:
  assumes "cs_loc s = new_york" "\<And>t. matches s t" "minute dvd t" "t \<le> set_back"
  shows "cron_Next s t = (if t < set_back then t + minute else set_back - 59 * minute)"
proof -
  have scan: "scan s maxScanMinutes u = u" for u
    using assms(2) by (subst scan.simps) (simp add: maxScanMinutes_def)
  have "minute dvd wall new_york t" using assms(3) by (auto simp: wall_def new_york_def)
  then have "wall new_york t mod minute = 0" by simp
  then have "cron_Next s t = date_at new_york (wall new_york t) + minute"
    unfolding cron_Next_def Let_def assms(1) wall_minute scan by simp
  then show ?thesis using assms(4) by (auto simp: wall_def new_york_def)
qed

section \<open>Properties\<close>

text \<open>The unique key of a tick tells its periodic job and its instant, to the nanosecond, whatever
  characters the job's id has: two ticks in the years 0 to 9999 share a key only if they are the
  same tick of the same job.\<close>

theorem periodicUniqueKey_unique:
  assumes "0 \<le> Year f" "Year f \<le> 9999" "0 \<le> Year g" "Year g \<le> 9999"
  shows "periodicUniqueKey a f = periodicUniqueKey b g \<longleftrightarrow> a = b \<and> f = g"
  using periodicUniqueKey_inj[OF _ assms, of a b] by auto

theorem periodicUniqueKey_unique_witness:
  "periodicUniqueKey ''a'' 5 = periodicUniqueKey ''b'' 6 \<longleftrightarrow> ''a'' = ''b'' \<and> (5 :: time) = 6"
proof (rule periodicUniqueKey_unique)
  show "0 \<le> Year 5" "Year 5 \<le> 9999" "0 \<le> Year 6" "Year 6 \<le> 9999" by code_simp+
qed


definition demo_periodic :: "schedule \<Rightarrow> periodic_entry" where
  "demo_periodic sched =
     \<lparr>pe_job = \<lparr>pj_ID = ''beat'', pj_Cron = ''@every 1s'',
        pj_Args = Some \<lparr>ja_Kind = ''beat'', ja_Marshal = Inr (JObj [])\<rparr>, pj_Opts = None, pj_Location = None\<rparr>,
      pe_schedule = sched\<rparr>"

definition demo_ticks :: "nat \<Rightarrow> nat \<Rightarrow> time tick_env" where
  "demo_ticks i n = \<lparr>te_stopped = False, te_call = 5 * second, te_cancelled = False\<rparr>"

lemma demo_client_poll: "0 < c_pollInterval demo_client"
  by (simp add: demo_client_def newClient_cases demo_config_def periodic_ok_def Let_def defaultPollInterval_def)

lemma demo_args_ok: "args_ok (demo_periodic sched)"
  by (simp add: args_ok_def demo_periodic_def)


text \<open>C39: with a schedule in a time zone whose clock is set back, a turn of the scheduler may never
  end: for a job every minute in New York, from the hour before the clock is set back on, the
  scheduler enqueues the ticks of that hour over and over.\<close>

theorem scheduler_hangs_when_clock_set_back:
  "\<exists>s. ParseIn ''* * * * *'' (Some new_york) = Some (Returns (CronSchedule s)) \<and>
     (\<forall>c notifier env now prev st entry. c_periodic c = [entry] \<and> pe_schedule entry = CronSchedule s \<and> args_ok entry \<and>
        (\<forall>i n. \<not> te_stopped (env i n) \<and> \<not> te_cancelled (env i n)) \<and>
        minute dvd prev \<and> set_back - 60 * minute \<le> prev \<and> prev \<le> set_back \<and> set_back \<le> now \<longrightarrow>
        enqueueDuePeriodic mem_ops c notifier env now [prev] st = None)"
proof -
  obtain s where s: "ParseIn ''* * * * *'' (Some new_york) = Some (Returns (CronSchedule s))" "cs_loc s = new_york"
      "\<And>t. matches s t"
    using every_minute_parsed[of new_york] by blast
  define R where "R = {f. minute dvd f \<and> set_back - 60 * minute < f \<and> f \<le> set_back}"
  have sb: "minute dvd set_back" "60 * minute < set_back" by code_simp+
  have step: "cron_Next s t \<in> R" if "minute dvd t" "set_back - 60 * minute \<le> t" "t \<le> set_back" for t
  proof -
    have "t + minute \<le> set_back" if "t < set_back"
    proof -
      obtain a b where ab: "t = minute * a" "set_back = minute * b" using \<open>minute dvd t\<close> sb(1) by (auto elim!: dvdE)
      then have "a + 1 \<le> b" using that by simp
      then show ?thesis using ab by linarith
    qed
    then show ?thesis
      using that sb(1) unfolding new_york_Next[OF s(2,3) that(1,3)] by (auto simp: R_def)
  qed
  have never: "enqueueDuePeriodic mem_ops c notifier env now [prev] st = None"
    if c: "c_periodic c = [entry]" "pe_schedule entry = CronSchedule s" "args_ok entry"
      and env: "\<forall>i n. \<not> te_stopped (env i n) \<and> \<not> te_cancelled (env i n)"
      and t: "minute dvd prev" "set_back - 60 * minute \<le> prev" "prev \<le> set_back" "set_back \<le> now"
    for c notifier env now prev st entry
  proof -
    have "tickLoop mem_ops c notifier (env 0) entry now 0 prev (cron_Next s prev) st = None"
      by (rule tickLoop_never_ends[OF c(3), where R = R]) (use env t(4) c(2) step sb(2) step[OF t(1-3)] in \<open>auto simp: R_def\<close>)
    then show ?thesis using c by (simp add: enqueueDuePeriodic_def)
  qed
  show ?thesis using s(1) never by blast
qed

theorem scheduler_hangs_when_clock_set_back_witness:
  "\<exists>s. ParseIn ''* * * * *'' (Some new_york) = Some (Returns (CronSchedule s)) \<and>
     enqueueDuePeriodic mem_ops (demo_client\<lparr>c_periodic := [demo_periodic (CronSchedule s)]\<rparr>) False demo_ticks set_back
       [set_back - minute] (\<lparr>wake = False, notified = 0\<rparr>, mem_New) = None"
proof -
  obtain s where s: "ParseIn ''* * * * *'' (Some new_york) = Some (Returns (CronSchedule s))"
    and never: "\<And>c notifier env now prev st entry. c_periodic c = [entry] \<Longrightarrow> pe_schedule entry = CronSchedule s \<Longrightarrow> args_ok entry \<Longrightarrow>
        \<forall>i n. \<not> te_stopped (env i n) \<and> \<not> te_cancelled (env i n) \<Longrightarrow> minute dvd prev \<Longrightarrow>
        set_back - 60 * minute \<le> prev \<Longrightarrow> prev \<le> set_back \<Longrightarrow> set_back \<le> now \<Longrightarrow>
        enqueueDuePeriodic mem_ops c notifier env now [prev] st = None"
    using scheduler_hangs_when_clock_set_back by auto
  have sb: "minute dvd set_back - minute" by code_simp
  have "enqueueDuePeriodic mem_ops (demo_client\<lparr>c_periodic := [demo_periodic (CronSchedule s)]\<rparr>) False demo_ticks set_back
       [set_back - minute] (\<lparr>wake = False, notified = 0\<rparr>, mem_New) = None"
    by (rule never[OF _ _ demo_args_ok _ sb]) (simp_all add: demo_periodic_def demo_ticks_def)
  then show ?thesis using s by blast
qed

end
