(* ===== verification/PgSession.thy ===== *)
theory PgSession
  imports Client
begin

text \<open>
  What the PostgreSQL driver does with sessions (\<^verbatim>\<open>internal/pgdriver/pgdriver.go\<close>): the
  election of the process that schedules periodic jobs, by a session lock, and the notifications
  that woken the fetch loops of other processes.
\<close>

section \<open>The server\<close>

text \<open>
  Sessions are numbered. The server knows those that are alive and the one that holds the lock;
  idle connections wait in the pools of the processes. A session that ends releases the lock.
\<close>

record pg_server =
  sv_alive :: "nat set"
  sv_pool :: "nat set"
  sv_lock :: "nat option"

definition AdvisoryLockPeriodic :: int where
  "AdvisoryLockPeriodic = 0x64726f7665720001"

text \<open>\<^verbatim>\<open>pg_try_advisory_lock\<close> on the one key the driver uses.\<close>

definition try_advisory_lock :: "nat \<Rightarrow> pg_server \<Rightarrow> bool \<times> pg_server" where
  "try_advisory_lock x sv =
     (if sv_lock sv = None \<or> sv_lock sv = Some x then (True, sv\<lparr>sv_lock := Some x\<rparr>) else (False, sv))"

definition end_session :: "nat \<Rightarrow> pg_server \<Rightarrow> pg_server" where
  "end_session x sv =
     sv\<lparr>sv_alive := sv_alive sv - {x}, sv_pool := sv_pool sv - {x},
        sv_lock := (if sv_lock sv = Some x then None else sv_lock sv)\<rparr>"

section \<open>Leadership\<close>

text \<open>Closing a connection taken from its pool; if it fails, the server may keep the session.\<close>

definition closeAcquiredConn :: "bool \<Rightarrow> nat \<Rightarrow> pg_server \<Rightarrow> pg_server" where
  "closeAcquiredConn closes x sv = (if closes then end_session x sv else sv)"

definition closeLeaderConnLocked :: "bool \<Rightarrow> nat option \<times> pg_server \<Rightarrow> nat option \<times> pg_server" where
  "closeLeaderConnLocked closes st =
     (case fst st of None \<Rightarrow> st | Some x \<Rightarrow> (None, closeAcquiredConn closes x (snd st)))"

definition ReleaseLeader :: "bool \<Rightarrow> nat option \<times> pg_server \<Rightarrow> nat option \<times> pg_server" where
  "ReleaseLeader closes st = closeLeaderConnLocked closes st"

text \<open>
  What a call meets: whether the ping comes back, the connection the pool gives, how the query
  ends (it fails before or after the server ran it, or succeeds), whether connections close, and
  whether the context was cancelled. Nothing succeeds on a session that has ended.
\<close>

datatype query_end = QueryFailed bool | QueryDone

record try_env =
  tv_ping :: bool
  tv_acquired :: "nat option"
  tv_query :: query_end
  tv_closes :: bool
  tv_closes2 :: bool
  tv_cancelled :: bool

definition acquireLeadership :: "try_env \<Rightarrow> nat option \<times> pg_server \<Rightarrow> (string + bool) \<times> nat option \<times> pg_server" where
  "acquireLeadership env st =
     (let (conn, sv) = st;
          failed = (\<lambda>what. if tv_cancelled env then Inr False else Inl what)
      in case tv_acquired env of
           None \<Rightarrow> (failed ''acquire leader connection'', conn, sv)
         | Some x \<Rightarrow>
             let sv1 = sv\<lparr>sv_pool := sv_pool sv - {x}\<rparr>;
                 (held, sv2) = try_advisory_lock x sv1
             in if x \<notin> sv_alive sv1 \<or> tv_query env = QueryFailed False then
                  (failed ''try advisory lock'', conn, closeAcquiredConn (tv_closes2 env) x sv1)
                else if tv_query env = QueryFailed True then
                  (failed ''try advisory lock'', conn, closeAcquiredConn (tv_closes2 env) x sv2)
                else if \<not> held then (Inr False, conn, sv2\<lparr>sv_pool := insert x (sv_pool sv2)\<rparr>)
                else (Inr True, Some x, sv2))"

definition TryBecomeLeader :: "try_env \<Rightarrow> nat option \<times> pg_server \<Rightarrow> (string + bool) \<times> nat option \<times> pg_server" where
  "TryBecomeLeader env st =
     (case fst st of
        None \<Rightarrow> acquireLeadership env st
      | Some x \<Rightarrow>
          if tv_ping env \<and> x \<in> sv_alive (snd st) then (Inr True, st)
          else acquireLeadership env (closeLeaderConnLocked (tv_closes env) st))"

section \<open>Notifications\<close>

text \<open>The caller's transaction: whether a failed statement has aborted it, the notifications it will
  send on commit, and those it had at the savepoint.\<close>

record pg_tx =
  tx_aborted :: bool
  tx_notices :: nat
  tx_savepoint :: "nat option"

datatype tx_stmt = Savepoint | SelectNotify | RollbackToSavepoint | ReleaseSavepoint

text \<open>A statement with the error it meets, if any. An aborted transaction refuses everything but the
  rollback.\<close>

fun tx_exec :: "string option \<Rightarrow> tx_stmt \<Rightarrow> pg_tx \<Rightarrow> (string + unit) \<times> pg_tx" where
  "tx_exec (Some err) stmt tx = (Inl err, tx\<lparr>tx_aborted := True\<rparr>)"
| "tx_exec None RollbackToSavepoint tx =
     (case tx_savepoint tx of
        None \<Rightarrow> (Inl ''savepoint does not exist'', tx\<lparr>tx_aborted := True\<rparr>)
      | Some n \<Rightarrow> (Inr (), tx\<lparr>tx_aborted := False, tx_notices := n\<rparr>))"
| "tx_exec None stmt tx =
     (if tx_aborted tx then (Inl ''current transaction is aborted'', tx)
      else (Inr (), case stmt of
          Savepoint \<Rightarrow> tx\<lparr>tx_savepoint := Some (tx_notices tx)\<rparr>
        | SelectNotify \<Rightarrow> tx\<lparr>tx_notices := tx_notices tx + 1\<rparr>
        | _ \<Rightarrow> tx\<lparr>tx_savepoint := None\<rparr>))"

text \<open>\<open>f\<close> gives the error each statement meets, in order.\<close>

definition pg_NotifyTx :: "(nat \<Rightarrow> string option) \<Rightarrow> pg_tx \<Rightarrow> (string + unit) \<times> pg_tx" where
  "pg_NotifyTx f tx =
     (case tx_exec (f 0) Savepoint tx of
        (Inl err, tx1) \<Rightarrow> (Inl (''notify drover savepoint: '' @ err), tx1)
      | (Inr _, tx1) \<Rightarrow>
          (case tx_exec (f 1) SelectNotify tx1 of
             (Inl err, tx2) \<Rightarrow>
               (case tx_exec (f 2) RollbackToSavepoint tx2 of
                  (Inl rbErr, tx3) \<Rightarrow> (Inl (''notify drover in tx: '' @ err @ '' (rollback savepoint: '' @ rbErr @ '')''), tx3)
                | (Inr _, tx3) \<Rightarrow> (Inl (''notify drover in tx: '' @ err), tx3))
           | (Inr _, tx2) \<Rightarrow>
               (case tx_exec (f 2) ReleaseSavepoint tx2 of
                  (Inl err, tx3) \<Rightarrow> (Inl (''notify drover release savepoint: '' @ err), tx3)
                | (Inr _, tx3) \<Rightarrow> (Inr (), tx3))))"

text \<open>\<^verbatim>\<open>Notify\<close> outside a transaction: the channel counts what listeners get.\<close>

definition pg_Notify :: "string option \<Rightarrow> nat \<Rightarrow> (string + unit) \<times> nat" where
  "pg_Notify err sent =
     (case err of Some e \<Rightarrow> (Inl (''notify drover: '' @ e), sent) | None \<Rightarrow> (Inr (), sent + 1))"

text \<open>
  \<^verbatim>\<open>ListenWakeups\<close>: the errors of acquiring the connection and of LISTEN, what the wait
  receives in order, and whether the context was cancelled when an error came. The result is the
  error it returns, if any, and the wake-up channel of capacity one.
\<close>

datatype listen_event = Notification | WaitFailed string bool

fun listen_loop :: "listen_event list \<Rightarrow> bool \<Rightarrow> string option \<times> bool" where
  "listen_loop [] woken = (None, woken)"
| "listen_loop (Notification # evs) woken = listen_loop evs True"
| "listen_loop (WaitFailed err cancelled # evs) woken =
     (if cancelled then None else Some (''wait for drover notification: '' @ err), woken)"

definition ListenWakeups ::
  "(string \<times> bool) option \<Rightarrow> (string \<times> bool) option \<Rightarrow> listen_event list \<Rightarrow> bool \<Rightarrow> string option \<times> bool" where
  "ListenWakeups acquire listen evs woken =
     (case acquire of
        Some (err, cancelled) \<Rightarrow> (if cancelled then None else Some (''acquire listen connection: '' @ err), woken)
      | None \<Rightarrow>
          (case listen of
             Some (err, cancelled) \<Rightarrow> (if cancelled then None else Some (''listen drover: '' @ err), woken)
           | None \<Rightarrow> listen_loop evs woken))"

text \<open>A notification that fails leaves the caller's transaction as it was, unless the rollback to
  the savepoint fails as well.\<close>

lemma NotifyTx_keeps_transaction:
  assumes "\<not> tx_aborted tx" "f 0 = None" "f 2 = None"
  shows "\<not> tx_aborted (snd (pg_NotifyTx f tx)) \<and>
    tx_notices (snd (pg_NotifyTx f tx)) = tx_notices tx + (if f 1 = None then 1 else 0)"
  using assms by (cases "f 1") (simp_all add: pg_NotifyTx_def numeral_2_eq_2)

lemma listen_loop_wakes:
  "woken \<or> (\<exists>evs'. evs = Notification # evs') \<Longrightarrow> snd (listen_loop evs woken)"
  by (induction evs woken rule: listen_loop.induct) auto

section \<open>One leader\<close>

text \<open>
  The processes, each with its leader connection, and the server. A process asks for leadership
  with a connection from a pool, gives leadership up, a session opens, or one ends.
\<close>

inductive leader_step :: "(nat \<Rightarrow> nat option) \<times> pg_server \<Rightarrow> (nat \<Rightarrow> nat option) \<times> pg_server \<Rightarrow> bool" where
  asked: "(\<forall>x. tv_acquired env = Some x \<longrightarrow> x \<in> sv_pool sv) \<Longrightarrow>
    TryBecomeLeader env (conns i, sv) = (res, conn', sv') \<Longrightarrow> leader_step (conns, sv) (conns(i := conn'), sv')"
| release: "ReleaseLeader closes (conns i, sv) = (conn', sv') \<Longrightarrow> leader_step (conns, sv) (conns(i := conn'), sv')"
| opened: "x \<notin> sv_alive sv \<Longrightarrow> x \<notin> ran conns \<Longrightarrow>
    leader_step (conns, sv) (conns, sv\<lparr>sv_alive := insert x (sv_alive sv), sv_pool := insert x (sv_pool sv)\<rparr>)"
| ended: "leader_step (conns, sv) (conns, end_session x sv)"

inductive leader_reachable :: "(nat \<Rightarrow> nat option) \<times> pg_server \<Rightarrow> bool" where
  start: "leader_reachable (\<lambda>_. None, \<lparr>sv_alive = {}, sv_pool = {}, sv_lock = None\<rparr>)"
| step: "leader_reachable st \<Longrightarrow> leader_step st st' \<Longrightarrow> leader_reachable st'"

definition leader_inv :: "(nat \<Rightarrow> nat option) \<times> pg_server \<Rightarrow> bool" where
  "leader_inv st \<longleftrightarrow> (case st of (conns, sv) \<Rightarrow>
     sv_pool sv \<subseteq> sv_alive sv \<and>
     (\<forall>x. sv_lock sv = Some x \<longrightarrow> x \<in> sv_alive sv \<and> x \<notin> sv_pool sv) \<and>
     (\<forall>i x. conns i = Some x \<longrightarrow> x \<notin> sv_pool sv \<and> (x \<in> sv_alive sv \<longrightarrow> sv_lock sv = Some x)) \<and>
     (\<forall>i j x. conns i = Some x \<and> conns j = Some x \<longrightarrow> i = j))"

lemma leader_invD:
  assumes "leader_inv (conns, sv)"
  shows "x \<in> sv_pool sv \<Longrightarrow> x \<in> sv_alive sv"
    and "sv_lock sv = Some x \<Longrightarrow> x \<in> sv_alive sv" "sv_lock sv = Some x \<Longrightarrow> x \<notin> sv_pool sv"
    and "conns i = Some x \<Longrightarrow> x \<notin> sv_pool sv" "conns i = Some x \<Longrightarrow> x \<in> sv_alive sv \<Longrightarrow> sv_lock sv = Some x"
    and "conns i = Some x \<Longrightarrow> conns j = Some x \<Longrightarrow> i = j"
  using assms unfolding leader_inv_def by blast+

lemma leader_invI:
  assumes "\<And>x. x \<in> sv_pool sv \<Longrightarrow> x \<in> sv_alive sv"
    and "\<And>x. sv_lock sv = Some x \<Longrightarrow> x \<in> sv_alive sv \<and> x \<notin> sv_pool sv"
    and "\<And>i x. conns i = Some x \<Longrightarrow> x \<notin> sv_pool sv \<and> (x \<in> sv_alive sv \<longrightarrow> sv_lock sv = Some x)"
    and "\<And>i j x. conns i = Some x \<Longrightarrow> conns j = Some x \<Longrightarrow> i = j"
  shows "leader_inv (conns, sv)"
  unfolding leader_inv_def using assms by blast

text \<open>What keeps the invariant: forgetting a connection, and the end of a session.\<close>

lemma forget_inv:
  assumes "leader_inv (conns, sv)"
  shows "leader_inv (conns(i := None), sv)"
proof (rule leader_invI)
  note D = leader_invD[OF assms]
  show "x \<in> sv_pool sv \<Longrightarrow> x \<in> sv_alive sv" for x by (rule D(1))
  show "sv_lock sv = Some x \<Longrightarrow> x \<in> sv_alive sv \<and> x \<notin> sv_pool sv" for x using D(2,3)[of x] by simp
  show "(conns(i := None)) k = Some x \<Longrightarrow> x \<notin> sv_pool sv \<and> (x \<in> sv_alive sv \<longrightarrow> sv_lock sv = Some x)" for k x
    using D(4,5)[of k x] by (simp split: if_splits)
  show "(conns(i := None)) k = Some x \<Longrightarrow> (conns(i := None)) l = Some x \<Longrightarrow> k = l" for k l x
    using D(6)[of k x l] by (simp split: if_splits)
qed

lemma ended_inv:
  assumes "leader_inv (conns, sv)"
  shows "leader_inv (conns, end_session x sv)"
proof (rule leader_invI)
  note D = leader_invD[OF assms]
  show "y \<in> sv_pool (end_session x sv) \<Longrightarrow> y \<in> sv_alive (end_session x sv)" for y
    using D(1)[of y] by (simp add: end_session_def)
  show "sv_lock (end_session x sv) = Some y \<Longrightarrow> y \<in> sv_alive (end_session x sv) \<and> y \<notin> sv_pool (end_session x sv)" for y
    using D(2,3)[of y] by (auto simp: end_session_def split: if_splits)
  show "conns k = Some y \<Longrightarrow> y \<notin> sv_pool (end_session x sv) \<and>
      (y \<in> sv_alive (end_session x sv) \<longrightarrow> sv_lock (end_session x sv) = Some y)" for k y
    using D(4,5)[of k y] by (simp add: end_session_def)
  show "conns k = Some y \<Longrightarrow> conns l = Some y \<Longrightarrow> k = l" for k l y by (rule D(6))
qed

lemma pool_inv:
  assumes "leader_inv (conns, sv)" "P \<subseteq> A" "sv_alive sv \<subseteq> A"
    and "\<And>x. x \<in> P \<Longrightarrow> x \<notin> sv_pool sv \<Longrightarrow> sv_lock sv \<noteq> Some x \<and> x \<notin> ran conns"
    and "\<And>x. x \<in> A \<Longrightarrow> x \<in> ran conns \<Longrightarrow> x \<in> sv_alive sv"
  shows "leader_inv (conns, sv\<lparr>sv_alive := A, sv_pool := P\<rparr>)"
proof (rule leader_invI)
  note D = leader_invD[OF assms(1)]
  show "x \<in> sv_pool (sv\<lparr>sv_alive := A, sv_pool := P\<rparr>) \<Longrightarrow> x \<in> sv_alive (sv\<lparr>sv_alive := A, sv_pool := P\<rparr>)" for x
    using assms(2) by auto
  show "sv_lock (sv\<lparr>sv_alive := A, sv_pool := P\<rparr>) = Some x \<Longrightarrow>
      x \<in> sv_alive (sv\<lparr>sv_alive := A, sv_pool := P\<rparr>) \<and> x \<notin> sv_pool (sv\<lparr>sv_alive := A, sv_pool := P\<rparr>)" for x
    using assms(3) assms(4)[of x] D(2,3)[of x] by auto
  show "conns k = Some x \<Longrightarrow> x \<notin> sv_pool (sv\<lparr>sv_alive := A, sv_pool := P\<rparr>) \<and>
      (x \<in> sv_alive (sv\<lparr>sv_alive := A, sv_pool := P\<rparr>) \<longrightarrow> sv_lock (sv\<lparr>sv_alive := A, sv_pool := P\<rparr>) = Some x)" for k x
    using assms(4)[of x] assms(5)[of x] D(4,5)[of k x] ranI[of conns k x] by auto
  show "conns k = Some x \<Longrightarrow> conns l = Some x \<Longrightarrow> k = l" for k l x by (rule D(6))
qed

lemma locked_inv:
  assumes "leader_inv (conns, sv)" "x \<in> sv_alive sv" "x \<notin> sv_pool sv" "sv_lock sv = None"
    and conns': "\<And>k y. conns' k = Some y \<Longrightarrow> conns k = Some y \<or> k = i \<and> y = x"
  shows "leader_inv (conns', sv\<lparr>sv_lock := Some x\<rparr>)"
proof (rule leader_invI)
  note D = leader_invD[OF assms(1)]
  have dead: "y \<notin> sv_alive sv" if "conns k = Some y" for k y using D(5)[OF that] assms(4) by auto
  show "y \<in> sv_pool (sv\<lparr>sv_lock := Some x\<rparr>) \<Longrightarrow> y \<in> sv_alive (sv\<lparr>sv_lock := Some x\<rparr>)" for y using D(1)[of y] by simp
  show "sv_lock (sv\<lparr>sv_lock := Some x\<rparr>) = Some y \<Longrightarrow>
      y \<in> sv_alive (sv\<lparr>sv_lock := Some x\<rparr>) \<and> y \<notin> sv_pool (sv\<lparr>sv_lock := Some x\<rparr>)" for y using assms(2,3) by simp
  show "conns' k = Some y \<Longrightarrow> y \<notin> sv_pool (sv\<lparr>sv_lock := Some x\<rparr>) \<and>
      (y \<in> sv_alive (sv\<lparr>sv_lock := Some x\<rparr>) \<longrightarrow> sv_lock (sv\<lparr>sv_lock := Some x\<rparr>) = Some y)" for k y
    using conns'[of k y] dead[of k y] D(4)[of k y] assms(3) by auto
  show "conns' k = Some y \<Longrightarrow> conns' l = Some y \<Longrightarrow> k = l" for k l y
    using conns'[of k y] conns'[of l y] dead[of k y] dead[of l y] D(6)[of k y l] assms(2) by auto
qed

lemma close_inv:
  assumes "leader_inv (conns, sv)" "closeLeaderConnLocked closes (conns i, sv) = (conn', sv')"
  shows "leader_inv (conns(i := conn'), sv')" "conn' = None" "sv_pool sv' = sv_pool sv"
proof -
  have eq: "conn' = None" "sv' = (case conns i of None \<Rightarrow> sv | Some x \<Rightarrow> if closes then end_session x sv else sv)"
    using assms(2) by (auto simp: closeLeaderConnLocked_def closeAcquiredConn_def split: option.splits)
  then show "conn' = None" by simp
  show "sv_pool sv' = sv_pool sv"
  proof (cases "conns i")
    case (Some x)
    then have "x \<notin> sv_pool sv" using leader_invD(4)[OF assms(1)] by blast
    then show ?thesis using Some eq(2) by (simp add: end_session_def)
  qed (simp add: eq)
  show "leader_inv (conns(i := conn'), sv')"
    using assms(1) eq forget_inv[OF assms(1)] forget_inv[OF ended_inv[OF assms(1)]] by (cases "conns i") simp_all
qed

lemma acquire_inv:
  assumes inv: "leader_inv (conns, sv)" and "conns i = None" and pool: "\<forall>x. tv_acquired env = Some x \<longrightarrow> x \<in> sv_pool sv"
    and out: "acquireLeadership env (None, sv) = (res, conn', sv')"
  shows "leader_inv (conns(i := conn'), sv') \<and> (res = Inr True \<longrightarrow> (\<exists>x \<in> sv_alive sv'. conn' = Some x))"
proof (cases "tv_acquired env")
  case None
  then show ?thesis using inv assms(2) out by (auto simp: acquireLeadership_def fun_upd_idem split: if_splits)
next
  case (Some x)
  define sv1 where "sv1 = sv\<lparr>sv_pool := sv_pool sv - {x}\<rparr>"
  have x: "x \<in> sv_pool sv" "x \<in> sv_alive sv1" "x \<notin> sv_pool sv1" "sv_lock sv1 \<noteq> Some x"
    using pool Some leader_invD(1,3)[OF inv, of x] by (auto simp: sv1_def)
  have alive: "x \<in> sv_alive sv" using x(2) by (simp add: sv1_def)
  have inv1: "leader_inv (conns, sv1)" 
    using pool_inv[OF inv, of "sv_pool sv - {x}" "sv_alive sv"] leader_invD(1)[OF inv] by (auto simp: sv1_def)
  have same: "conns(i := None) = conns" using assms(2) by (simp add: fun_upd_idem)
  define held where "held = (sv_lock sv1 = None)"
  define sv2 where "sv2 = (if held then sv1\<lparr>sv_lock := Some x\<rparr> else sv1)"
  have lock: "try_advisory_lock x sv1 = (held, sv2)" using x(4) by (simp add: try_advisory_lock_def held_def sv2_def)
  have inv2: "leader_inv (conns, sv2)"
    using locked_inv[OF inv1 x(2,3), of conns i] inv1 by (simp add: sv2_def held_def)
  have closed: "leader_inv (conns, closeAcquiredConn closes x s)" if "leader_inv (conns, s)" for closes s
    using that ended_inv by (simp add: closeAcquiredConn_def)
  show ?thesis
  proof (cases "tv_query env")
    case (QueryFailed ran)
    then have "conn' = None" "res \<noteq> Inr True" "sv' = closeAcquiredConn (tv_closes2 env) x (if ran then sv2 else sv1)"
      using out Some x(2) alive lock by (auto simp: acquireLeadership_def sv1_def[symmetric] Let_def split: if_splits)
    then show ?thesis using closed inv1 inv2 same by simp
  next
    case QueryDone
    show ?thesis
    proof (cases held)
      case True
      then have "conn' = Some x" "sv' = sv2" using out Some x(2) alive lock QueryDone
        by (auto simp: acquireLeadership_def sv1_def[symmetric] Let_def)
      moreover have "leader_inv (conns(i := Some x), sv2)"
      proof -
        have "leader_inv (conns(i := Some x), sv1\<lparr>sv_lock := Some x\<rparr>)"
          by (rule locked_inv[OF inv1 x(2,3), of _ i]) (use True in \<open>auto simp: held_def split: if_splits\<close>)
        then show ?thesis using True by (simp add: sv2_def)
      qed
      moreover have "x \<in> sv_alive sv2" using x(2) by (simp add: sv2_def)
      ultimately show ?thesis by blast
    next
      case False
      then have "conn' = None" "res = Inr False" "sv' = sv2\<lparr>sv_pool := insert x (sv_pool sv2)\<rparr>"
        using out Some x(2) alive lock QueryDone by (auto simp: acquireLeadership_def sv1_def[symmetric] Let_def)
      moreover have "sv2\<lparr>sv_pool := insert x (sv_pool sv2)\<rparr> = sv"
        using False x(1) by (simp add: sv2_def sv1_def insert_absorb)
      ultimately show ?thesis using inv same by simp
    qed
  qed
qed

lemma TryBecomeLeader_inv:
  assumes "leader_inv (conns, sv)" "\<forall>x. tv_acquired env = Some x \<longrightarrow> x \<in> sv_pool sv"
    and "TryBecomeLeader env (conns i, sv) = (res, conn', sv')"
  shows "leader_inv (conns(i := conn'), sv') \<and> (res = Inr True \<longrightarrow> (\<exists>x \<in> sv_alive sv'. conn' = Some x))"
proof (cases "conns i")
  case None
  then show ?thesis using acquire_inv[OF assms(1) None assms(2)] assms(3) by (simp add: TryBecomeLeader_def)
next
  case (Some x)
  show ?thesis
  proof (cases "tv_ping env \<and> x \<in> sv_alive sv")
    case True
    then have "conn' = Some x" "sv' = sv" using assms(3) Some by (auto simp: TryBecomeLeader_def)
    then show ?thesis using assms(1) Some True by (simp add: fun_upd_idem)
  next
    case False
    obtain conn1 sv1 where c: "closeLeaderConnLocked (tv_closes env) (conns i, sv) = (conn1, sv1)" by fastforce
    note inv = close_inv[OF assms(1) c]
    have "acquireLeadership env (None, sv1) = (res, conn', sv')"
      using assms(3) False Some c inv(2) by (simp add: TryBecomeLeader_def split: if_splits)
    then show ?thesis using acquire_inv[OF inv(1), of i env] inv(2,3) assms(2) by simp
  qed
qed

lemma leader_reachable_inv: "leader_reachable st \<Longrightarrow> leader_inv st"
proof (induction rule: leader_reachable.induct)
  case start
  then show ?case by (simp add: leader_inv_def)
next
  case (step st st')
  from step(2,3) show ?case
  proof (induction rule: leader_step.induct)
    case (asked env sv conns i res conn' sv')
    then show ?case using TryBecomeLeader_inv by blast
  next
    case (release closes conns i sv conn' sv')
    then show ?case using close_inv(1) by (simp add: ReleaseLeader_def)
  next
    case (opened x sv conns)
    show ?case
      by (rule pool_inv[OF opened(3)])
        (use opened(1,2) leader_invD(1,2)[OF opened(3)] in auto)
  next
    case (ended conns sv x)
    then show ?case by (rule ended_inv)
  qed
qed

text \<open>C15: at most one process leads: however processes ask for leadership and give it up, sessions
  open and end, and calls fail half way, a process that is told it leads holds a live session, and
  every other process that was told so before has lost the session it led with.\<close>

theorem single_leader:
  assumes "leader_reachable (conns, sv)" "\<forall>x. tv_acquired env = Some x \<longrightarrow> x \<in> sv_pool sv"
    and "TryBecomeLeader env (conns i, sv) = (Inr True, conn', sv')"
  shows "\<exists>x \<in> sv_alive sv'. conn' = Some x \<and> sv_lock sv' = Some x \<and>
    (\<forall>j y. j \<noteq> i \<and> conns j = Some y \<longrightarrow> y \<notin> sv_alive sv')"
proof -
  have inv: "leader_inv (conns(i := conn'), sv')" and "\<exists>x \<in> sv_alive sv'. conn' = Some x"
    using TryBecomeLeader_inv[OF leader_reachable_inv[OF assms(1)] assms(2,3)] by blast+
  then obtain x where x: "x \<in> sv_alive sv'" "conn' = Some x" by blast
  moreover have "sv_lock sv' = Some x" using leader_invD(5)[OF inv, of i x] x by simp
  moreover have "y \<notin> sv_alive sv'" if "j \<noteq> i" "conns j = Some y" for j y
  proof
    assume "y \<in> sv_alive sv'"
    have lock: "(conns(i := conn')) k = Some z \<Longrightarrow> z \<in> sv_alive sv' \<Longrightarrow> sv_lock sv' = Some z" for k z
      by (rule leader_invD(5)[OF inv])
    have distinct: "(conns(i := conn')) k = Some z \<Longrightarrow> (conns(i := conn')) l = Some z \<Longrightarrow> k = l" for k l z
      by (rule leader_invD(6)[OF inv])
    have "y = x" using lock[of j y] lock[of i x] that x \<open>y \<in> sv_alive sv'\<close> by simp
    then show False using distinct[of j x i] that x by simp
  qed
  ultimately show ?thesis by blast
qed

definition demo_try :: try_env where
  "demo_try = \<lparr>tv_ping = True, tv_acquired = Some 7, tv_query = QueryDone, tv_closes = True, tv_closes2 = True, tv_cancelled = False\<rparr>"

theorem single_leader_witness:
  "\<exists>conn' sv'. TryBecomeLeader demo_try (None, \<lparr>sv_alive = {7}, sv_pool = {7}, sv_lock = None\<rparr>) = (Inr True, conn', sv') \<and>
     conn' = Some 7 \<and> sv_lock sv' = Some 7"
proof -
  have r: "leader_reachable (\<lambda>_. None, \<lparr>sv_alive = {7}, sv_pool = {7}, sv_lock = None\<rparr>)"
    using leader_reachable.step[OF leader_reachable.start leader_step.opened[of 7]] by simp
  have out: "TryBecomeLeader demo_try ((\<lambda>_. None) (0 :: nat), \<lparr>sv_alive = {7}, sv_pool = {7}, sv_lock = None\<rparr>) =
      (Inr True, Some 7, \<lparr>sv_alive = {7}, sv_pool = {}, sv_lock = Some 7\<rparr>)"
    by (simp add: TryBecomeLeader_def acquireLeadership_def demo_try_def try_advisory_lock_def)
  show ?thesis using single_leader[OF r _ out] out by (auto simp: demo_try_def)
qed

end
