(* ===== verification/Pool.thy ===== *)
theory Pool
  imports Loop
begin

text \<open>
  The worker pool (\<^verbatim>\<open>pool.go\<close>) and its start and stop (\<^verbatim>\<open>loop.go\<close>): one goroutine claims jobs for
  a fixed number of workers, all of them steps of one transition system on the state of the pool.
\<close>

section \<open>Handing jobs back\<close>

definition errShutdownRequeued :: string where
  "errShutdownRequeued = ''drover: worker shut down before this attempt finished''"

definition leasesOf :: "job_row list \<Rightarrow> lease list" where
  "leasesOf rows = map (\<lambda>row. \<lparr>lease_ID = ID row, lease_Attempt = Attempt row\<rparr>) rows"

definition requeue ::
  "('e, 's) driver_ops \<Rightarrow> 'e moment \<Rightarrow> go_context \<Rightarrow> lease \<Rightarrow> 's \<Rightarrow> (driver_error + unit) \<times> 's" where
  "requeue ops mo ctx lease s =
     (case marshal_attempt_error
         \<lparr>ae_Attempt = lease_Attempt lease, ae_At = mo_now mo 1, ae_Error = errShutdownRequeued, ae_Trace = []\<rparr> of
        None \<Rightarrow> (Inl (ErrOther (''drover: encode requeue reason for job '' @ itoa (lease_ID lease))), s)
      | Some detail \<Rightarrow> drv_MarkRetryable ops (mo_call mo ctx) lease (mo_now mo 2) (Some (Valid detail)) s)"

definition requeueOne ::
  "('e, 's) driver_ops \<Rightarrow> client \<Rightarrow> 'e moment \<Rightarrow> go_context \<Rightarrow> lease \<Rightarrow> 's \<Rightarrow> (driver_error + unit) \<times> 's" where
  "requeueOne ops c mo jobCtx lease s =
     requeue ops mo (WithTimeout (WithoutCancel jobCtx) (mo_now mo 0) (c_heartbeatInterval c)) lease s"

text \<open>What is logged about a lease that was to go back.\<close>

datatype requeue_event =
    ReturnedToQueue lease | FinishedBefore lease driver_error | ReturnFailed lease driver_error

definition requeueFailed :: "lease \<Rightarrow> driver_error \<Rightarrow> requeue_event" where
  "requeueFailed lease err =
     (if err = ErrLeaseLost \<or> err = ErrInvalidTransition then FinishedBefore lease err else ReturnFailed lease err)"

fun requeueAll ::
  "('e, 's) driver_ops \<Rightarrow> client \<Rightarrow> (nat \<Rightarrow> 'e moment) \<Rightarrow> go_context \<Rightarrow> lease list \<Rightarrow> 's \<Rightarrow> requeue_event list \<times> 's" where
  "requeueAll ops c mo jobCtx [] s = ([], s)"
| "requeueAll ops c mo jobCtx (lease # leases) s =
     (let (res, s1) = requeueOne ops c (mo 0) jobCtx lease s;
          ev = (case res of Inl err \<Rightarrow> requeueFailed lease err | Inr _ \<Rightarrow> ReturnedToQueue lease);
          (evs, s2) = requeueAll ops c (\<lambda>i. mo (Suc i)) jobCtx leases s1
      in (ev # evs, s2))"

section \<open>Slots\<close>

text \<open>
  The channel of slots holds \<open>slots\<close> tokens of at most \<open>cap\<close>. Only the fetch loop receives from
  it, so its own send to a full channel would block forever: None.
\<close>

fun releaseSlots :: "nat \<Rightarrow> nat \<Rightarrow> nat \<Rightarrow> nat option" where
  "releaseSlots cap 0 slots = Some slots"
| "releaseSlots cap (Suc n) slots = (if slots < cap then releaseSlots cap n (Suc slots) else None)"

text \<open>
  Where the fetch loop is: in \<^verbatim>\<open>acquireSlots\<close> with the tokens taken so far; in \<^verbatim>\<open>claimRound\<close> with the
  tokens of the round, the queues left, the capacity left and the rows claimed; after the round; at
  the hand-off of the rows left; in the poll-interval wait; returned, with the channel of jobs
  closed.
\<close>

datatype fetch_at =
    Acquiring nat
  | Claiming nat "string list" nat "job_row list"
  | Claimed nat "job_row list"
  | Sending "job_row list"
  | Sleeping
  | FetchReturned

text \<open>A worker waits for a job, runs one, has to give its slot back, or has returned.\<close>

datatype worker_at = Idle | Working job_row | Freeing | WorkReturned

record 's pool =
  p_slots :: nat
  p_fetch :: fetch_at
  p_workers :: "worker_at list"
  p_infl :: inflight_set
  p_fetchCtx :: go_context
  p_stopFetch :: bool
  p_jobCtx :: go_context
  p_store :: 's

definition background :: go_context where
  "background = \<lparr>ctx_deadline = None, ctx_cancelled = False\<rparr>"

text \<open>A new pool: one token and one worker for each unit of concurrency.\<close>

definition newRunner :: "client \<Rightarrow> inflight_set \<Rightarrow> 's \<Rightarrow> 's pool" where
  "newRunner c infl s =
     \<lparr>p_slots = nat (c_concurrency c), p_fetch = Acquiring 0, p_workers = replicate (nat (c_concurrency c)) Idle,
      p_infl = infl, p_fetchCtx = background, p_stopFetch = False, p_jobCtx = background, p_store = s\<rparr>"

section \<open>The fetch loop\<close>

definition stopping :: "'s pool \<Rightarrow> bool" where
  "stopping p = p_stopFetch p"

text \<open>One queue of a round. \<open>call\<close> and \<open>mo\<close> are what its calls meet.\<close>

definition claimQueue ::
  "('e, 's) driver_ops \<Rightarrow> client \<Rightarrow> (go_context \<Rightarrow> 'e) \<Rightarrow> (nat \<Rightarrow> 'e moment) \<Rightarrow> string \<Rightarrow> nat \<Rightarrow> 's pool \<Rightarrow>
   (driver_error + job_row list) \<times> 's pool" where
  "claimQueue ops c call mo queue remaining p =
     (case drv_FetchAvailable ops (call (p_fetchCtx p)) queue (c_leaseDuration c) (int remaining) (p_store p) of
        (Inl err, s1) \<Rightarrow> (Inl err, p\<lparr>p_store := s1\<rparr>)
      | (Inr rows, s1) \<Rightarrow>
          let infl1 = fold inflight_add (leasesOf rows) (p_infl p)
          in if length rows > remaining then
               let surplusLeases = leasesOf (drop remaining rows);
                   (evs, s2) = requeueAll ops c mo (p_jobCtx p) surplusLeases s1;
                   infl2 = fold inflight_remove surplusLeases infl1
               in (Inr (take remaining rows), p\<lparr>p_infl := infl2, p_store := s2\<rparr>)
             else (Inr rows, p\<lparr>p_infl := infl1, p_store := s1\<rparr>))"

definition abandon ::
  "('e, 's) driver_ops \<Rightarrow> client \<Rightarrow> (nat \<Rightarrow> 'e moment) \<Rightarrow> job_row list \<Rightarrow> 's pool \<Rightarrow> 's pool option" where
  "abandon ops c mo rows p =
     (if length rows = 0 then Some p
      else
        let leases = leasesOf rows;
            (evs, s1) = requeueAll ops c mo (p_jobCtx p) leases (p_store p);
            infl1 = fold inflight_remove leases (p_infl p)
        in map_option (\<lambda>slots. p\<lparr>p_slots := slots, p_infl := infl1, p_store := s1\<rparr>)
             (releaseSlots (nat (c_concurrency c)) (length rows) (p_slots p)))"

text \<open>The steps of \<^verbatim>\<open>acquireSlots\<close>. When both channels of the first receive are ready, either may
  be taken.\<close>

inductive acquireSlots :: "client \<Rightarrow> 's pool \<Rightarrow> 's pool \<Rightarrow> bool" for c where
  acq_stop: "p_fetch p = Acquiring 0 \<Longrightarrow> p_stopFetch p \<Longrightarrow> acquireSlots c p (p\<lparr>p_fetch := FetchReturned\<rparr>)"
| acq_first: "p_fetch p = Acquiring 0 \<Longrightarrow> p_slots p = Suc slots \<Longrightarrow>
    acquireSlots c p (p\<lparr>p_slots := slots, p_fetch := Acquiring 1\<rparr>)"
| acq_more: "p_fetch p = Acquiring n \<Longrightarrow> 0 < n \<Longrightarrow> n < nat (c_concurrency c) \<Longrightarrow> p_slots p = Suc slots \<Longrightarrow>
    acquireSlots c p (p\<lparr>p_slots := slots, p_fetch := Acquiring (Suc n)\<rparr>)"
| acq_done: "p_fetch p = Acquiring n \<Longrightarrow> 0 < n \<Longrightarrow> n \<ge> nat (c_concurrency c) \<or> p_slots p = 0 \<Longrightarrow>
    weightedOrder rand (c_queues c) = Some order \<Longrightarrow>
    acquireSlots c p (p\<lparr>p_fetch := Claiming n order n []\<rparr>)"

text \<open>The steps of \<^verbatim>\<open>claimRound\<close>: a queue that fails ends the round, one that succeeds ends it when the
  capacity is used up or the pool is stopping.\<close>

inductive claimRound :: "('e, 's) driver_ops \<Rightarrow> client \<Rightarrow> 's pool \<Rightarrow> 's pool \<Rightarrow> bool" for ops c where
  claim_end: "p_fetch p = Claiming n [] remaining claimed \<Longrightarrow>
    claimRound ops c p (p\<lparr>p_fetch := Claimed n claimed\<rparr>)"
| claim_fails: "p_fetch p = Claiming n (queue # order) remaining claimed \<Longrightarrow>
    claimQueue ops c call mo queue remaining p = (Inl err, p') \<Longrightarrow>
    claimRound ops c p (p'\<lparr>p_fetch := Claimed n claimed\<rparr>)"
| claim_rows: "p_fetch p = Claiming n (queue # order) remaining claimed \<Longrightarrow>
    claimQueue ops c call mo queue remaining p = (Inr rows, p') \<Longrightarrow>
    claimRound ops c p (p'\<lparr>p_fetch :=
      (if remaining - length rows = 0 \<or> stopping p then Claimed n (claimed @ rows)
       else Claiming n order (remaining - length rows) (claimed @ rows))\<rparr>)"

definition sleep :: "'s pool \<Rightarrow> 's pool" where
  "sleep p = p\<lparr>p_fetch := (if stopping p then FetchReturned else Acquiring 0)\<rparr>"

text \<open>The rest of the loop of \<^verbatim>\<open>fetch\<close>. A send on the channel of jobs is received by a waiting
  worker, which starts to run the job.\<close>

inductive fetch :: "('e, 's) driver_ops \<Rightarrow> client \<Rightarrow> 's pool \<Rightarrow> 's pool \<Rightarrow> bool" for ops c where
  fetch_stop: "p_fetch p = Claimed n [] \<Longrightarrow> stopping p \<Longrightarrow>
    releaseSlots (nat (c_concurrency c)) n (p_slots p) = Some slots \<Longrightarrow>
    fetch ops c p (p\<lparr>p_slots := slots, p_fetch := FetchReturned\<rparr>)"
| fetch_rows: "p_fetch p = Claimed n rows \<Longrightarrow> \<not> (rows = [] \<and> stopping p) \<Longrightarrow>
    releaseSlots (nat (c_concurrency c)) (n - length rows) (p_slots p) = Some slots \<Longrightarrow>
    fetch ops c p (p\<lparr>p_slots := slots, p_fetch := (if rows = [] then Sleeping else Sending rows)\<rparr>)"
| fetch_sleep: "p_fetch p = Sleeping \<Longrightarrow> fetch ops c p (sleep p)"
| fetch_send: "p_fetch p = Sending (row # rows) \<Longrightarrow> i < length (p_workers p) \<Longrightarrow> p_workers p ! i = Idle \<Longrightarrow>
    fetch ops c p (p\<lparr>p_fetch := Sending rows, p_workers := (p_workers p)[i := Working row],
      p_infl := inflight_add (row_lease row) (p_infl p)\<rparr>)"
| fetch_abandon: "p_fetch p = Sending (row # rows) \<Longrightarrow> p_stopFetch p \<Longrightarrow>
    abandon ops c mo (row # rows) (p\<lparr>p_infl := inflight_add (row_lease row) (p_infl p)\<rparr>) = Some p' \<Longrightarrow>
    fetch ops c p (p'\<lparr>p_fetch := FetchReturned\<rparr>)"
| fetch_again: "p_fetch p = Sending [] \<Longrightarrow> fetch ops c p (p\<lparr>p_fetch := Acquiring 0\<rparr>)"

section \<open>The workers and the rest of the system\<close>

text \<open>A worker. The handler ends at any time; what the rest of the system did since it started is
  in the state, so it is what the run finds when it records the outcome.\<close>

inductive work ::
  "('e, 's) driver_ops \<Rightarrow> client \<Rightarrow> (go_error \<Rightarrow> string) \<Rightarrow> 's pool \<Rightarrow> 's pool \<Rightarrow> bool" for ops c msg_of where
  work_done: "i < length (p_workers p) \<Longrightarrow> p_workers p ! i = Working row \<Longrightarrow>
    runJob ops c msg_of mo (\<lambda>_. (p_infl p, p_store p)) (p_jobCtx p) row (infl0, w, s0) = (ev, infl, w', s) \<Longrightarrow>
    work ops c msg_of p (p\<lparr>p_workers := (p_workers p)[i := Freeing], p_infl := infl, p_store := s\<rparr>)"
| work_free: "i < length (p_workers p) \<Longrightarrow> p_workers p ! i = Freeing \<Longrightarrow> p_slots p < nat (c_concurrency c) \<Longrightarrow>
    work ops c msg_of p (p\<lparr>p_workers := (p_workers p)[i := Idle], p_slots := Suc (p_slots p)\<rparr>)"
| work_return: "i < length (p_workers p) \<Longrightarrow> p_workers p ! i = Idle \<Longrightarrow> p_fetch p = FetchReturned \<Longrightarrow>
    work ops c msg_of p (p\<lparr>p_workers := (p_workers p)[i := WorkReturned]\<rparr>)"

text \<open>What \<^verbatim>\<open>drain\<close> does when its time is up: the error, what is logged, and the state.\<close>

definition escalate ::
  "('e, 's) driver_ops \<Rightarrow> client \<Rightarrow> (nat \<Rightarrow> 'e moment) \<Rightarrow> 's pool \<Rightarrow> go_error option \<times> requeue_event list \<times> 's pool" where
  "escalate ops c mo p =
     (let stranded = snapshot (p_infl p)
      in if length stranded = 0 then (None, [], p)
         else
           let jobCtx = (p_jobCtx p)\<lparr>ctx_cancelled := True\<rparr>;
               (evs, s) = requeueAll ops c mo jobCtx stranded (p_store p)
           in (Some (Wrapf (itoa (int (length stranded)) @ '' job(s) still running, returned to the queue'')
                 [Sentinel ErrDrainIncomplete]),
               evs, p\<lparr>p_jobCtx := jobCtx, p_store := s\<rparr>))"

text \<open>
  The steps of the other goroutines: \<^verbatim>\<open>drain\<close> cancels the context of claims, closes the stop channel
  and, if its time is up, cancels the jobs and hands leases back one by one; \<open>others p s\<close> says that
  heartbeats, rescuers and other processes can turn the store into \<open>s\<close>.
\<close>

inductive outside :: "('e, 's) driver_ops \<Rightarrow> client \<Rightarrow> ('s pool \<Rightarrow> 's \<Rightarrow> bool) \<Rightarrow> 's pool \<Rightarrow> 's pool \<Rightarrow> bool"
  for ops c others where
  out_cancel: "outside ops c others p (p\<lparr>p_fetchCtx := (p_fetchCtx p)\<lparr>ctx_cancelled := True\<rparr>\<rparr>)"
| out_stop: "ctx_cancelled (p_fetchCtx p) \<Longrightarrow> outside ops c others p (p\<lparr>p_stopFetch := True\<rparr>)"
| out_escalate: "p_stopFetch p \<Longrightarrow> snapshot (p_infl p) \<noteq> [] \<Longrightarrow>
    outside ops c others p (p\<lparr>p_jobCtx := (p_jobCtx p)\<lparr>ctx_cancelled := True\<rparr>\<rparr>)"
| out_requeue: "ctx_cancelled (p_jobCtx p) \<Longrightarrow> requeueOne ops c mo (p_jobCtx p) lease (p_store p) = (res, s) \<Longrightarrow>
    outside ops c others p (p\<lparr>p_store := s\<rparr>)"
| out_store: "others p s \<Longrightarrow> outside ops c others p (p\<lparr>p_store := s\<rparr>)"

text \<open>A step of the goroutines of the pool, and the states a pool can reach.\<close>

definition pool_step ::
  "('e, 's) driver_ops \<Rightarrow> client \<Rightarrow> (go_error \<Rightarrow> string) \<Rightarrow> 's pool \<Rightarrow> 's pool \<Rightarrow> bool" where
  "pool_step ops c msg_of p p' \<longleftrightarrow>
     acquireSlots c p p' \<or> claimRound ops c p p' \<or> fetch ops c p p' \<or> work ops c msg_of p p'"

inductive pool_reach ::
  "('e, 's) driver_ops \<Rightarrow> client \<Rightarrow> (go_error \<Rightarrow> string) \<Rightarrow> ('s pool \<Rightarrow> 's \<Rightarrow> bool) \<Rightarrow> 's pool \<Rightarrow> 's pool \<Rightarrow> bool"
  for ops c msg_of others p0 where
  reach_start: "pool_reach ops c msg_of others p0 p0"
| reach_step: "pool_reach ops c msg_of others p0 p \<Longrightarrow> pool_step ops c msg_of p p' \<Longrightarrow> pool_reach ops c msg_of others p0 p'"
| reach_outside: "pool_reach ops c msg_of others p0 p \<Longrightarrow> outside ops c others p p' \<Longrightarrow> pool_reach ops c msg_of others p0 p'"

section \<open>Slots and workers\<close>

text \<open>The tokens the fetch loop has in hand, the rows it has claimed and not yet handed over, and
  the rows the workers run.\<close>

fun tokens :: "fetch_at \<Rightarrow> nat" where
  "tokens (Acquiring n) = n"
| "tokens (Claiming n order remaining claimed) = n"
| "tokens (Claimed n rows) = n"
| "tokens (Sending rows) = length rows"
| "tokens Sleeping = 0"
| "tokens FetchReturned = 0"

fun in_hand :: "fetch_at \<Rightarrow> job_row list" where
  "in_hand (Claiming n order remaining claimed) = claimed"
| "in_hand (Claimed n rows) = rows"
| "in_hand (Sending rows) = rows"
| "in_hand pc = []"

fun run_by :: "worker_at \<Rightarrow> job_row list" where
  "run_by (Working row) = [row]"
| "run_by w = []"

definition running_rows :: "worker_at list \<Rightarrow> job_row list" where
  "running_rows ws = concat (map run_by ws)"

definition held_rows :: "'s pool \<Rightarrow> job_row list" where
  "held_rows p = in_hand (p_fetch p) @ running_rows (p_workers p)"

fun occupied :: "worker_at \<Rightarrow> bool" where
  "occupied Idle = False"
| "occupied (Working row) = True"
| "occupied Freeing = True"
| "occupied WorkReturned = False"

definition idle_workers :: "'s pool \<Rightarrow> nat" where
  "idle_workers p = length (filter (\<lambda>w. w = Idle) (p_workers p))"

definition busy_workers :: "'s pool \<Rightarrow> nat" where
  "busy_workers p = length (filter occupied (p_workers p))"

fun round_ok :: "fetch_at \<Rightarrow> bool" where
  "round_ok (Claiming n order remaining claimed) = (remaining + length claimed = n)"
| "round_ok (Claimed n rows) = (length rows \<le> n)"
| "round_ok pc = True"

definition slots_inv :: "client \<Rightarrow> 's pool \<Rightarrow> bool" where
  "slots_inv c p \<longleftrightarrow>
     p_slots p + tokens (p_fetch p) + busy_workers p = nat (c_concurrency c) \<and>
     length (p_workers p) = nat (c_concurrency c) \<and> round_ok (p_fetch p) \<and>
     (WorkReturned \<in> set (p_workers p) \<longrightarrow> p_fetch p = FetchReturned)"

lemma releaseSlots_eq: "releaseSlots cap n slots = (if n = 0 \<or> slots + n \<le> cap then Some (slots + n) else None)"
  by (induction cap n slots rule: releaseSlots.induct) auto

lemma filter_update:
  "i < length xs \<Longrightarrow>
   length (filter P (xs[i := y])) + of_bool (P (xs ! i)) = length (filter P xs) + of_bool (P y)"
  by (subst (3) id_take_nth_drop[of i xs]) (simp_all add: upd_conv_take_nth_drop)

lemma busy_update:
  "i < length (p_workers p) \<Longrightarrow> busy_workers (p\<lparr>p_workers := (p_workers p)[i := w]\<rparr>) + of_bool (occupied (p_workers p ! i)) =
   busy_workers p + of_bool (occupied w)"
  by (simp add: busy_workers_def filter_update)

lemma claimQueue_slots:
  assumes "claimQueue ops c call mo queue remaining p = (res, p')"
  shows "p_slots p' = p_slots p \<and> p_fetch p' = p_fetch p \<and> p_workers p' = p_workers p \<and>
    p_stopFetch p' = p_stopFetch p \<and> p_fetchCtx p' = p_fetchCtx p \<and> p_jobCtx p' = p_jobCtx p \<and>
    (\<forall>rows. res = Inr rows \<longrightarrow> length rows \<le> remaining)"
  using assms by (auto simp: claimQueue_def Let_def case_prod_beta split: prod.splits sum.splits if_splits)

lemma abandon_slots:
  assumes "abandon ops c mo rows p = Some p'"
  shows "p_slots p' = p_slots p + length rows \<and> p_fetch p' = p_fetch p \<and> p_workers p' = p_workers p \<and>
    p_stopFetch p' = p_stopFetch p \<and> p_fetchCtx p' = p_fetchCtx p \<and> p_jobCtx p' = p_jobCtx p"
  using assms by (auto simp: abandon_def Let_def case_prod_beta releaseSlots_eq split: if_splits)

lemma work_slots:
  assumes "slots_inv c p" "i < length (p_workers p)" "p_workers p ! i = v" "w = WorkReturned \<longrightarrow> p_fetch p = FetchReturned"
    and "k + of_bool (occupied w) = p_slots p + of_bool (occupied v)"
  shows "slots_inv c (p\<lparr>p_workers := (p_workers p)[i := w], p_slots := k\<rparr>)"
  using assms busy_update[of i p w] set_update_subset_insert[of "p_workers p" i w]
  by (auto simp: slots_inv_def busy_workers_def)

lemma slots_inv_step:
  assumes "slots_inv c p" "pool_step ops c msg_of p p'"
  shows "slots_inv c p'"
proof -
  consider "acquireSlots c p p'" | "claimRound ops c p p'" | "fetch ops c p p'" | "work ops c msg_of p p'"
    using assms(2) by (auto simp: pool_step_def)
  then show ?thesis
  proof cases
    case 1
    then show ?thesis using assms(1) by cases (auto simp: slots_inv_def busy_workers_def)
  next
    case 2
    then show ?thesis using assms(1)
      by cases (auto simp: slots_inv_def busy_workers_def dest!: claimQueue_slots)
  next
    case 3
    then show ?thesis
    proof cases
      case (fetch_send row rows i)
      have "slots_inv c (p\<lparr>p_fetch := Sending rows, p_workers := (p_workers p)[i := Working row]\<rparr>)"
        using assms(1) fetch_send busy_update[of i p "Working row"] set_update_subset_insert[of "p_workers p" i "Working row"]
        by (auto simp: slots_inv_def busy_workers_def)
      then show ?thesis using fetch_send by (simp add: slots_inv_def busy_workers_def)
    qed (use assms(1) in \<open>auto simp: slots_inv_def busy_workers_def releaseSlots_eq sleep_def
           split: if_splits dest!: abandon_slots\<close>)
  next
    case 4
    then show ?thesis
    proof cases
      case (work_done i row mo infl0 w s0 ev infl w' s)
      then show ?thesis using work_slots[OF assms(1) work_done(2,3), of Freeing "p_slots p"]
        by (simp add: slots_inv_def busy_workers_def)
    next
      case (work_free i)
      then show ?thesis using work_slots[OF assms(1) work_free(2,3), of Idle "Suc (p_slots p)"] by simp
    next
      case (work_return i)
      then show ?thesis using work_slots[OF assms(1) work_return(2,3), of WorkReturned "p_slots p"]
        by (simp add: slots_inv_def busy_workers_def)
    qed
  qed
qed

lemma outside_frame:
  "outside ops c others p p' \<Longrightarrow> p_slots p' = p_slots p \<and> p_fetch p' = p_fetch p \<and> p_workers p' = p_workers p \<and>
     p_infl p' = p_infl p \<and> (p_stopFetch p \<longrightarrow> p_stopFetch p') \<and>
     (ctx_cancelled (p_jobCtx p) \<longrightarrow> ctx_cancelled (p_jobCtx p'))"
  by (induction rule: outside.induct) auto

lemma slots_inv_outside: "slots_inv c p \<Longrightarrow> outside ops c others p p' \<Longrightarrow> slots_inv c p'"
  by (drule outside_frame) (simp add: slots_inv_def busy_workers_def)

lemma slots_inv_reach:
  assumes "pool_reach ops c msg_of others (newRunner c infl s) p"
  shows "slots_inv c p"
  using assms
proof (induction rule: pool_reach.induct)
  case reach_start
  then show ?case by (auto simp: slots_inv_def newRunner_def busy_workers_def)
qed (auto intro: slots_inv_step slots_inv_outside)

lemma idle_workers_eq:
  assumes "slots_inv c p" "p_fetch p \<noteq> FetchReturned"
  shows "idle_workers p = p_slots p + tokens (p_fetch p)"
proof -
  have "length (filter (\<lambda>w. w = Idle) ws) + length (filter occupied ws) = length ws" if "WorkReturned \<notin> set ws" for ws
    using that
  proof (induction ws)
    case (Cons w ws)
    then show ?case by (cases w) auto
  qed simp
  then show ?thesis using assms by (fastforce simp: slots_inv_def idle_workers_def busy_workers_def)
qed

lemma in_hand_tokens: "round_ok f \<Longrightarrow> length (in_hand f) \<le> tokens f"
  by (cases f) auto

lemma freeing_room:
  assumes "slots_inv c p" "Freeing \<in> set (p_workers p)"
  shows "p_slots p < nat (c_concurrency c)"
proof -
  have "filter occupied (p_workers p) \<noteq> []" using assms(2) by (auto simp: filter_empty_conv intro!: bexI[of _ Freeing])
  then show ?thesis using assms(1) by (auto simp: slots_inv_def busy_workers_def simp flip: length_greater_0_conv)
qed

text \<open>C7: every claimed job has a worker that is free to run it. In every state a pool can reach,
  whatever the store and the rest of the system do: a slot is in the channel, in the hands of the
  fetch loop or with a worker that runs a job or is about to give it back, and there are as many as
  workers; the jobs claimed and not yet handed over are at most the idle workers, so none waits for
  one; and returning a slot never blocks, neither for a worker nor for the fetch loop.\<close>

theorem claimed_jobs_have_workers:
  assumes "pool_reach ops c msg_of others (newRunner c infl s) p"
  shows "p_slots p + tokens (p_fetch p) + busy_workers p = nat (c_concurrency c) \<and>
    length (in_hand (p_fetch p)) \<le> idle_workers p \<and>
    (Freeing \<in> set (p_workers p) \<longrightarrow> p_slots p < nat (c_concurrency c)) \<and>
    (\<forall>n \<le> tokens (p_fetch p). releaseSlots (nat (c_concurrency c)) n (p_slots p) = Some (p_slots p + n))"
proof (intro conjI impI allI)
  note inv = slots_inv_reach[OF assms]
  show slots: "p_slots p + tokens (p_fetch p) + busy_workers p = nat (c_concurrency c)"
    using inv by (simp add: slots_inv_def)
  show "length (in_hand (p_fetch p)) \<le> idle_workers p"
  proof (cases "p_fetch p = FetchReturned")
    case False
    then show ?thesis using idle_workers_eq[OF inv] in_hand_tokens[of "p_fetch p"] inv by (simp add: slots_inv_def)
  qed simp
  show "p_slots p < nat (c_concurrency c)" if "Freeing \<in> set (p_workers p)"
    using freeing_room[OF inv that] .
  show "releaseSlots (nat (c_concurrency c)) n (p_slots p) = Some (p_slots p + n)" if "n \<le> tokens (p_fetch p)" for n
    using that slots by (simp add: releaseSlots_eq)
qed

section \<open>The leases a pool tracks\<close>

definition tracked :: "inflight_set \<Rightarrow> lease set" where
  "tracked infl = {l. map_of infl (lease_ID l) = Some (lease_Attempt l)}"

lemma tracked_add: "tracked (inflight_add l infl) \<subseteq> insert l (tracked infl)"
  by (auto simp: tracked_def inflight_add intro!: lease.equality split: if_splits)

lemma tracked_remove: "tracked (inflight_remove l infl) \<subseteq> tracked infl - {l}"
  by (auto simp: tracked_def inflight_remove split: if_splits)

lemma tracked_adds: "tracked (fold inflight_add ls infl) \<subseteq> set ls \<union> tracked infl"
proof (induction ls arbitrary: infl)
  case (Cons l ls)
  show ?case using Cons[of "inflight_add l infl"] tracked_add[of l infl] by auto
qed simp

lemma tracked_removes: "tracked (fold inflight_remove ls infl) \<subseteq> tracked infl - set ls"
proof (induction ls arbitrary: infl)
  case (Cons l ls)
  show ?case using Cons[of "inflight_remove l infl"] tracked_remove[of l infl] by auto
qed simp

lemma tracked_empty: "tracked infl = {} \<Longrightarrow> infl = []"
proof (rule ccontr)
  assume "tracked infl = {}" "infl \<noteq> []"
  moreover obtain k a rest where "infl = (k, a) # rest" using \<open>infl \<noteq> []\<close> by (metis list.exhaust surj_pair)
  then have "\<lparr>lease_ID = k, lease_Attempt = a\<rparr> \<in> tracked infl" by (simp add: tracked_def)
  ultimately show False by simp
qed

lemma set_leasesOf: "set (leasesOf rows) = row_lease ` set rows"
  by (simp add: leasesOf_def row_lease_def)

lemma leasesOf_split: "set (leasesOf rows) = set (leasesOf (take n rows)) \<union> set (leasesOf (drop n rows))"
  by (metis append_take_drop_id image_Un set_append set_leasesOf)

lemma run_rows_update:
  assumes "i < length ws"
  shows "mset (running_rows (ws[i := w])) + mset (run_by (ws ! i)) = mset (running_rows ws) + mset (run_by w)"
  by (subst (3) id_take_nth_drop[OF assms]) (use assms in \<open>simp add: upd_conv_take_nth_drop running_rows_def\<close>)

lemma set_run_rows_update:
  assumes "i < length ws"
  shows "set (running_rows (ws[i := w])) \<union> set (run_by (ws ! i)) = set (running_rows ws) \<union> set (run_by w)"
  using arg_cong[OF run_rows_update[OF assms, of w], of set_mset] by simp

text \<open>Nothing is tracked that the pool does not hold.\<close>

definition tracked_held :: "'s pool \<Rightarrow> bool" where
  "tracked_held p \<longleftrightarrow> tracked (p_infl p) \<subseteq> row_lease ` set (held_rows p)"

lemma claimQueue_tracked:
  assumes "claimQueue ops c call mo queue remaining p = (res, p')"
  shows "tracked (p_infl p') \<subseteq> tracked (p_infl p) \<union> (case res of Inl _ \<Rightarrow> {} | Inr rows \<Rightarrow> row_lease ` set rows)"
proof -
  obtain out s1 where fetched: "drv_FetchAvailable ops (call (p_fetchCtx p)) queue (c_leaseDuration c) (int remaining) (p_store p) = (out, s1)"
    by fastforce
  show ?thesis
  proof (cases out)
    case (Inl err)
    then show ?thesis using assms fetched by (auto simp: claimQueue_def)
  next
    case (Inr rows)
    note adds = tracked_adds[of "leasesOf rows" "p_infl p"]
    show ?thesis
    proof (cases "length rows > remaining")
      case True
      then have "res = Inr (take remaining rows)"
        "p_infl p' = fold inflight_remove (leasesOf (drop remaining rows)) (fold inflight_add (leasesOf rows) (p_infl p))"
        using assms fetched Inr by (auto simp: claimQueue_def Let_def case_prod_beta)
      then show ?thesis
        using adds tracked_removes[of "leasesOf (drop remaining rows)" "fold inflight_add (leasesOf rows) (p_infl p)"]
          leasesOf_split[of rows remaining] by (auto simp: set_leasesOf)
    next
      case False
      then show ?thesis using assms fetched Inr adds by (auto simp: claimQueue_def set_leasesOf)
    qed
  qed
qed

lemma tracked_held_claim:
  assumes "tracked_held p" "claimRound ops c p p'"
  shows "tracked_held p'"
  using assms(2)
proof cases
  case (claim_fails n queue order remaining claimed call mo err q)
  then show ?thesis using assms(1) claimQueue_tracked[OF claim_fails(3)] claimQueue_slots[OF claim_fails(3)]
    by (auto simp: tracked_held_def held_rows_def)
next
  case (claim_rows n queue order remaining claimed call mo rows q)
  then show ?thesis using assms(1) claimQueue_tracked[OF claim_rows(3)] claimQueue_slots[OF claim_rows(3)]
    by (fastforce simp: tracked_held_def held_rows_def)
qed (use assms(1) in \<open>simp add: tracked_held_def held_rows_def\<close>)

lemma abandon_infl:
  assumes "abandon ops c mo rows p = Some p'"
  shows "p_infl p' = fold inflight_remove (leasesOf rows) (p_infl p)"
  using assms by (auto simp: abandon_def Let_def case_prod_beta leasesOf_def split: if_splits)

lemma tracked_held_fetch:
  assumes "tracked_held p" "fetch ops c p p'"
  shows "tracked_held p'"
  using assms(2)
proof cases
  case (fetch_send row rows i)
  have "set (running_rows ((p_workers p)[i := Working row])) = insert row (set (running_rows (p_workers p)))"
    using set_run_rows_update[of i "p_workers p" "Working row"] fetch_send by auto
  then have "set (held_rows p') = set (held_rows p)" using fetch_send by (auto simp: held_rows_def)
  then show ?thesis
    using assms(1) fetch_send tracked_add[of "row_lease row" "p_infl p"] by (auto simp: tracked_held_def held_rows_def)
next
  case (fetch_abandon row rows mo q)
  note gone = tracked_removes[of "leasesOf (row # rows)" "inflight_add (row_lease row) (p_infl p)"]
  have "p_infl p' = fold inflight_remove (leasesOf (row # rows)) (inflight_add (row_lease row) (p_infl p))"
    using abandon_infl[OF fetch_abandon(4)] fetch_abandon(1) by simp
  moreover have "row_lease ` set (held_rows p) = set (leasesOf (row # rows)) \<union> row_lease ` set (held_rows p')"
    using fetch_abandon abandon_slots[OF fetch_abandon(4)] by (simp add: held_rows_def set_leasesOf image_Un)
  moreover have "row_lease row \<in> set (leasesOf (row # rows))" by (simp add: set_leasesOf)
  ultimately show ?thesis
    using assms(1) gone tracked_add[of "row_lease row" "p_infl p"] unfolding tracked_held_def by (simp, blast)
qed (use assms(1) in \<open>auto simp: tracked_held_def held_rows_def sleep_def\<close>)

lemma runJob_infl:
  assumes "runJob ops c msg_of mo (\<lambda>_. (infl, s)) ctx row st = (ev, infl', w', s')"
  shows "infl' = inflight_remove (row_lease row) infl"
  using assms by (auto simp: runJob_def row_lease_def Let_def split: prod.splits verdict.splits option.splits)

lemma tracked_held_work:
  assumes "tracked_held p" "work ops c msg_of p p'"
  shows "tracked_held p'"
  using assms(2)
proof cases
  case (work_done i row mo infl0 w s0 ev infl w' s)
  have "set (running_rows (p_workers p)) = insert row (set (running_rows ((p_workers p)[i := Freeing])))"
    using set_run_rows_update[of i "p_workers p" Freeing] work_done by auto
  then have "set (held_rows p) = insert row (set (held_rows p'))" using work_done by (auto simp: held_rows_def)
  moreover have "tracked (p_infl p') \<subseteq> tracked (p_infl p) - {row_lease row}"
    using tracked_remove runJob_infl[OF work_done(4)] work_done(1) by simp
  ultimately show ?thesis using assms(1) by (auto simp: tracked_held_def)
next
  case (work_free i)
  then show ?thesis using assms(1) set_run_rows_update[of i "p_workers p" Idle]
    by (auto simp: tracked_held_def held_rows_def)
next
  case (work_return i)
  then show ?thesis using assms(1) set_run_rows_update[of i "p_workers p" WorkReturned]
    by (auto simp: tracked_held_def held_rows_def)
qed

lemma tracked_held_acquire: "tracked_held p \<Longrightarrow> acquireSlots c p p' \<Longrightarrow> tracked_held p'"
  by (auto elim!: acquireSlots.cases simp: tracked_held_def held_rows_def)

lemma tracked_held_step: "tracked_held p \<Longrightarrow> pool_step ops c msg_of p p' \<Longrightarrow> tracked_held p'"
  unfolding pool_step_def
  by (auto intro: tracked_held_acquire tracked_held_claim tracked_held_fetch tracked_held_work)

lemma tracked_held_outside: "tracked_held p \<Longrightarrow> outside ops c others p p' \<Longrightarrow> tracked_held p'"
  by (drule outside_frame) (simp add: tracked_held_def held_rows_def)

lemma tracked_held_reach:
  "pool_reach ops c msg_of others (newRunner c newInflightSet s) p \<Longrightarrow> tracked_held p"
proof (induction rule: pool_reach.induct)
  case reach_start
  then show ?case by (simp add: tracked_held_def newRunner_def newInflightSet_def tracked_def)
qed (auto intro: tracked_held_step tracked_held_outside)

section \<open>Draining\<close>

text \<open>The pool has drained when the fetch loop and every worker have returned.\<close>

definition drained :: "'s pool \<Rightarrow> bool" where
  "drained p \<longleftrightarrow> p_fetch p = FetchReturned \<and> set (p_workers p) \<subseteq> {WorkReturned}"

text \<open>An upper bound on the steps a stopping pool has left.\<close>

fun fetch_left :: "nat \<Rightarrow> fetch_at \<Rightarrow> nat" where
  "fetch_left cap (Acquiring n) = 3 + (cap - n)"
| "fetch_left cap (Claiming n order remaining claimed) = (if claimed = [] then 2 else cap + 6)"
| "fetch_left cap (Claimed n rows) = (if rows = [] then 1 else cap + 5)"
| "fetch_left cap (Sending rows) = cap + 4"
| "fetch_left cap Sleeping = 1"
| "fetch_left cap FetchReturned = 0"

fun work_left :: "worker_at \<Rightarrow> nat" where
  "work_left (Working row) = 3"
| "work_left Freeing = 2"
| "work_left Idle = 1"
| "work_left WorkReturned = 0"

definition drain_left :: "client \<Rightarrow> 's pool \<Rightarrow> nat" where
  "drain_left c p = fetch_left (nat (c_concurrency c)) (p_fetch p) + 4 * length (in_hand (p_fetch p)) +
     sum_list (map work_left (p_workers p))"

lemma work_left_update:
  assumes "i < length ws"
  shows "sum_list (map work_left (ws[i := w])) + work_left (ws ! i) = sum_list (map work_left ws) + work_left w"
  by (subst (3) id_take_nth_drop[OF assms]) (use assms in \<open>simp add: upd_conv_take_nth_drop\<close>)

lemma stop_keeps:
  assumes "pool_step ops c msg_of p p'"
  shows "p_stopFetch p' = p_stopFetch p"
  using assms unfolding pool_step_def
  by (auto elim!: acquireSlots.cases claimRound.cases fetch.cases work.cases simp: sleep_def
    dest!: claimQueue_slots abandon_slots)

lemma claim_left:
  assumes "claimRound ops c p p'" "p_stopFetch p" "length (in_hand (p_fetch p')) \<le> length (in_hand (p_fetch p))"
  shows "drain_left c p' < drain_left c p"
  using assms(1)
proof cases
  case (claim_fails n queue order remaining claimed call mo err q)
  then show ?thesis using claimQueue_slots[OF claim_fails(3)] by (auto simp: drain_left_def)
next
  case (claim_rows n queue order remaining claimed call mo rows q)
  then show ?thesis using assms(2,3) claimQueue_slots[OF claim_rows(3)] by (auto simp: drain_left_def stopping_def)
qed (auto simp: drain_left_def)

lemma fetch_left_less:
  assumes "fetch ops c p p'" "p_stopFetch p"
  shows "drain_left c p' < drain_left c p"
  using assms(1)
proof cases
  case (fetch_send row rows i)
  then show ?thesis using work_left_update[of i "p_workers p" "Working row"] by (simp add: drain_left_def)
next
  case (fetch_abandon row rows mo q)
  then show ?thesis using abandon_slots[OF fetch_abandon(4)] by (simp add: drain_left_def)
qed (use assms(2) in \<open>auto simp: drain_left_def sleep_def stopping_def\<close>)

lemma work_left_less:
  assumes "work ops c msg_of p p'"
  shows "drain_left c p' < drain_left c p"
  using assms
proof cases
  case (work_done i row mo infl0 w s0 ev infl w' s)
  then show ?thesis using work_left_update[of i "p_workers p" Freeing] by (simp add: drain_left_def)
next
  case (work_free i)
  then show ?thesis using work_left_update[of i "p_workers p" Idle] by (simp add: drain_left_def)
next
  case (work_return i)
  then show ?thesis using work_left_update[of i "p_workers p" WorkReturned] by (simp add: drain_left_def)
qed

lemma acquire_left:
  assumes "acquireSlots c p p'" "slots_inv c p"
  shows "drain_left c p' < drain_left c p"
  using assms(1) by cases (use assms(2) in \<open>auto simp: drain_left_def slots_inv_def\<close>)

lemma drain_left_less:
  assumes "slots_inv c p" "pool_step ops c msg_of p p'" "p_stopFetch p"
    and "length (in_hand (p_fetch p')) \<le> length (in_hand (p_fetch p))"
  shows "drain_left c p' < drain_left c p"
  using assms acquire_left[of c p p'] claim_left[of ops c p p'] fetch_left_less[of ops c p p'] work_left_less[of ops c msg_of p p']
  unfolding pool_step_def by blast

lemma drain_left_bound:
  assumes "slots_inv c p"
  shows "drain_left c p \<le> 8 * nat (c_concurrency c) + 6"
proof -
  have "sum_list (map work_left ws) \<le> 3 * length ws" for ws
  proof (induction ws)
    case (Cons w ws)
    then show ?case by (cases w) auto
  qed simp
  from this[of "p_workers p"] have "sum_list (map work_left (p_workers p)) \<le> 3 * nat (c_concurrency c)"
    using assms by (simp add: slots_inv_def)
  moreover have "length (in_hand (p_fetch p)) \<le> nat (c_concurrency c)"
    using in_hand_tokens[of "p_fetch p"] assms by (simp add: slots_inv_def)
  moreover have "fetch_left (nat (c_concurrency c)) (p_fetch p) \<le> nat (c_concurrency c) + 6" by (cases "p_fetch p") auto
  ultimately show ?thesis by (simp add: drain_left_def)
qed

lemma weightedOrder_defined:
  assumes "queues_ok qs" "length qs \<le> 2 ^ 46" "draws_ok rand"
  shows "\<exists>order. weightedOrder rand qs = Some order"
proof (cases "length qs = 1")
  case False
  then show ?thesis
    using drawOrder_perm[OF assms(3) queues_ok_weights[OF assms(1,2)], of 0 "[]"] weightedOrder_eq[OF assms(1,2), of rand]
    by auto
qed (simp add: weightedOrder_def)

lemma worker_can_step:
  assumes "slots_inv c p" "i < length (p_workers p)" "occupied (p_workers p ! i)"
  shows "\<exists>p'. work ops c msg_of p p'"
proof (cases "p_workers p ! i")
  case (Working row)
  obtain ev infl w' s where "runJob ops c msg_of undefined (\<lambda>_. (p_infl p, p_store p)) (p_jobCtx p) row undefined = (ev, infl, w', s)"
    by (metis surj_pair)
  then show ?thesis
    using work_done[OF assms(2) Working, of ops c msg_of undefined "fst undefined" "fst (snd undefined)" "snd (snd undefined)"]
    by (metis prod.collapse)
next
  case Freeing
  have "Freeing \<in> set (p_workers p)" using assms(2) Freeing by (metis nth_mem)
  then show ?thesis using work_free[OF assms(2) Freeing] freeing_room[OF assms(1)] by blast
qed (use assms(3) in auto)

lemma fetch_can_step:
  assumes "slots_inv c p" "p_stopFetch p" "p_fetch p \<noteq> FetchReturned"
    and "queues_ok (c_queues c)" "length (c_queues c) \<le> 2 ^ 46"
  shows "\<exists>p'. acquireSlots c p p' \<or> claimRound ops c p p' \<or> fetch ops c p p'"
proof (cases "p_fetch p")
  case (Acquiring n)
  have "draws_ok (\<lambda>_ _. 0)" by (simp add: draws_ok_def)
  then obtain order where order: "weightedOrder (\<lambda>_ _. 0) (c_queues c) = Some order"
    using weightedOrder_defined[OF assms(4,5)] by blast
  show ?thesis
  proof (cases "n = 0")
    case True
    then show ?thesis using acq_stop Acquiring assms(2) by blast
  next
    case False
    then show ?thesis
      using acq_done[OF Acquiring, of c "\<lambda>_ _. 0" order] acq_more[OF Acquiring, of c] order
      by (cases "p_slots p") (metis not_le not_gr_zero)+
  qed
next
  case (Claiming n order remaining claimed)
  show ?thesis
  proof (cases order)
    case (Cons queue rest)
    obtain res q where "claimQueue ops c undefined undefined queue remaining p = (res, q)" by fastforce
    then show ?thesis
      using claim_fails[of p n queue rest remaining claimed ops c undefined undefined _ q]
        claim_rows[of p n queue rest remaining claimed ops c undefined undefined _ q] Claiming Cons by (cases res) blast+
  qed (use Claiming claim_end in blast)
next
  case (Claimed n rows)
  then have room: "p_slots p + n \<le> nat (c_concurrency c)" using assms(1) by (simp add: slots_inv_def)
  show ?thesis
  proof (cases "rows = []")
    case True
    then show ?thesis using fetch_stop[of p n c] Claimed room assms(2) by (auto simp: releaseSlots_eq stopping_def)
  next
    case False
    have "releaseSlots (nat (c_concurrency c)) (n - length rows) (p_slots p) = Some (p_slots p + (n - length rows))"
      using room by (auto simp: releaseSlots_eq)
    then show ?thesis using fetch_rows[OF Claimed] False by blast
  qed
next
  case (Sending rows)
  show ?thesis
  proof (cases rows)
    case (Cons row rest)
    have "p_slots p + length (row # rest) \<le> nat (c_concurrency c)"
      using assms(1) Sending Cons by (simp add: slots_inv_def)
    then have "\<exists>q. abandon ops c undefined (row # rest) (p\<lparr>p_infl := inflight_add (row_lease row) (p_infl p)\<rparr>) = Some q"
      by (auto simp: abandon_def Let_def case_prod_beta releaseSlots_eq simp del: releaseSlots.simps)
    then show ?thesis using fetch_abandon[of p row rest] Sending Cons assms(2) by blast
  qed (use Sending fetch_again in blast)
next
  case Sleeping
  then show ?thesis using fetch_sleep by blast
qed (use assms(3) in simp)

lemma drained_or_step:
  assumes "slots_inv c p" "p_stopFetch p" "queues_ok (c_queues c)" "length (c_queues c) \<le> 2 ^ 46"
  shows "drained p \<or> (\<exists>p'. pool_step ops c msg_of p p')"
proof (cases "p_fetch p = FetchReturned")
  case False
  then show ?thesis using fetch_can_step[OF assms(1,2) False assms(3,4), of ops] unfolding pool_step_def by blast
next
  case True
  show ?thesis
  proof (cases "set (p_workers p) \<subseteq> {WorkReturned}")
    case False
    then obtain i where i: "i < length (p_workers p)" "p_workers p ! i \<noteq> WorkReturned"
      by (auto simp: subset_iff in_set_conv_nth)
    show ?thesis
    proof (cases "occupied (p_workers p ! i)")
      case True
      then show ?thesis using worker_can_step[OF assms(1) i(1), of ops msg_of] unfolding pool_step_def by blast
    next
      case False
      then have "p_workers p ! i = Idle" using i(2) by (cases "p_workers p ! i") auto
      then show ?thesis using work_return[OF i(1), of ops c msg_of] True unfolding pool_step_def by blast
    qed
  qed (use True in \<open>simp add: drained_def\<close>)
qed

lemma drained_clean:
  assumes "drained p" "slots_inv c p" "tracked_held p"
  shows "p_infl p = [] \<and> p_slots p = nat (c_concurrency c)"
proof
  have ws: "w = WorkReturned" if "w \<in> set (p_workers p)" for w using assms(1) that by (auto simp: drained_def)
  have quiet: "run_by w = [] \<and> \<not> occupied w" if "w \<in> set (p_workers p)" for w using ws[OF that] by simp
  then have "running_rows (p_workers p) = []" by (simp add: running_rows_def)
  then have "tracked (p_infl p) = {}" using assms(1,3) by (auto simp: tracked_held_def held_rows_def drained_def)
  then show "p_infl p = []" by (rule tracked_empty)
  have "busy_workers p = 0" using quiet by (simp add: busy_workers_def filter_empty_conv)
  then show "p_slots p = nat (c_concurrency c)" using assms(1,2) by (simp add: slots_inv_def drained_def)
qed

text \<open>What can happen once the stop channel is closed: \<open>k\<close> steps of the pool that claim nothing
  more, between steps of everything else.\<close>

inductive drain_run ::
  "('e, 's) driver_ops \<Rightarrow> client \<Rightarrow> (go_error \<Rightarrow> string) \<Rightarrow> ('s pool \<Rightarrow> 's \<Rightarrow> bool) \<Rightarrow> 's pool \<Rightarrow> nat \<Rightarrow> 's pool \<Rightarrow> bool"
  for ops c msg_of others p where
  drain_start: "drain_run ops c msg_of others p 0 p"
| drain_pool: "drain_run ops c msg_of others p k q \<Longrightarrow> pool_step ops c msg_of q r \<Longrightarrow>
    length (in_hand (p_fetch r)) \<le> length (in_hand (p_fetch q)) \<Longrightarrow> drain_run ops c msg_of others p (Suc k) r"
| drain_outside: "drain_run ops c msg_of others p k q \<Longrightarrow> outside ops c others q r \<Longrightarrow> drain_run ops c msg_of others p k r"

lemma drain_run_reach:
  assumes "pool_reach ops c msg_of others p0 p" "drain_run ops c msg_of others p k q"
  shows "pool_reach ops c msg_of others p0 q"
  using assms(2) by (induction rule: drain_run.induct) (auto intro: assms(1) reach_step reach_outside)

lemma drain_run_left:
  assumes "pool_reach ops c msg_of others (newRunner c newInflightSet s) p" "p_stopFetch p"
    and "drain_run ops c msg_of others p k q"
  shows "p_stopFetch q \<and> k + drain_left c q \<le> drain_left c p"
  using assms(3)
proof (induction rule: drain_run.induct)
  case drain_start
  then show ?case using assms(2) by simp
next
  case (drain_pool k q r)
  note inv = slots_inv_reach[OF drain_run_reach[OF assms(1) drain_pool(1)]]
  show ?case using drain_left_less[OF inv drain_pool(2) _ drain_pool(3)] drain_pool.IH stop_keeps[OF drain_pool(2)] by fastforce
next
  case (drain_outside k q r)
  then show ?case using outside_frame[OF drain_outside(2)] by (simp add: drain_left_def)
qed

text \<open>C8: a pool that is told to stop drains. From any state it has reached, however its steps, its
  handlers, the store and the rest of the system interleave, it takes at most eight steps per worker
  and six more as long as its claims bring nothing in; it is never stuck before the fetch loop and
  all workers have returned, unless a handler is; and then no lease is left in flight, so a shutdown
  that escalates late finds nothing to hand back, and every slot is back in the channel.\<close>

theorem pool_drains:
  assumes "queues_ok (c_queues c)" "length (c_queues c) \<le> 2 ^ 46"
    and "pool_reach ops c msg_of others (newRunner c newInflightSet s) p" "p_stopFetch p"
    and "drain_run ops c msg_of others p k q"
  shows "k \<le> 8 * nat (c_concurrency c) + 6 \<and>
    (drained q \<or> (\<exists>r. pool_step ops c msg_of q r)) \<and>
    (drained q \<longrightarrow> p_infl q = newInflightSet \<and> escalate ops c mo q = (None, [], q) \<and>
       p_slots q = nat (c_concurrency c))"
proof -
  note reach = drain_run_reach[OF assms(3,5)]
  note inv = slots_inv_reach[OF reach]
  note left = drain_run_left[OF assms(3,4,5)]
  have "k \<le> 8 * nat (c_concurrency c) + 6"
    using left drain_left_bound[OF slots_inv_reach[OF assms(3)]] by simp
  moreover have "drained q \<or> (\<exists>r. pool_step ops c msg_of q r)"
    using drained_or_step[OF inv _ assms(1,2)] left by blast
  moreover have "drained q \<longrightarrow> p_infl q = newInflightSet \<and> escalate ops c mo q = (None, [], q) \<and>
      p_slots q = nat (c_concurrency c)"
    using drained_clean[OF _ inv tracked_held_reach[OF reach]] by (simp add: newInflightSet_def escalate_def snapshot_def)
  ultimately show ?thesis by blast
qed

lemma demo_client_pool:
  "c_concurrency demo_client = 3"
  "c_queues demo_client = [\<lparr>wq_name = ''default'', wq_weight = 1\<rparr>]"
  "c_leaseDuration demo_client = 5 * second"
proof -
  have "the (checkedQueues []) = [\<lparr>wq_name = ''default'', wq_weight = 1\<rparr>]" by code_simp
  moreover have "\<not> 5 * second < minLeaseDuration" by code_simp
  ultimately show "c_concurrency demo_client = 3"
    "c_queues demo_client = [\<lparr>wq_name = ''default'', wq_weight = 1\<rparr>]" "c_leaseDuration demo_client = 5 * second"
    by (simp_all add: demo_client_def newClient_cases demo_config_def periodic_ok_def Let_def)
qed

lemma reach_parts:
  "pool_reach ops c msg_of others p0 p \<Longrightarrow> acquireSlots c p p' \<Longrightarrow> pool_reach ops c msg_of others p0 p'"
  "pool_reach ops c msg_of others p0 p \<Longrightarrow> claimRound ops c p p' \<Longrightarrow> pool_reach ops c msg_of others p0 p'"
  by (auto intro: reach_step simp: pool_step_def)

text \<open>A pool of three workers that has claimed the one job it got.\<close>

lemma demo_pool_claims:
  assumes got: "drv_FetchAvailable ops e ''default'' (5 * second) 3 s0 = (Inr [row], s)"
  shows "\<exists>p. pool_reach ops demo_client msg_of others (newRunner demo_client newInflightSet s0) p \<and>
     p_fetch p = Claimed 3 [row] \<and> p_slots p = 0 \<and> \<not> ctx_cancelled (p_jobCtx p)"
proof -
  let ?p = "newRunner demo_client newInflightSet s0"
  let ?R = "pool_reach ops demo_client msg_of others ?p"
  have "?R (?p\<lparr>p_slots := 2, p_fetch := Acquiring 1\<rparr>)"
    by (rule reach_parts(1)[OF reach_start acq_first]) (simp_all add: newRunner_def demo_client_pool)
  then have "?R (?p\<lparr>p_slots := 2, p_fetch := Acquiring 1\<rparr>\<lparr>p_slots := 1, p_fetch := Acquiring (Suc 1)\<rparr>)"
    by (rule reach_parts(1)[OF _ acq_more]) (simp_all add: demo_client_pool)
  then have "?R (?p\<lparr>p_slots := 1, p_fetch := Acquiring 2\<rparr>)" by (simp add: numeral_2_eq_2)
  then have "?R (?p\<lparr>p_slots := 1, p_fetch := Acquiring 2\<rparr>\<lparr>p_slots := 0, p_fetch := Acquiring (Suc 2)\<rparr>)"
    by (rule reach_parts(1)[OF _ acq_more]) (simp_all add: demo_client_pool)
  then have "?R (?p\<lparr>p_slots := 0, p_fetch := Acquiring 3\<rparr>)" by (simp add: numeral_3_eq_3 numeral_2_eq_2)
  then have "?R (?p\<lparr>p_slots := 0, p_fetch := Acquiring 3\<rparr>\<lparr>p_fetch := Claiming 3 [''default''] 3 []\<rparr>)"
    by (rule reach_parts(1)[OF _ acq_done[where rand = "\<lambda>_ _. 0"]]) (simp_all add: demo_client_pool weightedOrder_def)
  then have acquired: "?R (?p\<lparr>p_slots := 0, p_fetch := Claiming 3 [''default''] 3 []\<rparr>)" by simp
  let ?q = "?p\<lparr>p_slots := 0, p_fetch := Claiming 3 [''default''] 3 []\<rparr>"
  have queue: "claimQueue ops demo_client (\<lambda>_. e) undefined ''default'' 3 ?q =
      (Inr [row], ?q\<lparr>p_infl := fold inflight_add (leasesOf [row]) (p_infl ?q), p_store := s\<rparr>)"
    using got by (simp add: claimQueue_def demo_client_pool newRunner_def)
  have "?R (?q\<lparr>p_infl := fold inflight_add (leasesOf [row]) (p_infl ?q), p_store := s, p_fetch :=
      (if 3 - length [row] = 0 \<or> stopping ?q then Claimed 3 ([] @ [row]) else Claiming 3 [] (3 - length [row]) ([] @ [row]))\<rparr>)"
    by (rule reach_parts(2)[OF acquired claim_rows[OF _ queue]]) simp
  then have claimed: "?R (?q\<lparr>p_infl := fold inflight_add (leasesOf [row]) (p_infl ?q), p_store := s, p_fetch := Claiming 3 [] 2 [row]\<rparr>)"
    by (simp add: stopping_def newRunner_def)
  let ?r = "?q\<lparr>p_infl := fold inflight_add (leasesOf [row]) (p_infl ?q), p_store := s, p_fetch := Claiming 3 [] 2 [row]\<rparr>"
  have "?R (?r\<lparr>p_fetch := Claimed 3 [row]\<rparr>)"
    by (rule reach_parts(2)[OF claimed claim_end]) simp
  then show ?thesis
    by (intro exI[of _ "?r\<lparr>p_fetch := Claimed 3 [row]\<rparr>"]) (simp add: newRunner_def background_def)
qed

lemma demo_mem_claim: "\<exists>row s. drv_FetchAvailable mem_ops 200 ''default'' (5 * second) 3 demo_waiting = (Inr [row], s)"
proof -
  have "case fst (mem_FetchAvailable 200 ''default'' (5 * second) 3 demo_waiting) of Inl _ \<Rightarrow> False | Inr rows \<Rightarrow> length rows = 1"
    by code_simp
  then show ?thesis
    by (cases "mem_FetchAvailable 200 ''default'' (5 * second) 3 demo_waiting")
      (auto split: sum.splits simp: length_Suc_conv mem_ops_def)
qed

lemma demo_mem_pool:
  "\<exists>p row. pool_reach mem_ops demo_client (\<lambda>_. []) (\<lambda>_ _. False) (newRunner demo_client newInflightSet demo_waiting) p \<and>
     p_fetch p = Claimed 3 [row] \<and> p_slots p = 0"
proof -
  obtain row s where "drv_FetchAvailable mem_ops 200 ''default'' (5 * second) 3 demo_waiting = (Inr [row], s)"
    using demo_mem_claim by blast
  from demo_pool_claims[OF this, of "\<lambda>_. []" "\<lambda>_ _. False"] show ?thesis by blast
qed

theorem claimed_jobs_have_workers_witness:
  "\<exists>p row. pool_reach mem_ops demo_client (\<lambda>_. []) (\<lambda>_ _. False) (newRunner demo_client newInflightSet demo_waiting) p \<and>
     p_fetch p = Claimed 3 [row] \<and> 1 \<le> idle_workers p"
  using demo_mem_pool claimed_jobs_have_workers by fastforce

theorem pool_drains_witness:
  "\<exists>p q row. p_stopFetch p \<and> in_hand (p_fetch p) = [row] \<and>
     drain_run mem_ops demo_client (\<lambda>_. []) (\<lambda>_ _. False) p 1 q \<and>
     (drained q \<or> (\<exists>r. pool_step mem_ops demo_client (\<lambda>_. []) q r))"
proof -
  obtain p row where p: "pool_reach mem_ops demo_client (\<lambda>_. []) (\<lambda>_ _. False) (newRunner demo_client newInflightSet demo_waiting) p"
    "p_fetch p = Claimed 3 [row]" "p_slots p = 0"
    using demo_mem_pool by blast
  define q where "q = p\<lparr>p_fetchCtx := (p_fetchCtx p)\<lparr>ctx_cancelled := True\<rparr>, p_stopFetch := True\<rparr>"
  have "pool_reach mem_ops demo_client (\<lambda>_. []) (\<lambda>_ _. False) (newRunner demo_client newInflightSet demo_waiting) q"
    unfolding q_def by (rule reach_outside[OF reach_outside[OF p(1) out_cancel] out_stop]) simp
  moreover have stop: "p_stopFetch q" "in_hand (p_fetch q) = [row]" using p(2) by (simp_all add: q_def)
  moreover have "fetch mem_ops demo_client q (q\<lparr>p_slots := 2, p_fetch := (if [row] = [] then Sleeping else Sending [row])\<rparr>)"
    by (rule fetch_rows[of q 3]) (use p in \<open>simp_all add: q_def releaseSlots_eq demo_client_pool\<close>)
  then have "pool_step mem_ops demo_client (\<lambda>_. []) q (q\<lparr>p_slots := 2, p_fetch := Sending [row]\<rparr>)"
    by (simp add: pool_step_def)
  then have run: "drain_run mem_ops demo_client (\<lambda>_. []) (\<lambda>_ _. False) q (Suc 0) (q\<lparr>p_slots := 2, p_fetch := Sending [row]\<rparr>)"
    by (rule drain_pool[OF drain_start]) (use stop in simp)
  moreover have "queues_ok (c_queues demo_client)" "length (c_queues demo_client) \<le> 2 ^ 46"
    unfolding demo_client_pool by (code_simp, simp)
  ultimately show ?thesis using pool_drains[of demo_client mem_ops "\<lambda>_. []" "\<lambda>_ _. False" demo_waiting q]
    by (metis One_nat_def)
qed

section \<open>The jobs a pool holds\<close>

text \<open>The store still has the row running under the attempt of the claim.\<close>

definition leased :: "rows \<Rightarrow> job_row \<Rightarrow> bool" where
  "leased m row \<longleftrightarrow> (\<exists>r. m (ID row) = Some r \<and> State r = Running \<and> Attempt r = Attempt row)"

lemma guarded_frame: "k \<noteq> lease_ID l \<Longrightarrow> snd (guarded l change m) k = m k"
  by (auto simp: guarded_def split: option.split)

lemma infl_adds_other:
  "k \<notin> ID ` set rows \<Longrightarrow> map_of (fold inflight_add (leasesOf rows) infl) k = map_of infl k"
  by (induction rows arbitrary: infl) (auto simp: leasesOf_def inflight_add)

lemma infl_adds:
  "distinct (map ID rows) \<Longrightarrow> row \<in> set rows \<Longrightarrow>
   map_of (fold inflight_add (leasesOf rows) infl) (ID row) = Some (Attempt row)"
proof (induction rows arbitrary: infl)
  case (Cons r rows)
  show ?case
  proof (cases "row = r")
    case True
    then show ?thesis
      using Cons.prems(1) infl_adds_other[of "ID r" rows "inflight_add (row_lease r) infl"]
      by (simp add: leasesOf_def row_lease_def inflight_add)
  qed (use Cons in \<open>simp add: leasesOf_def\<close>)
qed simp

lemma infl_removes_other:
  "k \<notin> ID ` set rows \<Longrightarrow> map_of (fold inflight_remove (leasesOf rows) infl) k = map_of infl k"
  by (induction rows arbitrary: infl) (auto simp: leasesOf_def inflight_remove)

lemma fetch_gets:
  assumes "fetched b keep key change n m (Inr rows, m')" "\<forall>k r. m k = Some r \<longrightarrow> ID r = k"
    and change: "\<forall>r. ID (change r) = ID r"
  shows "distinct (map ID rows) \<and> int (length rows) \<le> n \<and> (\<forall>row \<in> set rows. m' (ID row) = Some row \<and> row \<in> range change)"
proof -
  obtain picked where p: "picks keep key n m picked" "mset rows = mset (map change picked)"
    and m: "m' = change_rows change picked m"
    using assms(1) by (auto simp: fetched_def meets_def call_ok_def)
  have "map ID (map change picked) = map ID picked" using change by simp
  then have "mset (map ID rows) = mset (map ID picked)" using p(2) by (metis mset_map)
  then have "distinct (map ID rows)" using p(1) by (metis mset_eq_imp_distinct_iff picks_def)
  moreover have "int (length rows) \<le> n" using mset_eq_length[OF p(2)] p(1) by (simp add: picks_def)
  moreover have "m' (ID row) = Some row \<and> row \<in> range change" if row: "row \<in> set rows" for row
  proof -
    have "set rows = change ` set picked" using arg_cong[OF p(2), of set_mset] by simp
    then obtain r where r: "r \<in> set picked" "row = change r" using row by blast
    have "r \<in> eligible_rows keep m" using p(1) r(1) by (auto simp: picks_def)
    then obtain k where k: "m k = Some r" by (auto simp: eligible_rows_def)
    then have "m (ID r) = Some r" using assms(2) by blast
    then have "m' (ID r) = Some (change r)" using r(1) by (simp add: m change_rows_def)
    then show ?thesis using r(2) change by simp
  qed
  ultimately show ?thesis by blast
qed

context driver_contract
begin

lemma requeueOne_frame:
  assumes "inv s" "lease_ok l" "requeueOne ops c mo ctx l s = (res, s')"
  shows "inv s' \<and> (\<forall>k. k \<noteq> lease_ID l \<longrightarrow> abs s' k = abs s k)"
proof -
  let ?e = "mo_call mo (WithTimeout (WithoutCancel ctx) (mo_now mo 0) (c_heartbeatInterval c))"
  consider "s' = s" | obj where "drv_MarkRetryable ops ?e l (mo_now mo 2) (Some (Valid (JObj obj))) s = (res, s')"
    using assms(3) by (auto simp: requeueOne_def requeue_def marshal_attempt_error_def split: if_splits)
  then show ?thesis
  proof cases
    case 2
    note law = MarkRetryable[OF assms(1,2) 2]
    then show ?thesis
      by (cases "detail (JObj obj)") (auto simp: meets_detail_def guarded_frame dest!: meets_rows)
  qed (use assms(1) in simp)
qed

lemma requeueAll_frame:
  assumes "inv s" "\<forall>l \<in> set leases. lease_ok l" "requeueAll ops c mo ctx leases s = (evs, s')"
  shows "inv s' \<and> (\<forall>k. k \<notin> lease_ID ` set leases \<longrightarrow> abs s' k = abs s k)"
  using assms
proof (induction leases arbitrary: mo s evs)
  case (Cons l leases)
  obtain res s1 where one: "requeueOne ops c (mo 0) ctx l s = (res, s1)" by fastforce
  obtain evs' where rest: "requeueAll ops c (\<lambda>i. mo (Suc i)) ctx leases s1 = (evs', s')"
    using Cons.prems(3) one by (auto split: prod.splits)
  show ?case
    using requeueOne_frame[OF Cons.prems(1) _ one] Cons.IH[OF _ _ rest] Cons.prems(2) by simp
qed simp

lemma leased_ok: "inv s \<Longrightarrow> leased (abs s) row \<Longrightarrow> lease_ok (row_lease row)"
  using stored_row by (fastforce simp: leased_def row_lease_def)

lemma claimQueue_leases:
  assumes "inv (p_store p)" "\<forall>row \<in> set old. leased (abs (p_store p)) row" "int remaining \<le> MaxInt32"
    and out: "claimQueue ops c call mo queue remaining p = (res, p')"
  defines "rows \<equiv> (case res of Inl _ \<Rightarrow> [] | Inr rows \<Rightarrow> rows)"
  shows "inv (p_store p') \<and> p_infl p' = fold inflight_add (leasesOf rows) (p_infl p) \<and>
    distinct (map ID rows) \<and> ID ` set rows \<inter> ID ` set old = {} \<and>
    (\<forall>row \<in> set (rows @ old). leased (abs (p_store p')) row)"
proof -
  obtain got s1 where f: "drv_FetchAvailable ops (call (p_fetchCtx p)) queue (c_leaseDuration c) (int remaining) (p_store p) = (got, s1)"
    by fastforce
  note law = FetchAvailable[OF assms(1) of_nat_0_le_iff assms(3) f]
  have ids: "\<forall>k r. abs (p_store p) k = Some r \<longrightarrow> ID r = k" using stored_row[OF assms(1)] by blast
  have kept: "leased (abs s1) row \<and> (\<forall>new. got = Inr new \<longrightarrow> ID row \<notin> ID ` set new)" if "row \<in> set old" for row
  proof -
    have "abs s1 (ID row) = abs (p_store p) (ID row) \<and> (\<forall>new. got = Inr new \<longrightarrow> ID row \<notin> ID ` set new)"
      by (rule fetch_spares[OF conjunct2[OF law] ids])
        (use assms(2) that in \<open>auto simp: claimRow_def leased_def due_def\<close>)
    then show ?thesis using assms(2) that by (simp add: leased_def)
  qed
  show ?thesis
  proof (cases got)
    case (Inl err)
    then have p': "p' = p\<lparr>p_store := s1\<rparr>" and rows: "rows = []" using out f by (auto simp: claimQueue_def rows_def)
    show ?thesis unfolding p' rows using conjunct1[OF law] kept by (simp add: leasesOf_def)
  next
    case (Inr new)
    note gets = fetch_gets[OF conjunct2[OF law, unfolded Inr] ids]
    have new: "distinct (map ID new)" "length new \<le> remaining"
      "\<forall>row \<in> set new. abs s1 (ID row) = Some row \<and> State row = Running"
      using gets by (auto simp: claimRow_def)
    then have p': "p' = p\<lparr>p_infl := fold inflight_add (leasesOf new) (p_infl p), p_store := s1\<rparr>" and rows: "rows = new"
      using out f Inr by (auto simp: claimQueue_def rows_def)
    have "leased (abs s1) row" if "row \<in> set new" for row using new(3) that by (simp add: leased_def)
    moreover have old: "leased (abs s1) row \<and> ID row \<notin> ID ` set new" if "row \<in> set old" for row
      using kept[OF that] Inr by simp
    have "ID ` set new \<inter> ID ` set old = {}"
    proof (rule equals0I)
      fix k assume k: "k \<in> ID ` set new \<inter> ID ` set old"
      then obtain row where "row \<in> set old" "k = ID row" by auto
      then show False using k old[of row] by simp
    qed
    ultimately show ?thesis unfolding p' rows using conjunct1[OF law] new(1) old by auto
  qed
qed

end

text \<open>
  What a pool relies on while its leases hold: each job it holds is held once, is running in the
  store under the attempt it was claimed with, and is tracked, so that the heartbeat renews it.
\<close>

definition pool_owns :: "('s \<Rightarrow> rows) \<Rightarrow> ('s \<Rightarrow> bool) \<Rightarrow> 's pool \<Rightarrow> bool" where
  "pool_owns view ok p \<longleftrightarrow> ok (p_store p) \<and> distinct (map ID (held_rows p)) \<and>
     (\<forall>row \<in> set (held_rows p). leased (view (p_store p)) row \<and> map_of (p_infl p) (ID row) = Some (Attempt row))"

text \<open>The rest of the system takes none of these jobs away.\<close>

definition keeps_leases :: "('s \<Rightarrow> rows) \<Rightarrow> ('s \<Rightarrow> bool) \<Rightarrow> 's pool \<Rightarrow> 's \<Rightarrow> bool" where
  "keeps_leases view ok p s \<longleftrightarrow> ok s \<and> (\<forall>row \<in> set (held_rows p). leased (view s) row)"

lemma distinct_ids_mset: "mset xs = mset ys \<Longrightarrow> distinct (map ID xs) \<longleftrightarrow> distinct (map ID ys)"
  by (metis mset_eq_imp_distinct_iff mset_map)

lemma owns_dropped:
  assumes "pool_owns view ok p" "mset (held_rows p) = mset gone + mset (held_rows p')" "ok (p_store p')"
    and "\<And>k. k \<notin> ID ` set gone \<Longrightarrow> view (p_store p') k = view (p_store p) k \<and> map_of (p_infl p') k = map_of (p_infl p) k"
  shows "pool_owns view ok p'"
proof -
  have "distinct (map ID (gone @ held_rows p'))"
    using assms(1) distinct_ids_mset[of "held_rows p" "gone @ held_rows p'"] assms(2) by (simp add: pool_owns_def)
  then have d: "distinct (map ID (held_rows p'))" "\<And>row. row \<in> set (held_rows p') \<Longrightarrow> ID row \<notin> ID ` set gone"
    by auto
  have "set (held_rows p) = set gone \<union> set (held_rows p')" using arg_cong[OF assms(2), of set_mset] by simp
  then have "leased (view (p_store p')) row \<and> map_of (p_infl p') (ID row) = Some (Attempt row)"
    if "row \<in> set (held_rows p')" for row
    using assms(1) assms(4)[OF d(2)[OF that]] that by (simp add: pool_owns_def leased_def)
  then show ?thesis using d(1) assms(3) by (simp add: pool_owns_def)
qed

lemma owns_moved:
  assumes "pool_owns view ok p" "mset (held_rows p') = mset (held_rows p)" "p_store p' = p_store p"
    and "map_of (p_infl p') = map_of (p_infl p)"
  shows "pool_owns view ok p'"
  by (rule owns_dropped[OF assms(1), of "[]"]) (use assms in \<open>simp_all add: pool_owns_def\<close>)

lemma owns_readd:
  "pool_owns view ok p \<Longrightarrow> row \<in> set (held_rows p) \<Longrightarrow> map_of (inflight_add (row_lease row) (p_infl p)) = map_of (p_infl p)"
  by (auto simp: pool_owns_def inflight_add row_lease_def fun_eq_iff)

lemma remaining_int32:
  "slots_inv c p \<Longrightarrow> c_concurrency c \<le> MaxInt32 \<Longrightarrow> p_fetch p = Claiming n order remaining claimed \<Longrightarrow>
   int remaining \<le> MaxInt32"
  by (simp add: slots_inv_def MaxInt32_def) linarith

context driver_contract
begin

lemma owns_claim:
  assumes own: "pool_owns abs inv p" and "slots_inv c p" "c_concurrency c \<le> MaxInt32" "claimRound ops c p p'"
  shows "pool_owns abs inv p'"
  using assms(4)
proof cases
  case (claim_end n remaining claimed)
  then show ?thesis by (intro owns_moved[OF own]) (simp_all add: held_rows_def)
next
  case (claim_fails n queue order remaining claimed call mo err q)
  note q = claimQueue_leases[OF _ _ remaining_int32[OF assms(2,3) claim_fails(2)] claim_fails(3), of "held_rows p"] claimQueue_slots[OF claim_fails(3)]
  have "held_rows p' = held_rows p" using claim_fails q(2) by (simp add: held_rows_def)
  then show ?thesis using own q(1) claim_fails(1) by (simp add: pool_owns_def leasesOf_def)
next
  case (claim_rows n queue order remaining claimed call mo rows q)
  note q = claimQueue_leases[OF _ _ remaining_int32[OF assms(2,3) claim_rows(2)] claim_rows(3), of "held_rows p"] claimQueue_slots[OF claim_rows(3)]
  have new: "inv (p_store p')" "p_infl p' = fold inflight_add (leasesOf rows) (p_infl p)" "distinct (map ID rows)"
    "ID ` set rows \<inter> ID ` set (held_rows p) = {}" "\<forall>row \<in> set (rows @ held_rows p). leased (abs (p_store p')) row"
    using own q(1) claim_rows(1) by (simp_all add: pool_owns_def)
  have "mset (held_rows p') = mset (rows @ held_rows p)" using claim_rows q(2) by (simp add: held_rows_def)
  then have perm: "distinct (map ID (held_rows p')) \<longleftrightarrow> distinct (map ID (rows @ held_rows p))"
    "set (held_rows p') = set (rows @ held_rows p)" by (rule distinct_ids_mset, rule mset_eq_setD)
  have "map_of (p_infl p') (ID row) = Some (Attempt row)" if row: "row \<in> set (held_rows p')" for row
  proof (cases "row \<in> set rows")
    case True
    then show ?thesis using new(2,3) by (simp add: infl_adds)
  next
    case False
    then have old: "row \<in> set (held_rows p)" using row perm(2) by simp
    then have "ID row \<notin> ID ` set rows" using new(4) by blast
    then show ?thesis using own old new(2) by (simp add: infl_adds_other pool_owns_def)
  qed
  moreover have "distinct (map ID (held_rows p'))"
    using own new(3,4) by (simp add: perm(1) pool_owns_def)
  ultimately show ?thesis using new(1,5) perm(2) by (simp add: pool_owns_def)
qed

lemma owns_fetch:
  assumes own: "pool_owns abs inv p" and "fetch ops c p p'"
  shows "pool_owns abs inv p'"
  using assms(2)
proof cases
  case (fetch_send row rows i)
  have "mset (running_rows ((p_workers p)[i := Working row])) = add_mset row (mset (running_rows (p_workers p)))"
    using run_rows_update[OF fetch_send(3), of "Working row"] fetch_send(4) by simp
  moreover have "row \<in> set (held_rows p)" using fetch_send(2) by (simp add: held_rows_def)
  ultimately show ?thesis
    using fetch_send owns_readd[OF own] by (intro owns_moved[OF own]) (simp_all add: held_rows_def)
next
  case (fetch_abandon row rows mo q)
  let ?p = "p\<lparr>p_infl := inflight_add (row_lease row) (p_infl p)\<rparr>"
  obtain evs s where all: "requeueAll ops c mo (p_jobCtx p) (leasesOf (row # rows)) (p_store p) = (evs, s)" by fastforce
  have q: "p_infl q = fold inflight_remove (leasesOf (row # rows)) (p_infl ?p)" "p_store q = s"
    using fetch_abandon(4) all by (auto simp: abandon_def Let_def)
  have ok: "\<forall>l \<in> set (leasesOf (row # rows)). lease_ok l"
    using own leased_ok[of "p_store p"] fetch_abandon(2) by (auto simp: set_leasesOf pool_owns_def held_rows_def)
  have inv: "inv (p_store p)" using own by (simp add: pool_owns_def)
  note frame = requeueAll_frame[OF inv ok all]
  have ids: "lease_ID ` set (leasesOf (row # rows)) = ID ` set (row # rows)"
    by (simp add: leasesOf_def image_image)
  have row: "row \<in> set (held_rows p)" using fetch_abandon(2) by (simp add: held_rows_def)
  show ?thesis
  proof (rule owns_dropped[OF own, of "row # rows"])
    show "mset (held_rows p) = mset (row # rows) + mset (held_rows p')"
      using fetch_abandon(1,2) abandon_slots[OF fetch_abandon(4)] by (simp add: held_rows_def)
    show "inv (p_store p')" using fetch_abandon(1) frame q(2) by simp
    fix k assume "k \<notin> ID ` set (row # rows)"
    then show "abs (p_store p') k = abs (p_store p) k \<and> map_of (p_infl p') k = map_of (p_infl p) k"
      using frame fetch_abandon(1) q owns_readd[OF own row] infl_removes_other[of k "row # rows"] ids by simp
  qed
qed (rule owns_moved[OF own]; simp add: held_rows_def sleep_def)+

lemma owns_work:
  assumes own: "pool_owns abs inv p" and "work ops c msg_of p p'"
  shows "pool_owns abs inv p'"
  using assms(2)
proof cases
  case (work_done i row mo infl0 w s0 ev infl w' s)
  have rows: "mset (running_rows (p_workers p)) = add_mset row (mset (running_rows ((p_workers p)[i := Freeing])))"
    using run_rows_update[OF work_done(2), of Freeing] work_done(3) by simp
  then have "row \<in># mset (running_rows (p_workers p))" by (metis union_single_eq_member)
  then have row: "leased (abs (p_store p)) row" "inv (p_store p)" using own by (auto simp: pool_owns_def held_rows_def)
  obtain err w1 where v: "execute (c_chain c) (p_jobCtx p) row w = (Verdict err, w1)" using execute_verdict by blast
  note run = runJob_records[OF refl row(2) leased_ok[OF row(2,1)] v work_done(4)]
  show ?thesis
  proof (rule owns_dropped[OF own, of "[row]"])
    show "mset (held_rows p) = mset [row] + mset (held_rows p')" using work_done(1) rows by (simp add: held_rows_def)
    show "inv (p_store p')" using run work_done(1) by simp
    fix k assume k: "k \<notin> ID ` set [row]"
    then have "abs s k = abs (p_store p) k" using run guarded_frame[of k "row_lease row"] by (auto simp: row_lease_def)
    then show "abs (p_store p') k = abs (p_store p) k \<and> map_of (p_infl p') k = map_of (p_infl p) k"
      using run k work_done(1) by (simp add: inflight_remove row_lease_def)
  qed
next
  case (work_free i)
  show ?thesis
    using run_rows_update[OF work_free(2), of Idle] work_free by (intro owns_moved[OF own]) (simp_all add: held_rows_def)
next
  case (work_return i)
  show ?thesis
    using run_rows_update[OF work_return(2), of WorkReturned] work_return
    by (intro owns_moved[OF own]) (simp_all add: held_rows_def)
qed

lemma owns_step:
  assumes "pool_owns abs inv p" "slots_inv c p" "c_concurrency c \<le> MaxInt32" "pool_step ops c msg_of p p'"
  shows "pool_owns abs inv p'"
  using assms(4) unfolding pool_step_def
proof (elim disjE)
  assume "acquireSlots c p p'"
  then show ?thesis by cases (auto intro!: owns_moved[OF assms(1)] simp: held_rows_def)
qed (blast intro: owns_claim[OF assms(1-3)] owns_fetch[OF assms(1)] owns_work[OF assms(1)])+

end

lemma jobCtx_keeps:
  assumes "pool_step ops c msg_of p p'"
  shows "p_jobCtx p' = p_jobCtx p"
  using assms unfolding pool_step_def
  by (auto elim!: acquireSlots.cases claimRound.cases fetch.cases work.cases simp: sleep_def
    dest!: claimQueue_slots abandon_slots)

lemma infl_folds:
  "distinct (map fst infl) \<Longrightarrow> distinct (map fst (fold inflight_add ls infl))"
  "distinct (map fst infl) \<Longrightarrow> distinct (map fst (fold inflight_remove ls infl))"
  by (induction ls arbitrary: infl) (simp_all add: inflight_keys)

lemma claimQueue_keys:
  "claimQueue ops c call mo queue remaining p = (res, p') \<Longrightarrow> distinct (map fst (p_infl p)) \<Longrightarrow> distinct (map fst (p_infl p'))"
  by (auto simp: claimQueue_def Let_def case_prod_beta infl_folds split: prod.splits sum.splits if_splits)

lemma abandon_keys:
  "abandon ops c mo rows p = Some p' \<Longrightarrow> distinct (map fst (p_infl p)) \<Longrightarrow> distinct (map fst (p_infl p'))"
  using abandon_infl infl_folds(2) by metis

lemma keys_step:
  assumes "pool_step ops c msg_of p p'" "distinct (map fst (p_infl p))"
  shows "distinct (map fst (p_infl p'))"
  using assms unfolding pool_step_def
  by (auto elim!: acquireSlots.cases claimRound.cases fetch.cases work.cases
    simp: sleep_def inflight_keys dest!: runJob_infl dest: claimQueue_keys abandon_keys)

lemma keys_reach:
  assumes "pool_reach ops c msg_of others (newRunner c newInflightSet s) p"
  shows "distinct (map fst (p_infl p))"
  using assms
proof (induction rule: pool_reach.induct)
  case reach_start
  then show ?case by (simp add: newRunner_def newInflightSet_def)
next
  case (reach_outside p p')
  then show ?case using outside_frame[OF reach_outside(2)] by simp
qed (rule keys_step)

context driver_contract
begin

lemma owns_reach:
  assumes "inv s" "c_concurrency c \<le> MaxInt32"
    and "pool_reach ops c msg_of (keeps_leases abs inv) (newRunner c newInflightSet s) p"
  shows "ctx_cancelled (p_jobCtx p) \<or> pool_owns abs inv p"
  using assms(3)
proof (induction rule: pool_reach.induct)
  case reach_start
  have "held_rows (newRunner c newInflightSet s) = []" by (simp add: held_rows_def running_rows_def newRunner_def)
  then show ?case using assms(1) by (simp add: pool_owns_def) (simp add: newRunner_def)
next
  case (reach_step p p')
  then show ?case
    using owns_step[OF _ slots_inv_reach[OF reach_step(1)] assms(2) reach_step(2)] jobCtx_keeps[OF reach_step(2)] by auto
next
  case (reach_outside p p')
  from reach_outside(2) reach_outside.IH show ?case
    by cases (auto simp: pool_owns_def keeps_leases_def held_rows_def)
qed

end

lemma snapshot_tracked: "distinct (map fst infl) \<Longrightarrow> set (snapshot infl) = tracked infl"
  using set_snapshot by (auto simp: tracked_def)

text \<open>C4: as long as nothing takes its leases away, a pool on PostgreSQL holds every job at most
  once, the database has each of them running under the attempt of its claim, and the leases the
  heartbeat renews are exactly those of the jobs the fetch loop has claimed and the workers run:
  none is renewed for a job that is over, none of a job in hand is left to lapse. It holds in every
  state the pool can reach before a shutdown runs out of time, however claims, hand-offs, runs,
  failing calls and the work of other processes interleave.\<close>

theorem held_jobs_are_renewed:
  assumes "jsonb_objects svc" "table_wf t" "c_concurrency c \<le> MaxInt32"
    and "pool_reach (pg_ops svc) c msg_of (keeps_leases db_abs table_wf) (newRunner c newInflightSet t) p"
    and "\<not> ctx_cancelled (p_jobCtx p)"
  shows "distinct (map ID (held_rows p)) \<and>
    (\<forall>row \<in> set (held_rows p). leased (db_abs (p_store p)) row) \<and>
    set (snapshot (p_infl p)) = row_lease ` set (held_rows p)"
proof -
  have own: "pool_owns db_abs table_wf p"
    using driver_contract.owns_reach[OF pg_contract[OF assms(1)] assms(2,3,4)] assms(5) by blast
  have "tracked (p_infl p) = row_lease ` set (held_rows p)"
  proof
    show "row_lease ` set (held_rows p) \<subseteq> tracked (p_infl p)"
      using own by (auto simp: pool_owns_def tracked_def row_lease_def)
  qed (use tracked_held_reach[OF assms(4)] in \<open>simp add: tracked_held_def\<close>)
  then show ?thesis using own snapshot_tracked[OF keys_reach[OF assms(4)]] by (simp add: pool_owns_def)
qed

theorem held_jobs_are_renewed_witness:
  "\<exists>(p :: db_table pool) row. p_fetch p = Claimed 3 [row] \<and> leased (db_abs (p_store p)) row \<and> row_lease row \<in> set (snapshot (p_infl p))"
proof -
  have "case fst (pg_FetchAvailable demo_svc alone demo_env ''default'' (5 * second) 3 demo_inserted) of
      Inl _ \<Rightarrow> False | Inr rows \<Rightarrow> length rows = 1"
    by code_simp
  then obtain row t where "drv_FetchAvailable (pg_ops demo_svc) demo_env ''default'' (5 * second) 3 demo_inserted = (Inr [row], t)"
    by (cases "pg_FetchAvailable demo_svc alone demo_env ''default'' (5 * second) 3 demo_inserted")
      (auto split: sum.splits simp: length_Suc_conv pg_ops_def)
  from demo_pool_claims[OF this, of "\<lambda>_. []" "keeps_leases db_abs table_wf"] obtain p where
    p: "pool_reach (pg_ops demo_svc) demo_client (\<lambda>_. []) (keeps_leases db_abs table_wf)
       (newRunner demo_client newInflightSet demo_inserted) p" "p_fetch p = Claimed 3 [row]" "\<not> ctx_cancelled (p_jobCtx p)"
    by blast
  have "c_concurrency demo_client \<le> MaxInt32" by (simp add: demo_client_pool MaxInt32_def)
  from held_jobs_are_renewed[OF demo_svc_objects demo_tables_wf(1) this p(1,3)]
  show ?thesis using p(2) by (intro exI[of _ p] exI[of _ row]) (simp add: held_rows_def)
qed

section \<open>Escalation\<close>

text \<open>The reason recorded when a lease is handed back.\<close>

definition requeue_reason :: "'e moment \<Rightarrow> lease \<Rightarrow> json option" where
  "requeue_reason mo l = marshal_attempt_error
     \<lparr>ae_Attempt = lease_Attempt l, ae_At = mo_now mo 1, ae_Error = errShutdownRequeued, ae_Trace = []\<rparr>"

text \<open>What a handed-back lease makes of the rows \<open>m\<close>: a row it holds is due at once, with the reason
  recorded and its attempt kept; no other row changes.\<close>

definition handed_back :: "lease \<Rightarrow> time \<Rightarrow> rows \<Rightarrow> job_row option \<Rightarrow> bool" where
  "handed_back l due_at m r' \<longleftrightarrow>
     (if (\<exists>r. m (lease_ID l) = Some r \<and> State r = Running \<and> Attempt r = lease_Attempt l)
      then (\<exists>r j. m (lease_ID l) = Some r \<and> r' = Some (retryable_row due_at j r))
      else r' = m (lease_ID l))"

lemma guarded_handed_back: "handed_back l t m (snd (guarded l (retryable_row t j) m) (lease_ID l))"
  by (cases "m (lease_ID l)") (auto simp: handed_back_def guarded_def)

lemma handed_back_cong: "m (lease_ID l) = m' (lease_ID l) \<Longrightarrow> handed_back l t m r \<longleftrightarrow> handed_back l t m' r"
  unfolding handed_back_def by (simp only:)

lemma handed_back_fenced:
  assumes "handed_back l t m (m' (lease_ID l))"
  shows "fst (guarded l change m') \<noteq> Inr ()"
  using assms by (cases "m (lease_ID l)") (auto simp: handed_back_def guarded_def retryable_row_def split: option.splits if_splits)

context driver_contract
begin

lemma requeueOne_spec:
  assumes "inv s" "lease_ok l" "requeueOne ops c mo ctx l s = (res, s')"
    and "Option.bind (requeue_reason mo l) detail \<noteq> None" "\<forall>ctx. reliable_call (mo_call mo ctx)"
  shows "handed_back l (kept (mo_now mo 2)) (abs s) (abs s' (lease_ID l))"
proof -
  obtain d j where d: "requeue_reason mo l = Some d" "detail d = Some j"
    using assms(4) by (auto simp: bind_eq_None_conv)
  then obtain obj where obj: "d = JObj obj"
    by (auto simp: requeue_reason_def marshal_attempt_error_def split: if_splits)
  let ?ctx = "WithTimeout (WithoutCancel ctx) (mo_now mo 0) (c_heartbeatInterval c)"
  have "drv_MarkRetryable ops (mo_call mo ?ctx) l (mo_now mo 2) (Some (Valid (JObj obj))) s = (res, s')"
    using assms(3) d(1) obj by (simp add: requeueOne_def requeue_def requeue_reason_def)
  from MarkRetryable[OF assms(1,2) this] have "abs s' = snd (guarded l (retryable_row (kept (mo_now mo 2)) j) (abs s))"
    using d(2) obj assms(5) meets_rows by (fastforce simp: meets_detail_def)
  then show ?thesis by (simp add: guarded_handed_back)
qed

lemma requeueAll_spec:
  assumes "inv s" "\<forall>l \<in> set leases. lease_ok l" "distinct (map lease_ID leases)"
    and "requeueAll ops c mo ctx leases s = (evs, s')"
    and "\<forall>i < length leases. Option.bind (requeue_reason (mo i) (leases ! i)) detail \<noteq> None"
    and "\<forall>i ctx. reliable_call (mo_call (mo i) ctx)"
  shows "\<forall>i < length leases. handed_back (leases ! i) (kept (mo_now (mo i) 2)) (abs s) (abs s' (lease_ID (leases ! i)))"
  using assms
proof (induction leases arbitrary: mo s evs)
  case (Cons l leases)
  obtain res s1 where one: "requeueOne ops c (mo 0) ctx l s = (res, s1)" by fastforce
  obtain evs' where rest: "requeueAll ops c (\<lambda>i. mo (Suc i)) ctx leases s1 = (evs', s')"
    using Cons.prems(4) one by (auto split: prod.splits)
  have l: "lease_ok l" "\<forall>l \<in> set leases. lease_ok l" using Cons.prems(2) by simp_all
  note frame = requeueOne_frame[OF Cons.prems(1) l(1) one]
  note later = requeueAll_frame[OF conjunct1[OF frame] l(2) rest]
  have first: "handed_back l (kept (mo_now (mo 0) 2)) (abs s) (abs s1 (lease_ID l))"
    by (rule requeueOne_spec[OF Cons.prems(1) l(1) one]) (use Cons.prems(5,6) in auto)
  have ih: "\<forall>i < length leases. handed_back (leases ! i) (kept (mo_now (mo (Suc i)) 2)) (abs s1) (abs s' (lease_ID (leases ! i)))"
    by (rule Cons.IH[OF conjunct1[OF frame] l(2) _ rest]) (use Cons.prems(3,5,6) in auto)
  have same: "abs s1 (lease_ID (leases ! i)) = abs s (lease_ID (leases ! i))" if "i < length leases" for i
  proof -
    have "lease_ID (leases ! i) \<in> lease_ID ` set leases" using nth_mem[OF that] by (rule imageI)
    then have "lease_ID (leases ! i) \<noteq> lease_ID l" using Cons.prems(3) by auto
    then show ?thesis using frame by simp
  qed
  show ?case
  proof (intro allI impI)
    fix i assume i: "i < length (l # leases)"
    show "handed_back ((l # leases) ! i) (kept (mo_now (mo i) 2)) (abs s) (abs s' (lease_ID ((l # leases) ! i)))"
    proof (cases i)
      case 0
      have "lease_ID l \<notin> lease_ID ` set leases" using Cons.prems(3) by simp
      then show ?thesis using 0 first later by simp
    next
      case (Suc k)
      then have k: "k < length leases" using i by simp
      show ?thesis unfolding Suc nth_Cons_Suc using ih k handed_back_cong[of "abs s1" "leases ! k" "abs s", OF same[OF k]] by blast
    qed
  qed
qed simp

end

text \<open>C9: a shutdown whose time is up gives its jobs back. On PostgreSQL, if the calls come back and
  the reason can be recorded: the error says that the drain is incomplete exactly if something is
  still in flight; then the contexts of the running handlers are cancelled, every job that still runs
  under a lease in flight becomes claimable at once with its attempt spent and kept, so that any
  outcome its abandoned handler reports later is refused; every other row stays as it is.\<close>

theorem escalate_returns_jobs:
  assumes "jsonb_objects svc" "table_wf (p_store p)" "distinct (map fst (p_infl p))"
    and "\<forall>l \<in> set (snapshot (p_infl p)). lease_Attempt l \<le> MaxInt32"
    and "\<forall>i ctx. reliable (mo_call (mo i) ctx)"
    and "\<forall>i. \<forall>l \<in> set (snapshot (p_infl p)). Option.bind (requeue_reason (mo i) l) (\<lambda>d. jsonb_in svc (Valid d)) \<noteq> None"
    and "escalate (pg_ops svc) c mo p = (err, evs, p')"
  shows "(if p_infl p = [] then err = None \<and> p' = p
     else (\<exists>e. err = Some e \<and> errors_Is e ErrDrainIncomplete) \<and> ctx_cancelled (p_jobCtx p')) \<and>
    (\<forall>l \<in> set (snapshot (p_infl p)).
       (\<exists>i. handed_back l (tstz svc (mo_now (mo i) 2)) (db_abs (p_store p)) (db_abs (p_store p') (lease_ID l))) \<and>
       (\<forall>change. fst (guarded l change (db_abs (p_store p'))) \<noteq> Inr ())) \<and>
    (\<forall>k. k \<notin> fst ` set (p_infl p) \<longrightarrow> db_abs (p_store p') k = db_abs (p_store p) k)"
proof (cases "p_infl p = []")
  case True
  then show ?thesis using assms(7) by (simp add: escalate_def snapshot_def)
next
  case False
  let ?ls = "snapshot (p_infl p)"
  let ?ctx = "(p_jobCtx p)\<lparr>ctx_cancelled := True\<rparr>"
  have "length ?ls = length (p_infl p)" by (simp add: snapshot_def)
  then have ls: "?ls \<noteq> []" using False by auto
  have keys: "lease_ID ` set ?ls = fst ` set (p_infl p)" "distinct (map lease_ID ?ls)"
    using assms(3) by (auto simp: snapshot_def image_image case_prod_beta comp_def distinct_map inj_on_def)
  obtain evs' t where all: "requeueAll (pg_ops svc) c mo ?ctx ?ls (p_store p) = (evs', t)" by fastforce
  have out: "p' = p\<lparr>p_jobCtx := ?ctx, p_store := t\<rparr>" "\<exists>e. err = Some e \<and> errors_Is e ErrDrainIncomplete"
    using assms(7) ls all by (auto simp: escalate_def Let_def)
  have spec: "\<forall>i < length ?ls. handed_back (?ls ! i) (tstz svc (mo_now (mo i) 2)) (db_abs (p_store p)) (db_abs t (lease_ID (?ls ! i)))"
    by (rule driver_contract.requeueAll_spec[OF pg_contract[OF assms(1)] assms(2,4) keys(2) all _ assms(5)])
      (use assms(6) nth_mem in blast)
  have home: "(\<exists>i. handed_back l (tstz svc (mo_now (mo i) 2)) (db_abs (p_store p)) (db_abs t (lease_ID l))) \<and>
      (\<forall>change. fst (guarded l change (db_abs t)) \<noteq> Inr ())" if l: "l \<in> set ?ls" for l
  proof -
    obtain i where "i < length ?ls" "?ls ! i = l" using l by (metis in_set_conv_nth)
    then have "handed_back l (tstz svc (mo_now (mo i) 2)) (db_abs (p_store p)) (db_abs t (lease_ID l))" using spec by auto
    then show ?thesis using handed_back_fenced by blast
  qed
  have "\<forall>k. k \<notin> fst ` set (p_infl p) \<longrightarrow> db_abs t k = db_abs (p_store p) k"
    using driver_contract.requeueAll_frame[OF pg_contract[OF assms(1)] assms(2,4) all] keys(1) by simp
  then show ?thesis using False out home by simp
qed

theorem escalate_returns_jobs_witness:
  "\<exists>err evs p'. escalate (pg_ops demo_svc) demo_client (\<lambda>_. demo_moment)
      ((newRunner demo_client [(1, 1)] demo_running)\<lparr>p_stopFetch := True\<rparr>) = (Some err, evs, p') \<and>
      errors_Is err ErrDrainIncomplete \<and>
      (\<exists>r. db_abs (p_store p') 1 = Some r \<and> State r = Retryable \<and> Attempt r = 1)"
proof -
  let ?p = "(newRunner demo_client [(1, 1)] demo_running)\<lparr>p_stopFetch := True\<rparr>"
  obtain err evs p' where out: "escalate (pg_ops demo_svc) demo_client (\<lambda>_. demo_moment) ?p = (err, evs, p')" by (metis prod_cases3)
  have p: "p_infl ?p = [(1, 1)]" "p_store ?p = demo_running" by (simp_all add: newRunner_def)
  have snap: "set (snapshot (p_infl ?p)) = {\<lparr>lease_ID = 1, lease_Attempt = 1\<rparr>}" by (simp add: snapshot_def p)
  have "Year 9000 = 1" by code_simp
  then have reason: "\<forall>i. \<forall>l \<in> set (snapshot (p_infl ?p)).
      Option.bind (requeue_reason demo_moment l) (\<lambda>d. jsonb_in demo_svc (Valid d)) \<noteq> None"
    by (simp add: requeue_reason_def marshal_attempt_error_def demo_moment_def demo_svc_def)
  have "(\<exists>e. err = Some e \<and> errors_Is e ErrDrainIncomplete) \<and>
      handed_back \<lparr>lease_ID = 1, lease_Attempt = 1\<rparr> (tstz demo_svc 9000) (db_abs demo_running) (db_abs (p_store p') 1)"
    using escalate_returns_jobs[OF demo_svc_objects _ _ _ _ _ out] reason demo_tables_wf(2) demo_env_reliable snap
    by (simp add: p demo_moment_def MaxInt32_def)
  then show ?thesis using out by (auto simp: handed_back_def demo_claimed_facts retryable_row_def)
qed

section \<open>Start and stop\<close>

text \<open>The goroutines of \<^verbatim>\<open>start\<close> that support the pool, with the number the wait group is told to
  expect. \<open>listens\<close> says that the driver can listen for notifications.\<close>

datatype goroutine = Heartbeating | Rescuing | Refreshing | Listening | Scheduling

definition start_background :: "client \<Rightarrow> bool \<Rightarrow> nat \<times> goroutine list" where
  "start_background c listens =
     (let n = 3;
          n = (if c_notifyWakeup c \<and> listens then n + 1 else n);
          n = (if length (c_periodic c) > 0 then n + 1 else n)
      in (n, [Heartbeating, Rescuing, Refreshing] @
           (if c_notifyWakeup c \<and> listens then [Listening] else []) @
           (if length (c_periodic c) > 0 then [Scheduling] else [])))"

text \<open>The listener: each event is the end of a session, with its error if any, whether the context is
  cancelled then, and whether it is cancelled during the wait before the next one. The result is what is
  logged.\<close>

fun listenForWakeups :: "(string option \<times> bool \<times> bool) list \<Rightarrow> string list" where
  "listenForWakeups [] = []"
| "listenForWakeups ((err, cancelled, cancelled_waiting) # sessions) =
     (if cancelled then []
      else (case err of None \<Rightarrow> [] | Some msg \<Rightarrow> [msg]) @
        (if cancelled_waiting then [] else listenForWakeups sessions))"

text \<open>
  The shutdown, with the order of its actions. \<open>wait\<close> is what the wait for the pool meets: whether it
  finished before the budget ran out, and the state by then; \<open>shut\<close> is how the ops server shuts down,
  if there is one.
\<close>

datatype drain_action =
    SetDraining | CancelBackground | CloseStopFetch | AwaitPool bool | CloseStopHeartbeat | AwaitBackground
  | ShutdownOps | CancelJobs

definition errors_Join :: "go_error option \<Rightarrow> go_error \<Rightarrow> go_error" where
  "errors_Join err e = Wrapf ''join'' (case err of None \<Rightarrow> [e] | Some x \<Rightarrow> [x, e])"

definition drain ::
  "('e, 's) driver_ops \<Rightarrow> client \<Rightarrow> (nat \<Rightarrow> 'e moment) \<Rightarrow> ('s pool \<Rightarrow> bool \<times> 's pool) \<Rightarrow> go_error option option \<Rightarrow> 's pool \<Rightarrow>
   go_error option \<times> drain_action list \<times> 's pool" where
  "drain ops c mo wait shut p =
     (let p1 = p\<lparr>p_fetchCtx := (p_fetchCtx p)\<lparr>ctx_cancelled := True\<rparr>, p_stopFetch := True\<rparr>;
          (finished, p2) = wait p1;
          (err, evs, p3) = (if finished then (None, [], p2) else escalate ops c mo p2);
          err' = (case shut of Some (Some shutErr) \<Rightarrow> Some (errors_Join err shutErr) | _ \<Rightarrow> err)
      in (err',
          [SetDraining, CancelBackground, CloseStopFetch, AwaitPool finished] @
          (if err = None then [] else [CancelJobs]) @ [CloseStopHeartbeat, AwaitBackground] @
          (if shut = None then [] else [ShutdownOps]) @ [CancelJobs],
          p3\<lparr>p_jobCtx := (p_jobCtx p3)\<lparr>ctx_cancelled := True\<rparr>\<rparr>))"

text \<open>The runner of a client: none yet, running, or shut down with the verdict everybody is told.\<close>

datatype 's run_state = NotStarted | Started "'s pool" | Stopped "go_error option" "'s pool"

fun is_started :: "'s run_state \<Rightarrow> bool" where
  "is_started NotStarted = False"
| "is_started r = True"

fun runner_stop :: "('s pool \<Rightarrow> go_error option \<times> 's pool) \<Rightarrow> 's run_state \<Rightarrow> go_error option \<times> 's run_state" where
  "runner_stop drn (Started p) = (let (err, p') = drn p in (err, Stopped err p'))"
| "runner_stop drn r = ((case r of Stopped err p \<Rightarrow> err | _ \<Rightarrow> None), r)"

text \<open>A context that is cancelled shuts the runner down; one that is done already needs nothing.\<close>

definition watch :: "('s pool \<Rightarrow> go_error option \<times> 's pool) \<Rightarrow> bool \<Rightarrow> 's run_state \<Rightarrow> 's run_state" where
  "watch drn ctx_done r = (if ctx_done then snd (runner_stop drn r) else r)"

text \<open>\<open>listen\<close> is the error of listening on the ops address, if any; \<open>meanwhile\<close> what other calls
  made of the runner while the lock was free.\<close>

definition client_Start ::
  "client \<Rightarrow> inflight_set \<Rightarrow> 's \<Rightarrow> go_error option \<Rightarrow> ('s run_state \<Rightarrow> 's run_state) \<Rightarrow> 's run_state \<Rightarrow>
   go_error option \<times> 's run_state" where
  "client_Start c infl s listen meanwhile r =
     (if is_started r then (Some (Sentinel ErrAlreadyStarted), r)
      else
        let r' = meanwhile r
        in if c_opsAddr c \<noteq> [] \<and> listen \<noteq> None then
             (Some (Wrapf ''drover: listen on ops address'' [the listen]), r')
           else if is_started r' then (Some (Sentinel ErrAlreadyStarted), r')
           else (None, Started (newRunner c infl s)))"

definition client_Stop :: "('s pool \<Rightarrow> go_error option \<times> 's pool) \<Rightarrow> 's run_state \<Rightarrow> go_error option \<times> 's run_state" where
  "client_Stop drn r = (if is_started r then runner_stop drn r else (Some (Sentinel ErrNotStarted), r))"

text \<open>The wait group of the background is told of exactly the goroutines that are launched, so the
  last wait of a shutdown neither returns early nor hangs.\<close>

lemma start_background_counts: "length (snd (start_background c listens)) = fst (start_background c listens)"
  by (simp add: start_background_def Let_def)

text \<open>The heartbeat outlives the pool and the ops server everything: the order of the shutdown.\<close>

lemma drain_order:
  assumes "drain ops c mo wait shut p = (err, acts, p')"
  shows "\<exists>finished mid. acts = [SetDraining, CancelBackground, CloseStopFetch, AwaitPool finished] @ mid @
      [CloseStopHeartbeat, AwaitBackground] @ (if shut = None then [] else [ShutdownOps]) @ [CancelJobs] \<and>
    set mid \<subseteq> {CancelJobs}"
  using assms by (auto simp: drain_def Let_def case_prod_beta)

text \<open>A shutdown is clean whenever the pool has drained, however the race with its deadline falls.\<close>

lemma drain_clean:
  assumes "pool_reach ops c msg_of others (newRunner c newInflightSet s) p2" "drained p2"
    and "wait (p\<lparr>p_fetchCtx := (p_fetchCtx p)\<lparr>ctx_cancelled := True\<rparr>, p_stopFetch := True\<rparr>) = (finished, p2)"
    and "shut \<in> {None, Some None}"
  shows "fst (drain ops c mo wait shut p) = None"
proof -
  have "p_infl p2 = []"
    using drained_clean[OF assms(2) slots_inv_reach[OF assms(1)] tracked_held_reach[OF assms(1)]] by simp
  then have "escalate ops c mo p2 = (None, [], p2)" by (simp add: escalate_def snapshot_def)
  then show ?thesis using assms(3,4) by (cases finished) (auto simp: drain_def Let_def)
qed

text \<open>A client runs once: after a start that succeeded every other one fails and changes nothing, and
  once it is stopped every stop tells the same verdict.\<close>

lemma lifecycle_once:
  "client_Start c infl s listen meanwhile r = (None, r') \<Longrightarrow> \<exists>p. r' = Started p"
  "is_started r \<Longrightarrow> client_Start c infl s listen meanwhile r = (Some (Sentinel ErrAlreadyStarted), r)"
  "is_started r \<Longrightarrow> client_Stop drn r = (err, r') \<Longrightarrow> client_Stop drn' r' = (err, r') \<and> is_started r'"
  "\<not> is_started r \<Longrightarrow> client_Stop drn r = (Some (Sentinel ErrNotStarted), r)"
  by (cases r; auto simp: client_Start_def client_Stop_def Let_def split: if_splits prod.splits)+

end
