(* ===== verification/Telemetry.thy ===== *)
theory Telemetry
  imports Loop
begin

text \<open>
  What operators and probes see: the refresher that turns readings of the store into gauges
  (\<^verbatim>\<open>stats.go\<close>) and the server that answers health, readiness and metrics (\<^verbatim>\<open>ops.go\<close>).
\<close>

section \<open>Readings\<close>

definition publishedDepthStates :: "string list" where
  "publishedDepthStates = [''available'', ''scheduled'', ''retryable'', ''running'', ''dead'']"

text \<open>
  The refresher. Go maps used as sets are lists of their keys; a count is exact as a float up to
  \<open>2\<^sup>5\<^sup>3\<close>.
\<close>

record stats_refresher =
  sr_metrics :: metric_set
  sr_queues :: "weighted_queue list"
  sr_lastSuccess :: time
  sr_depthKeys :: "(string \<times> string) list"
  sr_ageKeys :: "string list"

definition seedDepth :: "(string \<Rightarrow> bool) \<Rightarrow> string \<Rightarrow> string \<Rightarrow> stats_refresher \<Rightarrow> stats_refresher" where
  "seedDepth label_ok queue state r =
     r\<lparr>sr_metrics := setDepth label_ok queue state 0 (sr_metrics r),
       sr_depthKeys := List.insert (queue, state) (sr_depthKeys r)\<rparr>"

definition seedQueue :: "(string \<Rightarrow> bool) \<Rightarrow> weighted_queue \<Rightarrow> stats_refresher \<Rightarrow> stats_refresher" where
  "seedQueue label_ok q r =
     (let r1 = fold (seedDepth label_ok (wq_name q)) publishedDepthStates r
      in r1\<lparr>sr_metrics := setOldestAge label_ok (wq_name q) 0 (sr_metrics r1),
           sr_ageKeys := List.insert (wq_name q) (sr_ageKeys r1)\<rparr>)"

definition seedConfiguredZeros :: "(string \<Rightarrow> bool) \<Rightarrow> stats_refresher \<Rightarrow> stats_refresher" where
  "seedConfiguredZeros label_ok r = fold (seedQueue label_ok) (sr_queues r) r"

definition newStatsRefresher :: "(string \<Rightarrow> bool) \<Rightarrow> metric_set \<Rightarrow> weighted_queue list \<Rightarrow> stats_refresher" where
  "newStatsRefresher label_ok m queues =
     seedConfiguredZeros label_ok
       \<lparr>sr_metrics = m, sr_queues = queues, sr_lastSuccess = 0, sr_depthKeys = [], sr_ageKeys = []\<rparr>"

text \<open>The maps one reading fills: zeros for the configured queues, then what the store counted.\<close>

definition reading ::
  "weighted_queue list \<Rightarrow> stats \<Rightarrow> ((string \<times> string) \<times> real) list \<times> (string \<times> real) list" where
  "reading queues stats =
     (let (depths, ages) = fold (\<lambda>q (depths, ages).
            (fold (\<lambda>state. AList.update (wq_name q, state) 0) publishedDepthStates depths,
             AList.update (wq_name q) 0 ages)) queues ([], []);
          (depths, ages) = fold (\<lambda>d (depths, ages).
            (AList.update (qd_Queue d, qd_State d) (real_of_int (qd_Count d)) depths,
             if map_of ages (qd_Queue d) = None then AList.update (qd_Queue d) 0 ages else ages))
            (Depths stats) (depths, ages);
          ages = fold (\<lambda>a. AList.update (qa_Queue a) (qa_AgeSeconds a)) (Oldest stats) ages
      in (depths, ages))"

text \<open>
  The gauges are written one at a time, and a scrape may come between any two writes. The order in
  which Go ranges over each of the four maps is a parameter.
\<close>

datatype gauge_write = SetDepth string string real | SetAge string real | DropDepth string string | DropAge string

fun write_gauge :: "(string \<Rightarrow> bool) \<Rightarrow> gauge_write \<Rightarrow> metric_set \<Rightarrow> metric_set" where
  "write_gauge label_ok (SetDepth queue state n) m = setDepth label_ok queue state n m"
| "write_gauge label_ok (SetAge queue seconds) m = setOldestAge label_ok queue seconds m"
| "write_gauge label_ok (DropDepth queue state) m = deleteDepth queue state m"
| "write_gauge label_ok (DropAge queue) m = deleteOldestAge queue m"

record map_orders =
  ord_depths :: "((string \<times> string) \<times> real) list \<Rightarrow> ((string \<times> string) \<times> real) list"
  ord_ages :: "(string \<times> real) list \<Rightarrow> (string \<times> real) list"
  ord_depthKeys :: "(string \<times> string) list \<Rightarrow> (string \<times> string) list"
  ord_ageKeys :: "string list \<Rightarrow> string list"

definition refresh_writes ::
  "map_orders \<Rightarrow> ((string \<times> string) \<times> real) list \<Rightarrow> (string \<times> real) list \<Rightarrow> stats_refresher \<Rightarrow> gauge_write list" where
  "refresh_writes ord depths ages r =
     map (\<lambda>((queue, state), n). SetDepth queue state n) (ord_depths ord depths) @
     map (\<lambda>(queue, seconds). SetAge queue seconds) (ord_ages ord ages) @
     map (\<lambda>(queue, state). DropDepth queue state)
       (filter (\<lambda>key. map_of depths key = None) (ord_depthKeys ord (sr_depthKeys r))) @
     map DropAge (filter (\<lambda>queue. map_of ages queue = None) (ord_ageKeys ord (sr_ageKeys r)))"

definition refresh ::
  "('e, 's) driver_ops \<Rightarrow> (string \<Rightarrow> bool) \<Rightarrow> map_orders \<Rightarrow> 'e \<Rightarrow> time \<Rightarrow> stats_refresher \<times> 's \<Rightarrow>
   driver_error option \<times> stats_refresher \<times> 's" where
  "refresh ops label_ok ord e now st =
     (let (r, s) = st
      in case drv_Stats ops e s of
           (Inl err, s') \<Rightarrow> (Some err, r, s')
         | (Inr stats, s') \<Rightarrow>
             let (depths, ages) = reading (sr_queues r) stats
             in (None,
                 r\<lparr>sr_metrics := fold (write_gauge label_ok) (refresh_writes ord depths ages r) (sr_metrics r),
                   sr_depthKeys := map fst depths, sr_ageKeys := map fst ages, sr_lastSuccess := now\<rparr>, s'))"

text \<open>The loop of \<^verbatim>\<open>run\<close>: each event is a refresh, or the end of the context; a refresh that fails
  under a cancelled context ends it too.\<close>

datatype 'e refresh_event = RefreshTick map_orders 'e time bool | RefreshStop

fun refresher_run ::
  "('e, 's) driver_ops \<Rightarrow> (string \<Rightarrow> bool) \<Rightarrow> 'e refresh_event list \<Rightarrow> stats_refresher \<times> 's \<Rightarrow> stats_refresher \<times> 's" where
  "refresher_run ops label_ok [] st = st"
| "refresher_run ops label_ok (RefreshStop # evs) st = st"
| "refresher_run ops label_ok (RefreshTick ord e now cancelled # evs) st =
     (case refresh ops label_ok ord e now st of
        (err, st') \<Rightarrow> if err \<noteq> None \<and> cancelled then st' else refresher_run ops label_ok evs st')"

definition fresh :: "time \<Rightarrow> duration \<Rightarrow> stats_refresher \<Rightarrow> bool" where
  "fresh now bound r = (if IsZero (sr_lastSuccess r) then False else \<not> After now (sr_lastSuccess r + bound))"

section \<open>The ops server\<close>

text \<open>The readiness check that \<^verbatim>\<open>newRunner\<close> gives the server.\<close>

definition ready :: "duration \<Rightarrow> bool \<Rightarrow> time \<Rightarrow> stats_refresher \<Rightarrow> string option" where
  "ready interval draining now r =
     (if draining then Some ''draining''
      else if \<not> fresh now (2 * interval) r then Some ''queue stats stale''
      else None)"

text \<open>
  A request to the server, its path in canonical form: the status and the body. The patterns of the
  three routes accept GET, and with it HEAD, whose answer has no body; \<open>exposition\<close> is what the
  metrics library writes.
\<close>

definition http_Error :: "nat \<Rightarrow> string \<Rightarrow> nat \<times> string" where
  "http_Error code msg = (code, msg @ [char_of (10::nat)])"

definition serve_ops :: "(unit \<Rightarrow> string option) option \<Rightarrow> string \<Rightarrow> string \<Rightarrow> string \<Rightarrow> nat \<times> string" where
  "serve_ops ready_check exposition meth path =
     (let (code, body) =
        (if path \<notin> {''/metrics'', ''/healthz'', ''/readyz''} then http_Error 404 ''404 page not found''
         else if meth \<noteq> ''GET'' \<and> meth \<noteq> ''HEAD'' then http_Error 405 ''Method Not Allowed''
         else if path = ''/metrics'' then (200, exposition)
         else if path = ''/healthz'' then (200, [])
         else case ready_check of
           None \<Rightarrow> (200, [])
         | Some check \<Rightarrow> (case check () of Some err \<Rightarrow> http_Error 503 err | None \<Rightarrow> (200, [])))
      in (code, if meth = ''HEAD'' then [] else body))"

text \<open>Shutting the server down: a failed shutdown closes it, and either way the serving goroutine is
  joined.\<close>

datatype ops_action = ServerShutdown | ServerClose | AwaitServe

definition ops_shutdown :: "'err option \<Rightarrow> 'err option \<times> ops_action list" where
  "ops_shutdown err = (err, [ServerShutdown] @ (if err \<noteq> None then [ServerClose] else []) @ [AwaitServe])"

section \<open>What a refresh publishes\<close>

lemma fold_update:
  "map_of (fold (\<lambda>x. AList.update (f x) (g x)) xs al) = map_of al ++ map_of (rev (map (\<lambda>x. (f x, g x)) xs))"
  by (induction xs arbitrary: al) (auto simp: update_conv' map_add_def fun_eq_iff split: option.splits)

lemma distinct_fold_update:
  "distinct (map fst al) \<Longrightarrow> distinct (map fst (fold (\<lambda>x. AList.update (f x) (g x)) xs al))"
  by (induction xs arbitrary: al) (simp_all add: distinct_update)

text \<open>What the gauges should show: the last count the reading has for the queue and state, or zero for
  a configured queue; the age of the oldest job, or zero for a queue that is configured or has jobs.\<close>

definition depth_value :: "weighted_queue list \<Rightarrow> stats \<Rightarrow> string \<times> string \<Rightarrow> real option" where
  "depth_value queues st key =
     (case map_of (rev (map (\<lambda>d. ((qd_Queue d, qd_State d), real_of_int (qd_Count d))) (Depths st))) key of
        Some n \<Rightarrow> Some n
      | None \<Rightarrow> if fst key \<in> wq_name ` set queues \<and> snd key \<in> set publishedDepthStates then Some 0 else None)"

definition age_value :: "weighted_queue list \<Rightarrow> stats \<Rightarrow> string \<Rightarrow> real option" where
  "age_value queues st queue =
     (case map_of (rev (map (\<lambda>a. (qa_Queue a, qa_AgeSeconds a)) (Oldest st))) queue of
        Some n \<Rightarrow> Some n
      | None \<Rightarrow> if queue \<in> wq_name ` set queues \<or> queue \<in> qd_Queue ` set (Depths st) then Some 0 else None)"

definition zero_reading :: "weighted_queue list \<Rightarrow> ((string \<times> string) \<times> real) list \<times> (string \<times> real) list \<Rightarrow>
   ((string \<times> string) \<times> real) list \<times> (string \<times> real) list" where
  "zero_reading = fold (\<lambda>q (depths, ages).
     (fold (\<lambda>state. AList.update (wq_name q, state) 0) publishedDepthStates depths, AList.update (wq_name q) 0 ages))"

lemma zero_reading:
  assumes "zero_reading queues (ds, as) = (ds', as')"
  shows "map_of ds' k = (if fst k \<in> wq_name ` set queues \<and> snd k \<in> set publishedDepthStates then Some 0 else map_of ds k) \<and>
    map_of as' q = (if q \<in> wq_name ` set queues then Some 0 else map_of as q) \<and>
    (distinct (map fst ds) \<longrightarrow> distinct (map fst ds')) \<and> (distinct (map fst as) \<longrightarrow> distinct (map fst as'))"
  using assms
proof (induction queues arbitrary: ds as)
  case (Cons w queues)
  let ?ds = "fold (\<lambda>state. AList.update (wq_name w, state) 0) publishedDepthStates ds"
  have ds: "map_of ?ds k = (if fst k = wq_name w \<and> snd k \<in> set publishedDepthStates then Some 0 else map_of ds k)"
    by (cases k) (auto simp: publishedDepthStates_def update_conv')
  have "distinct (map fst ds) \<longrightarrow> distinct (map fst ?ds)" by (simp add: publishedDepthStates_def distinct_update)
  moreover have "zero_reading queues (?ds, AList.update (wq_name w) 0 as) = (ds', as')"
    using Cons.prems by (simp add: zero_reading_def)
  note Cons.IH[OF this]
  ultimately show ?case using ds by (auto simp: update_conv' distinct_update)
qed (simp add: zero_reading_def)

definition count_reading :: "queue_depth list \<Rightarrow> ((string \<times> string) \<times> real) list \<times> (string \<times> real) list \<Rightarrow>
   ((string \<times> string) \<times> real) list \<times> (string \<times> real) list" where
  "count_reading = fold (\<lambda>d (depths, ages).
     (AList.update (qd_Queue d, qd_State d) (real_of_int (qd_Count d)) depths,
      if map_of ages (qd_Queue d) = None then AList.update (qd_Queue d) 0 ages else ages))"

lemma count_reading:
  assumes "count_reading dl (ds, as) = (ds', as')"
  shows "map_of ds' k = (map_of ds ++ map_of (rev (map (\<lambda>d. ((qd_Queue d, qd_State d), real_of_int (qd_Count d))) dl))) k \<and>
    map_of as' q = (case map_of as q of Some n \<Rightarrow> Some n | None \<Rightarrow> if q \<in> qd_Queue ` set dl then Some 0 else None) \<and>
    (distinct (map fst ds) \<longrightarrow> distinct (map fst ds')) \<and> (distinct (map fst as) \<longrightarrow> distinct (map fst as'))"
  using assms
proof (induction dl arbitrary: ds as)
  case (Cons d dl)
  let ?ds = "AList.update (qd_Queue d, qd_State d) (real_of_int (qd_Count d)) ds"
  let ?as = "if map_of as (qd_Queue d) = None then AList.update (qd_Queue d) 0 as else as"
  have "count_reading dl (?ds, ?as) = (ds', as')" using Cons.prems by (simp add: count_reading_def)
  note ih = Cons.IH[OF this]
  have "map_of ?as q = (case map_of as q of Some n \<Rightarrow> Some n | None \<Rightarrow> if q = qd_Queue d then Some 0 else None)"
    by (auto simp: update_conv' split: option.split)
  then show ?case using ih by (auto simp: update_conv' distinct_update map_add_def split: option.splits)
qed (auto simp: count_reading_def split: option.split)

lemma reading_values:
  assumes "reading queues st = (depths, ages)"
  shows "map_of depths k = depth_value queues st k" "map_of ages q = age_value queues st q"
    "distinct (map fst depths)" "distinct (map fst ages)"
proof -
  obtain d1 a1 where 1: "zero_reading queues ([], []) = (d1, a1)" by fastforce
  obtain d2 a2 where 2: "count_reading (Depths st) (d1, a1) = (d2, a2)" by fastforce
  have out: "depths = d2" "ages = fold (\<lambda>a. AList.update (qa_Queue a) (qa_AgeSeconds a)) (Oldest st) a2"
    using assms 1 2 by (simp_all add: reading_def zero_reading_def count_reading_def)
  note z = zero_reading[OF 1] and c = count_reading[OF 2]
  show "map_of depths k = depth_value queues st k"
    using z[of k q] c[of k q] by (auto simp: out(1) depth_value_def map_add_def split: option.splits)
  show "map_of ages q = age_value queues st q"
    using z[of k q] c[of k q] by (auto simp: out(2) fold_update age_value_def map_add_def split: option.splits)
  show "distinct (map fst depths)" using z c by (simp add: out(1))
  have "distinct (map fst a2)" using z c by simp
  then show "distinct (map fst ages)" unfolding out(2) by (rule distinct_fold_update)
qed

text \<open>What a write does to one gauge: nothing, or the value it leaves.\<close>

fun depth_effect :: "(string \<Rightarrow> bool) \<Rightarrow> gauge_write \<Rightarrow> string \<times> string \<Rightarrow> real option option" where
  "depth_effect label_ok (SetDepth queue state n) k =
     (if k = (queue, state) \<and> label_ok queue \<and> label_ok state then Some (Some n) else None)"
| "depth_effect label_ok (DropDepth queue state) k = (if k = (queue, state) then Some None else None)"
| "depth_effect label_ok w k = None"

fun age_effect :: "(string \<Rightarrow> bool) \<Rightarrow> gauge_write \<Rightarrow> string \<Rightarrow> real option option" where
  "age_effect label_ok (SetAge queue n) k = (if k = queue \<and> label_ok queue then Some (Some n) else None)"
| "age_effect label_ok (DropAge queue) k = (if k = queue then Some None else None)"
| "age_effect label_ok w k = None"

lemma write_gauge_effect:
  "m_depth (write_gauge label_ok w m) k = (case depth_effect label_ok w k of None \<Rightarrow> m_depth m k | Some v \<Rightarrow> v)"
  "m_oldestAge (write_gauge label_ok w m) q = (case age_effect label_ok w q of None \<Rightarrow> m_oldestAge m q | Some v \<Rightarrow> v)"
  by (cases w; auto simp: setDepth_def setOldestAge_def deleteDepth_def deleteOldestAge_def)+

lemma write_gauges:
  "\<forall>w \<in> set ws. depth_effect label_ok w k \<in> {None, Some v} \<Longrightarrow>
   m_depth (fold (write_gauge label_ok) ws m) k =
     (if \<exists>w \<in> set ws. depth_effect label_ok w k \<noteq> None then v else m_depth m k)"
  "\<forall>w \<in> set ws. age_effect label_ok w q \<in> {None, Some u} \<Longrightarrow>
   m_oldestAge (fold (write_gauge label_ok) ws m) q =
     (if \<exists>w \<in> set ws. age_effect label_ok w q \<noteq> None then u else m_oldestAge m q)"
  by (induction ws arbitrary: m) (auto simp: write_gauge_effect split: option.split)

definition orders_ok :: "map_orders \<Rightarrow> bool" where
  "orders_ok ord \<longleftrightarrow> (\<forall>xs. set (ord_depths ord xs) = set xs) \<and> (\<forall>xs. set (ord_ages ord xs) = set xs) \<and>
     (\<forall>xs. set (ord_depthKeys ord xs) = set xs) \<and> (\<forall>xs. set (ord_ageKeys ord xs) = set xs)"

text \<open>The series the refresher has published are those it remembers, as far as their labels were
  accepted.\<close>

definition published :: "(string \<Rightarrow> bool) \<Rightarrow> stats_refresher \<Rightarrow> bool" where
  "published label_ok r \<longleftrightarrow>
     (\<forall>q st. m_depth (sr_metrics r) (q, st) \<noteq> None \<longleftrightarrow> (q, st) \<in> set (sr_depthKeys r) \<and> label_ok q \<and> label_ok st) \<and>
     (\<forall>q. m_oldestAge (sr_metrics r) q \<noteq> None \<longleftrightarrow> q \<in> set (sr_ageKeys r) \<and> label_ok q)"

lemma set_refresh_writes:
  assumes "orders_ok ord"
  shows "set (refresh_writes ord depths ages r) =
    (\<lambda>((q, st), n). SetDepth q st n) ` set depths \<union> (\<lambda>(q, n). SetAge q n) ` set ages \<union>
    (\<lambda>(q, st). DropDepth q st) ` {k \<in> set (sr_depthKeys r). map_of depths k = None} \<union>
    DropAge ` {q \<in> set (sr_ageKeys r). map_of ages q = None}"
  using assms by (auto simp: refresh_writes_def orders_ok_def)

text \<open>Every write on a gauge leaves the value it is to have, and a gauge without a write has it
  already.\<close>

lemma depth_writes:
  assumes ord: "orders_ok ord" and pub: "published label_ok r" and d: "distinct (map fst depths)"
    and t: "t = (if label_ok q \<and> label_ok st then map_of depths (q, st) else None)"
  shows "\<forall>w \<in> set (refresh_writes ord depths ages r). depth_effect label_ok w (q, st) \<in> {None, Some t}"
    and "(\<exists>w \<in> set (refresh_writes ord depths ages r). depth_effect label_ok w (q, st) \<noteq> None) \<or>
      m_depth (sr_metrics r) (q, st) = t"
proof -
  note ws = set_refresh_writes[OF ord, of depths ages r]
  show "\<forall>w \<in> set (refresh_writes ord depths ages r). depth_effect label_ok w (q, st) \<in> {None, Some t}"
    using d by (auto simp: ws t)
  have old: "m_depth (sr_metrics r) (q, st) = None" if "(q, st) \<notin> set (sr_depthKeys r) \<or> \<not> (label_ok q \<and> label_ok st)"
    using pub that unfolding published_def by blast
  show "(\<exists>w \<in> set (refresh_writes ord depths ages r). depth_effect label_ok w (q, st) \<noteq> None) \<or>
      m_depth (sr_metrics r) (q, st) = t"
  proof (cases "map_of depths (q, st)")
    case None
    show ?thesis
    proof (cases "(q, st) \<in> set (sr_depthKeys r)")
      case True
      then have "DropDepth q st \<in> set (refresh_writes ord depths ages r)" using None by (force simp: ws)
      then show ?thesis by (intro disjI1 bexI[of _ "DropDepth q st"]) simp_all
    next
      case False
      then have "m_depth (sr_metrics r) (q, st) = None" using old by blast
      then show ?thesis using None t by simp
    qed
  next
    case (Some n)
    have "SetDepth q st n \<in> (\<lambda>((q, st), n). SetDepth q st n) ` set depths"
      by (rule image_eqI[OF _ map_of_SomeD[OF Some]]) simp
    then have w: "SetDepth q st n \<in> set (refresh_writes ord depths ages r)" unfolding ws by blast
    show ?thesis
    proof (cases "label_ok q \<and> label_ok st")
      case True
      then show ?thesis using w by (intro disjI1 bexI[of _ "SetDepth q st n"]) simp_all
    next
      case False
      then have "m_depth (sr_metrics r) (q, st) = None" using old by blast
      then show ?thesis using False t by auto
    qed
  qed
qed

lemma age_writes:
  assumes ord: "orders_ok ord" and pub: "published label_ok r" and d: "distinct (map fst ages)"
    and t: "t = (if label_ok q then map_of ages q else None)"
  shows "\<forall>w \<in> set (refresh_writes ord depths ages r). age_effect label_ok w q \<in> {None, Some t}"
    and "(\<exists>w \<in> set (refresh_writes ord depths ages r). age_effect label_ok w q \<noteq> None) \<or>
      m_oldestAge (sr_metrics r) q = t"
proof -
  note ws = set_refresh_writes[OF ord, of depths ages r]
  show "\<forall>w \<in> set (refresh_writes ord depths ages r). age_effect label_ok w q \<in> {None, Some t}"
    using d by (auto simp: ws t)
  have old: "m_oldestAge (sr_metrics r) q = None" if "q \<notin> set (sr_ageKeys r) \<or> \<not> label_ok q"
    using pub that unfolding published_def by blast
  show "(\<exists>w \<in> set (refresh_writes ord depths ages r). age_effect label_ok w q \<noteq> None) \<or>
      m_oldestAge (sr_metrics r) q = t"
  proof (cases "map_of ages q")
    case None
    show ?thesis
    proof (cases "q \<in> set (sr_ageKeys r)")
      case True
      then have "DropAge q \<in> set (refresh_writes ord depths ages r)" using None by (force simp: ws)
      then show ?thesis by (intro disjI1 bexI[of _ "DropAge q"]) simp_all
    next
      case False
      then have "m_oldestAge (sr_metrics r) q = None" using old by blast
      then show ?thesis using None t by simp
    qed
  next
    case (Some n)
    have "SetAge q n \<in> (\<lambda>(q, n). SetAge q n) ` set ages" by (rule image_eqI[OF _ map_of_SomeD[OF Some]]) simp
    then have w: "SetAge q n \<in> set (refresh_writes ord depths ages r)" unfolding ws by blast
    show ?thesis
    proof (cases "label_ok q")
      case True
      then show ?thesis using w by (intro disjI1 bexI[of _ "SetAge q n"]) simp_all
    next
      case False
      then have "m_oldestAge (sr_metrics r) q = None" using old by blast
      then show ?thesis using False t by auto
    qed
  qed
qed

lemma written_gauges:
  assumes "\<forall>w \<in> set ws. depth_effect label_ok w k \<in> {None, Some t}"
    and "(\<exists>w \<in> set ws. depth_effect label_ok w k \<noteq> None) \<or> m_depth m k = t"
  shows "m_depth (fold (write_gauge label_ok) ws m) k = t"
    "m_depth (fold (write_gauge label_ok) (take n ws) m) k \<in> {m_depth m k, t}"
proof -
  have "\<forall>w \<in> set (take n ws). depth_effect label_ok w k \<in> {None, Some t}" using assms(1) in_set_takeD by metis
  from write_gauges(1)[OF this, of m] show "m_depth (fold (write_gauge label_ok) (take n ws) m) k \<in> {m_depth m k, t}" by simp
  show "m_depth (fold (write_gauge label_ok) ws m) k = t" using write_gauges(1)[OF assms(1), of m] assms(2) by auto
qed

lemma written_ages:
  assumes "\<forall>w \<in> set ws. age_effect label_ok w q \<in> {None, Some t}"
    and "(\<exists>w \<in> set ws. age_effect label_ok w q \<noteq> None) \<or> m_oldestAge m q = t"
  shows "m_oldestAge (fold (write_gauge label_ok) ws m) q = t"
    "m_oldestAge (fold (write_gauge label_ok) (take n ws) m) q \<in> {m_oldestAge m q, t}"
proof -
  have "\<forall>w \<in> set (take n ws). age_effect label_ok w q \<in> {None, Some t}" using assms(1) in_set_takeD by metis
  from write_gauges(2)[OF this, of m] show "m_oldestAge (fold (write_gauge label_ok) (take n ws) m) q \<in> {m_oldestAge m q, t}" by simp
  show "m_oldestAge (fold (write_gauge label_ok) ws m) q = t" using write_gauges(2)[OF assms(1), of m] assms(2) by auto
qed

lemma fold_invariant_all: "(\<And>x r. P r \<Longrightarrow> P (f x r)) \<Longrightarrow> P r \<Longrightarrow> P (fold f xs r)"
  by (induction xs arbitrary: r) simp_all

lemma seedQueue_keeps:
  assumes "published label_ok r \<and> sr_queues r = qs"
  shows "published label_ok (seedQueue label_ok q r) \<and> sr_queues (seedQueue label_ok q r) = qs"
proof -
  have "published label_ok (fold (seedDepth label_ok (wq_name q)) publishedDepthStates r) \<and>
      sr_queues (fold (seedDepth label_ok (wq_name q)) publishedDepthStates r) = qs"
    by (rule fold_invariant_all[where P = "\<lambda>r. published label_ok r \<and> sr_queues r = qs"])
      (use assms in \<open>auto simp: published_def seedDepth_def setDepth_def\<close>)
  then show ?thesis by (auto simp: published_def seedQueue_def Let_def setOldestAge_def)
qed

lemma published_new:
  "published label_ok (newStatsRefresher label_ok (newMetricSet concurrency) queues) \<and>
   sr_queues (newStatsRefresher label_ok (newMetricSet concurrency) queues) = queues"
  unfolding newStatsRefresher_def seedConfiguredZeros_def
  by (rule fold_invariant_all[where P = "\<lambda>r. published label_ok r \<and> sr_queues r = queues"])
    (simp_all add: seedQueue_keeps, simp add: published_def newMetricSet_def)

text \<open>What a successful refresh leaves, and what a scrape in the middle of it sees.\<close>

lemma refresh_gauges:
  assumes "orders_ok ord" "published label_ok r" "reading queues st = (depths, ages)"
  shows "m_depth (fold (write_gauge label_ok) (refresh_writes ord depths ages r) (sr_metrics r)) (q, x) =
      (if label_ok q \<and> label_ok x then depth_value queues st (q, x) else None)"
    "m_oldestAge (fold (write_gauge label_ok) (refresh_writes ord depths ages r) (sr_metrics r)) q =
      (if label_ok q then age_value queues st q else None)"
    "m_depth (fold (write_gauge label_ok) (take n (refresh_writes ord depths ages r)) (sr_metrics r)) (q, x) \<in>
      {m_depth (sr_metrics r) (q, x), if label_ok q \<and> label_ok x then depth_value queues st (q, x) else None}"
    "m_oldestAge (fold (write_gauge label_ok) (take n (refresh_writes ord depths ages r)) (sr_metrics r)) q \<in>
      {m_oldestAge (sr_metrics r) q, if label_ok q then age_value queues st q else None}"
  unfolding reading_values(1,2)[OF assms(3), symmetric]
  by (rule written_gauges written_ages, rule depth_writes[OF assms(1,2) reading_values(3)[OF assms(3)] refl]
        age_writes[OF assms(1,2) reading_values(4)[OF assms(3)] refl],
      rule depth_writes[OF assms(1,2) reading_values(3)[OF assms(3)] refl]
        age_writes[OF assms(1,2) reading_values(4)[OF assms(3)] refl])+

lemma published_refresh:
  assumes "orders_ok ord" "published label_ok r" "refresh ops label_ok ord e now (r, s) = (err, r', s')"
  shows "published label_ok r' \<and> sr_queues r' = sr_queues r"
proof (cases "drv_Stats ops e s")
  case (Pair res t)
  show ?thesis
  proof (cases res)
    case (Inl x)
    then show ?thesis using assms Pair by (auto simp: refresh_def)
  next
    case (Inr st)
    obtain depths ages where rd: "reading (sr_queues r) st = (depths, ages)" by fastforce
    have r': "r' = r\<lparr>sr_metrics := fold (write_gauge label_ok) (refresh_writes ord depths ages r) (sr_metrics r),
        sr_depthKeys := map fst depths, sr_ageKeys := map fst ages, sr_lastSuccess := now\<rparr>"
      using assms(3) Pair Inr rd by (simp add: refresh_def)
    note g = refresh_gauges(1,2)[OF assms(1,2) rd] and v = reading_values(1,2)[OF rd]
    have "k \<in> set (map fst depths) \<longleftrightarrow> depth_value (sr_queues r) st k \<noteq> None" for k
      unfolding v(1)[symmetric] by (simp add: map_of_eq_None_iff)
    moreover have "k \<in> set (map fst ages) \<longleftrightarrow> age_value (sr_queues r) st k \<noteq> None" for k
      unfolding v(2)[symmetric] by (simp add: map_of_eq_None_iff)
    ultimately show ?thesis unfolding published_def r' by (simp add: g)
  qed
qed

fun event_ok :: "'e refresh_event \<Rightarrow> bool" where
  "event_ok (RefreshTick ord e now cancelled) = orders_ok ord"
| "event_ok RefreshStop = True"

lemma published_run:
  assumes "\<forall>ev \<in> set evs. event_ok ev" "published label_ok r" "refresher_run ops label_ok evs (r, s) = (r', s')"
  shows "published label_ok r' \<and> sr_queues r' = sr_queues r"
  using assms
proof (induction evs arbitrary: r s)
  case (Cons ev evs)
  show ?case
  proof (cases ev)
    case (RefreshTick ord e now cancelled)
    obtain err r1 s1 where one: "refresh ops label_ok ord e now (r, s) = (err, r1, s1)" by (metis prod_cases3)
    have p1: "published label_ok r1 \<and> sr_queues r1 = sr_queues r"
      by (rule published_refresh[OF _ Cons.prems(2) one]) (use Cons.prems(1) RefreshTick in simp)
    show ?thesis
    proof (cases "err \<noteq> None \<and> cancelled")
      case True
      then show ?thesis using p1 Cons.prems(3) one RefreshTick by simp
    next
      case False
      then have rest: "refresher_run ops label_ok evs (r1, s1) = (r', s')"
        using Cons.prems(3) one RefreshTick by (simp split: if_splits)
      have "published label_ok r' \<and> sr_queues r' = sr_queues r1"
        by (rule Cons.IH[OF _ _ rest]) (use Cons.prems(1) p1 in simp_all)
      then show ?thesis using p1 by simp
    qed
  qed (use Cons.prems in simp)
qed simp

text \<open>C30: after any history of refreshes, a refresh whose reading fails changes nothing, and one that
  succeeds leaves exactly the gauges of its reading: the count of every queue and state it names, zero
  for the other published states of the configured queues, the age of each queue's oldest job, and no
  series of a queue or state that is gone. In whatever order Go walks its maps, a scrape between any
  two writes finds every gauge at its old or at its new value, so none that survives is ever missing.
  The pool is then ready for two intervals, and not for longer unless another refresh succeeds.\<close>

theorem refresh_publishes:
  assumes "\<forall>ev \<in> set evs. event_ok ev" "orders_ok ord" "0 < now"
    and "refresher_run ops label_ok evs (newStatsRefresher label_ok (newMetricSet concurrency) queues, s0) = (r, s)"
    and "refresh ops label_ok ord e now (r, s) = (err, r', s')"
  shows "(case drv_Stats ops e s of
      (Inl x, _) \<Rightarrow> err = Some x \<and> r' = r
    | (Inr st, _) \<Rightarrow> err = None \<and>
        (\<forall>q x. m_depth (sr_metrics r') (q, x) = (if label_ok q \<and> label_ok x then depth_value queues st (q, x) else None)) \<and>
        (\<forall>q. m_oldestAge (sr_metrics r') q = (if label_ok q then age_value queues st q else None)) \<and>
        (case reading queues st of (depths, ages) \<Rightarrow>
           \<forall>n. let scraped = fold (write_gauge label_ok) (take n (refresh_writes ord depths ages r)) (sr_metrics r)
               in (\<forall>q x. m_depth scraped (q, x) \<in> {m_depth (sr_metrics r) (q, x), m_depth (sr_metrics r') (q, x)}) \<and>
                  (\<forall>q. m_oldestAge scraped q \<in> {m_oldestAge (sr_metrics r) q, m_oldestAge (sr_metrics r') q})) \<and>
        (\<forall>at_time interval. ready interval False at_time r' = None \<longleftrightarrow> at_time \<le> now + 2 * interval))"
proof -
  have pub: "published label_ok r \<and> sr_queues r = queues"
    using published_run[OF assms(1) conjunct1[OF published_new] assms(4)] published_new by simp
  show ?thesis
  proof (cases "drv_Stats ops e s")
    case (Pair res t)
    show ?thesis
    proof (cases res)
      case (Inl x)
      then show ?thesis using assms(5) Pair by (auto simp: refresh_def)
    next
      case (Inr st)
      obtain depths ages where rd: "reading queues st = (depths, ages)" by fastforce
      have out: "err = None" "r' = r\<lparr>sr_metrics := fold (write_gauge label_ok) (refresh_writes ord depths ages r) (sr_metrics r),
          sr_depthKeys := map fst depths, sr_ageKeys := map fst ages, sr_lastSuccess := now\<rparr>"
        using assms(5) Pair Inr rd pub by (simp_all add: refresh_def)
      note g = refresh_gauges[OF assms(2) conjunct1[OF pub] rd]
      have fresh: "ready interval False at_time r' = None \<longleftrightarrow> at_time \<le> now + 2 * interval" for interval at_time
        using assms(3) by (auto simp: ready_def fresh_def out(2))
      have m: "sr_metrics r' = fold (write_gauge label_ok) (refresh_writes ord depths ages r) (sr_metrics r)"
        by (simp add: out(2))
      show ?thesis unfolding Pair Inr rd prod.case sum.case Let_def m g(1,2)
        using g(3,4) out(1) fresh by blast
    qed
  qed
qed

definition demo_orders :: map_orders where
  "demo_orders = \<lparr>ord_depths = rev, ord_ages = (\<lambda>xs. xs), ord_depthKeys = rev, ord_ageKeys = (\<lambda>xs. xs)\<rparr>"

theorem refresh_publishes_witness:
  "\<exists>r'. refresh mem_ops (\<lambda>_. True) demo_orders 200 200
      (newStatsRefresher (\<lambda>_. True) (newMetricSet 3) [\<lparr>wq_name = ''bulk'', wq_weight = 1\<rparr>], demo_waiting) = (None, r', demo_waiting) \<and>
     m_depth (sr_metrics r') (''default'', ''available'') = Some 1 \<and> m_depth (sr_metrics r') (''bulk'', ''dead'') = Some 0 \<and>
     m_depth (sr_metrics r') (''default'', ''dead'') = None \<and> ready 50 False 300 r' = None \<and> ready 50 False 301 r' \<noteq> None"
proof -
  let ?q = "[\<lparr>wq_name = ''bulk'', wq_weight = 1\<rparr>]"
  let ?r = "newStatsRefresher (\<lambda>_. True) (newMetricSet 3) ?q"
  obtain err r' s' where out: "refresh mem_ops (\<lambda>_. True) demo_orders 200 200 (?r, demo_waiting) = (err, r', s')"
    by (metis prod_cases3)
  have ok: "orders_ok demo_orders" by (simp add: orders_ok_def demo_orders_def)
  have st: "drv_Stats mem_ops 200 demo_waiting = (Inr (mem_Stats 200 demo_waiting), demo_waiting)" by (simp add: mem_ops_def)
  have s': "s' = demo_waiting" using out by (simp add: refresh_def st Let_def split: prod.splits)
  have v: "depth_value ?q (mem_Stats 200 demo_waiting) (''default'', ''available'') = Some 1"
    "depth_value ?q (mem_Stats 200 demo_waiting) (''bulk'', ''dead'') = Some 0"
    "depth_value ?q (mem_Stats 200 demo_waiting) (''default'', ''dead'') = None"
    by code_simp+
  have now: "(0::int) < 200" by simp
  have run: "refresher_run mem_ops (\<lambda>_. True) [] (?r, demo_waiting) = (?r, demo_waiting)" by simp
  from refresh_publishes[OF _ ok now run out]
  have "err = None \<and> (\<forall>q x. m_depth (sr_metrics r') (q, x) = depth_value ?q (mem_Stats 200 demo_waiting) (q, x)) \<and>
     (\<forall>t interval. ready interval False t r' = None \<longleftrightarrow> t \<le> 200 + 2 * interval)"
    by (simp add: st)
  then show ?thesis using out v s' by (simp del: not_None_eq)
qed

end
