(* ===== verification/Inspector.thy ===== *)
theory Inspector
  imports Loop
begin

text \<open>
  The operator API (\<^verbatim>\<open>inspector.go\<close>): reads of the store and changes to single jobs, without
  workers.
\<close>

section \<open>Operations\<close>

definition defaultListLimit :: int where "defaultListLimit = 100"
definition maxListLimit :: int where "maxListLimit = 1000"

text \<open>An empty queue or state does not filter.\<close>

record list_opts =
  lo_Queue :: string
  lo_State :: string
  lo_Limit :: int

text \<open>An error of the driver as callers see it: the two sentinels of this package keep only the text
  of the driver's, any other error is passed on.\<close>

definition mapDriverErr :: "driver_error \<Rightarrow> go_error" where
  "mapDriverErr err =
     (if err = ErrNotFound then Wrapf (driver_text err) [Sentinel NotFound]
      else if err = ErrInvalidTransition then Wrapf (driver_text err) [Sentinel InvalidTransition]
      else Wrapf ''drover'' [Text (driver_text err)])"

definition in_Stats :: "('e, 's) driver_ops \<Rightarrow> 'e \<Rightarrow> 's \<Rightarrow> (go_error + stats) \<times> 's" where
  "in_Stats ops e s =
     (case drv_Stats ops e s of
        (Inl err, s') \<Rightarrow> (Inl (Wrapf ''drover: stats'' [Text (driver_text err)]), s')
      | (Inr st, s') \<Rightarrow>
          (Inr \<lparr>Depths = map (\<lambda>d. \<lparr>qd_Queue = qd_Queue d, qd_State = qd_State d, qd_Count = qd_Count d\<rparr>) (Depths st),
                Oldest = map (\<lambda>a. \<lparr>qa_Queue = qa_Queue a, qa_AgeSeconds = qa_AgeSeconds a\<rparr>) (Oldest st)\<rparr>, s'))"

definition in_ListJobs ::
  "('e, 's) driver_ops \<Rightarrow> 'e \<Rightarrow> list_opts option \<Rightarrow> 's \<Rightarrow> (go_error + job_row list) \<times> 's" where
  "in_ListJobs ops e opts s =
     (let (queue, state, limit) =
        (case opts of
           None \<Rightarrow> ([], [], defaultListLimit)
         | Some x \<Rightarrow> (lo_Queue x, lo_State x, if lo_Limit x > 0 then lo_Limit x else defaultListLimit))
      in if limit > maxListLimit then
           (Inl (Text (''drover: list limit '' @ itoa limit @ '' exceeds maximum '' @ itoa maxListLimit)), s)
         else case drv_ListJobs ops e \<lparr>lp_Queue = queue, lp_State = state, lp_Limit = limit\<rparr> s of
           (Inl err, s') \<Rightarrow> (Inl (Wrapf ''drover: list jobs'' [Text (driver_text err)]), s')
         | (Inr rows, s') \<Rightarrow> (Inr (map rowFromDriver rows), s'))"

definition in_GetJob :: "('e, 's) driver_ops \<Rightarrow> 'e \<Rightarrow> int \<Rightarrow> 's \<Rightarrow> (go_error + job_row) \<times> 's" where
  "in_GetJob ops e k s =
     (case drv_GetJob ops e k s of
        (Inl err, s') \<Rightarrow> (Inl (mapDriverErr err), s')
      | (Inr row, s') \<Rightarrow> (Inr (rowFromDriver row), s'))"

definition in_Enqueue ::
  "('e, 's) driver_ops \<Rightarrow> 'e \<Rightarrow> string \<Rightarrow> raw_message \<Rightarrow> insert_opts option \<Rightarrow> 's \<Rightarrow> (go_error + job_row) \<times> 's" where
  "in_Enqueue ops e kind args opts s =
     (if kind = [] then (Inl (Sentinel ErrInvalidKind), s)
      else case args of
        Invalid _ \<Rightarrow> (Inl (Text ''drover: args must be valid JSON''), s)
      | Valid _ \<Rightarrow>
          let params = \<lparr>ip_Kind = kind, ip_Queue = defaultQueue, ip_Args = args, ip_ScheduledAt = 0, ip_UniqueKey = []\<rparr>;
              params = (case opts of
                  None \<Rightarrow> params
                | Some x \<Rightarrow>
                    (if io_Queue x \<noteq> [] then params\<lparr>ip_Queue := io_Queue x\<rparr> else params)
                      \<lparr>ip_ScheduledAt := io_ScheduledAt x\<rparr>)
          in case drv_Insert ops e params s of
               (Inl err, s') \<Rightarrow> (Inl (Wrapf ''drover: enqueue job kind'' [Text (driver_text err)]), s')
             | (Inr row, s') \<Rightarrow> (Inr (rowFromDriver row), s'))"

definition in_CancelJob :: "('e, 's) driver_ops \<Rightarrow> 'e \<Rightarrow> int \<Rightarrow> 's \<Rightarrow> (go_error + job_row) \<times> 's" where
  "in_CancelJob ops e k s =
     (case drv_OperatorCancel ops e k s of
        (Inl err, s') \<Rightarrow> (Inl (mapDriverErr err), s')
      | (Inr row, s') \<Rightarrow> (Inr (rowFromDriver row), s'))"

definition in_RetryJob :: "('e, 's) driver_ops \<Rightarrow> 'e \<Rightarrow> int \<Rightarrow> 's \<Rightarrow> (go_error + job_row) \<times> 's" where
  "in_RetryJob ops e k s =
     (case drv_RedriveDead ops e k s of
        (Inl err, s') \<Rightarrow> (Inl (mapDriverErr err), s')
      | (Inr row, s') \<Rightarrow> (Inr (rowFromDriver row), s'))"

section \<open>Facts\<close>

text \<open>A caller can tell the two refusals apart, and neither unwraps to an error of the driver.\<close>

lemma mapDriverErr_Is:
  "errors_Is (mapDriverErr err) NotFound \<longleftrightarrow> err = ErrNotFound"
  "errors_Is (mapDriverErr err) InvalidTransition \<longleftrightarrow> err = ErrInvalidTransition"
  by (cases err; simp add: mapDriverErr_def)+

text \<open>A unique key has no effect on an operator's insert, although the options take one.\<close>

lemma enqueue_ignores_unique_key:
  "in_Enqueue ops e kind args (Some (opts\<lparr>io_UniqueKey := k\<rparr>)) s = in_Enqueue ops e kind args (Some opts) s"
  by (cases args) (simp_all add: in_Enqueue_def Let_def)

text \<open>A listing never asks the store for more than a thousand rows, nor for none.\<close>

lemma in_ListJobs_bounded:
  assumes "in_ListJobs ops e opts s = (Inr rows, s')"
  shows "\<exists>p. 0 < lp_Limit p \<and> lp_Limit p \<le> maxListLimit \<and> drv_ListJobs ops e p s = (Inr rows, s')"
proof -
  let ?p = "case opts of None \<Rightarrow> \<lparr>lp_Queue = [], lp_State = [], lp_Limit = defaultListLimit\<rparr>
    | Some x \<Rightarrow> \<lparr>lp_Queue = lo_Queue x, lp_State = lo_State x,
        lp_Limit = (if lo_Limit x > 0 then lo_Limit x else defaultListLimit)\<rparr>"
  have "0 < lp_Limit ?p" by (simp add: defaultListLimit_def split: option.split)
  moreover have "lp_Limit ?p \<le> maxListLimit" using assms
    by (cases opts) (auto simp: in_ListJobs_def defaultListLimit_def maxListLimit_def split: if_splits)
  moreover have "drv_ListJobs ops e ?p s = (Inr rows, s')" using assms
    by (cases opts) (auto simp: in_ListJobs_def rowFromDriver_eq[abs_def] split: if_splits prod.splits sum.splits)
  ultimately show ?thesis by blast
qed

section \<open>Reading\<close>

text \<open>What operators rely on when they look: neither of the reads changes the store.\<close>

locale operator_reads =
  fixes ops :: "('e, 's) driver_ops"
  assumes Stats_reads: "snd (drv_Stats ops e s) = s"
    and ListJobs_reads: "snd (drv_ListJobs ops e p s) = s"
begin

lemma in_Stats_reads: "snd (in_Stats ops e s) = s"
  using Stats_reads[of e s] by (auto simp: in_Stats_def split: prod.split sum.split)

lemma in_ListJobs_reads: "snd (in_ListJobs ops e opts s) = s"
  using ListJobs_reads[of e _ s]
  by (auto simp: in_ListJobs_def Let_def split: prod.split sum.split) (metis snd_conv)+

end

interpretation mem_operator: operator_reads mem_ops
  by unfold_locales (simp_all add: mem_ops_def mem_Stats_def mem_ListJobs_def case_prod_beta)

lemma run_stmt_read: "(\<And>t. snd (stmt t) = t) \<Longrightarrow> snd (run_stmt alone env i stmt t) = t"
  by (cases "se_fault env i") (simp_all add: run_stmt_def case_prod_beta)

lemma pg_reads_only: "snd (pg_Stats alone env t) = t" "snd (pg_ListJobs alone env p t) = t"
proof -
  have d: "snd (run_stmt alone env 0 (\<lambda>t. (Inr (q_QueueDepths t), t)) t) = t" by (rule run_stmt_read) simp
  have o: "snd (run_stmt alone env 1 (\<lambda>t. (Inr (q_OldestClaimable (se_now env 1) t), t)) t) = t" by (rule run_stmt_read) simp
  show "snd (pg_Stats alone env t) = t" using d o by (auto simp: pg_Stats_def split: prod.split sum.split)
  have l: "snd (run_stmt alone env 0 (\<lambda>t. (q_ListJobs (lp_Queue p) (lp_State p) (lp_Limit p) t, t)) t) = t"
    by (rule run_stmt_read) simp
  show "snd (pg_ListJobs alone env p t) = t" using l by (auto simp: pg_ListJobs_def split: prod.split sum.split)
qed

interpretation pg_operator: operator_reads "pg_ops svc" for svc
  by unfold_locales (simp_all add: pg_ops_def pg_reads_only)

end
