(* ===== verification/Migrations.thy ===== *)
theory Migrations
  imports Cron
begin

text \<open>
  Schema migrations (\<^verbatim>\<open>internal/migrate/migrate.go\<close>): the embedded scripts are applied in the order of
  their versions, each in a transaction that also records it. Other processes may migrate the same
  database at the same time, and any call may fail.
\<close>

section \<open>Loading the embedded scripts\<close>

record migration =
  mg_version :: int
  mg_name :: string
  mg_sql :: string

text \<open>The errors of the package; a failure of the database itself is not described further.\<close>

datatype migrate_error =
    CreateVersionTable
  | ReadSchemaVersion
  | NoSeparator string
  | InvalidVersion string
  | BeginMigration int
  | ApplyMigration int string
  | RecordMigration int
  | CommitMigration

text \<open>The embedded files by name and contents, as the directory lists them; reading a file that is
  embedded in the binary cannot fail.\<close>

fun load_entries :: "(string \<times> string) list \<Rightarrow> migration list \<Rightarrow> migrate_error + migration list" where
  "load_entries [] acc = Inr acc"
| "load_entries ((name, sql) # entries) acc =
     (case cut (CHR ''_'') name of
        (num, rest, found) \<Rightarrow>
          if \<not> found then Inl (NoSeparator name)
          else case atoi num of
            None \<Rightarrow> Inl (InvalidVersion name)
          | Some version \<Rightarrow>
              load_entries entries (acc @ [\<lparr>mg_version = version, mg_name = name, mg_sql = sql\<rparr>]))"

text \<open>The sort of the source is not stable, so this is its result only when no version occurs twice.\<close>

definition load :: "(string \<times> string) list \<Rightarrow> migrate_error + migration list" where
  "load entries =
     (case load_entries entries [] of
        Inl err \<Rightarrow> Inl err
      | Inr loaded \<Rightarrow> Inr (sort_key mg_version loaded))"

section \<open>Applying them\<close>

text \<open>
  The database: the versions in \<^verbatim>\<open>drover_schema_version\<close>, in the order they were recorded, if the table
  exists, and everything the scripts act on. What the server makes of a script is \<open>run_sql\<close>: the new
  contents, or nothing if it refuses the script.
\<close>

record 'd schema =
  sc_versions :: "int list option"
  sc_db :: 'd

text \<open>How a call to the server ends: well, in a failure without effect, or in a failure reported
  although the effect took place.\<close>

datatype call_end = Done | Failed | FailedAfter

text \<open>
  One migration in its transaction. Nothing of it shows before the commit, and the deferred rollback
  undoes it on every earlier return. The version column is a four-byte primary key.
\<close>

definition apply_migration ::
  "(string \<Rightarrow> 'd \<Rightarrow> 'd option) \<Rightarrow> (nat \<Rightarrow> call_end) \<Rightarrow> migration \<Rightarrow> 'd schema \<Rightarrow>
   migrate_error option \<times> 'd schema" where
  "apply_migration run_sql ends m st =
     (if ends 0 \<noteq> Done then (Some (BeginMigration (mg_version m)), st)
      else case run_sql (mg_sql m) (sc_db st) of
        None \<Rightarrow> (Some (ApplyMigration (mg_version m) (mg_name m)), st)
      | Some db \<Rightarrow>
          if ends 1 \<noteq> Done then (Some (ApplyMigration (mg_version m) (mg_name m)), st)
          else case sc_versions st of
            None \<Rightarrow> (Some (RecordMigration (mg_version m)), st)
          | Some versions \<Rightarrow>
              if mg_version m \<in> set versions \<or> mg_version m < - (2 ^ 31) \<or> mg_version m \<ge> 2 ^ 31 \<or> ends 2 \<noteq> Done
              then (Some (RecordMigration (mg_version m)), st)
              else
                let st' = st\<lparr>sc_versions := Some (versions @ [mg_version m]), sc_db := db\<rparr>
                in case ends 3 of
                     Done \<Rightarrow> (None, st')
                   | Failed \<Rightarrow> (Some CommitMigration, st)
                   | FailedAfter \<Rightarrow> (Some CommitMigration, st'))"

text \<open>The loop; \<open>gap i\<close> is what other processes do to the database before the \<open>i\<close>-th transaction.\<close>

fun apply_pending ::
  "(string \<Rightarrow> 'd \<Rightarrow> 'd option) \<Rightarrow> (nat \<Rightarrow> nat \<Rightarrow> call_end) \<Rightarrow> (nat \<Rightarrow> 'd schema \<Rightarrow> 'd schema) \<Rightarrow> int \<Rightarrow>
   nat \<Rightarrow> migration list \<Rightarrow> 'd schema \<Rightarrow> migrate_error option \<times> 'd schema" where
  "apply_pending run_sql ends gap current i [] st = (None, st)"
| "apply_pending run_sql ends gap current i (m # ms) st =
     (if mg_version m \<le> current then apply_pending run_sql ends gap current i ms st
      else case apply_migration run_sql (ends i) m (gap i st) of
        (Some err, st') \<Rightarrow> (Some err, st')
      | (None, st') \<Rightarrow> apply_pending run_sql ends gap current (Suc i) ms st')"

text \<open>Calls 0 are those before the loop: the creation of the version table and the query for the
  current version, with the other processes in between.\<close>

definition Migrate ::
  "(string \<Rightarrow> 'd \<Rightarrow> 'd option) \<Rightarrow> (nat \<Rightarrow> nat \<Rightarrow> call_end) \<Rightarrow> (nat \<Rightarrow> 'd schema \<Rightarrow> 'd schema) \<Rightarrow>
   (string \<times> string) list \<Rightarrow> 'd schema \<Rightarrow> migrate_error option \<times> 'd schema" where
  "Migrate run_sql ends gap entries st =
     (let created = (if sc_versions st = None then st\<lparr>sc_versions := Some []\<rparr> else st)
      in case ends 0 0 of
           Failed \<Rightarrow> (Some CreateVersionTable, st)
         | FailedAfter \<Rightarrow> (Some CreateVersionTable, created)
         | Done \<Rightarrow>
             let st1 = gap 0 created
             in case sc_versions st1 of
                  None \<Rightarrow> (Some ReadSchemaVersion, st1)
                | Some versions \<Rightarrow>
                    if ends 0 1 \<noteq> Done then (Some ReadSchemaVersion, st1)
                    else
                      let current = (if versions = [] then 0 else Max (set versions))
                      in case load entries of
                           Inl err \<Rightarrow> (Some err, st1)
                         | Inr loaded \<Rightarrow> apply_pending run_sql ends gap current 1 loaded st1)"

section \<open>Each script once and in order\<close>

fun run_all :: "(string \<Rightarrow> 'd \<Rightarrow> 'd option) \<Rightarrow> migration list \<Rightarrow> 'd \<Rightarrow> 'd option" where
  "run_all run_sql [] d = Some d"
| "run_all run_sql (m # ms) d = Option.bind (run_sql (mg_sql m) d) (run_all run_sql ms)"

text \<open>The database is at point \<open>n\<close> of the list \<open>ms\<close>: exactly the first \<open>n\<close> scripts ran on \<open>d\<close>, in
  order, and exactly their versions are recorded.\<close>

definition migrated ::
  "(string \<Rightarrow> 'd \<Rightarrow> 'd option) \<Rightarrow> migration list \<Rightarrow> 'd \<Rightarrow> nat \<Rightarrow> 'd schema \<Rightarrow> bool" where
  "migrated run_sql ms d n st \<longleftrightarrow>
     n \<le> length ms \<and>
     (case sc_versions st of None \<Rightarrow> n = 0 | Some vs \<Rightarrow> vs = map mg_version (take n ms)) \<and>
     run_all run_sql (take n ms) d = Some (sc_db st)"

lemma run_all_append:
  "run_all run_sql (ms @ ns) d = Option.bind (run_all run_sql ms d) (run_all run_sql ns)"
  by (induction ms arbitrary: d) (simp_all split: bind_split)

lemma apply_migration_effect:
  assumes run: "apply_migration run_sql ends m st = (err, st')" and changed: "err = None \<or> st' \<noteq> st"
  obtains db versions where "run_sql (mg_sql m) (sc_db st) = Some db"
    "sc_versions st = Some versions" "mg_version m \<notin> set versions"
    "st' = st\<lparr>sc_versions := Some (versions @ [mg_version m]), sc_db := db\<rparr>"
proof -
  have start: "ends 0 = Done" using run changed by (simp add: apply_migration_def split: if_split_asm)
  obtain db where db: "run_sql (mg_sql m) (sc_db st) = Some db"
    using run changed start by (cases "run_sql (mg_sql m) (sc_db st)") (simp_all add: apply_migration_def)
  have ran: "ends 1 = Done" using run changed start db by (simp add: apply_migration_def split: if_split_asm)
  obtain versions where vs: "sc_versions st = Some versions"
    using run changed start db ran by (cases "sc_versions st") (simp_all add: apply_migration_def)
  define refused where "refused \<longleftrightarrow> mg_version m \<in> set versions \<or> mg_version m < - (2 ^ 31) \<or> mg_version m \<ge> 2 ^ 31 \<or> ends 2 \<noteq> Done"
  let ?st = "st\<lparr>sc_versions := Some (versions @ [mg_version m]), sc_db := db\<rparr>"
  have out: "(err, st') = (if refused then (Some (RecordMigration (mg_version m)), st)
      else case ends 3 of Done \<Rightarrow> (None, ?st) | Failed \<Rightarrow> (Some CommitMigration, st) | FailedAfter \<Rightarrow> (Some CommitMigration, ?st))"
    unfolding run[symmetric] apply_migration_def start db ran vs refused_def Let_def by simp
  have ok: "\<not> refused" using out changed by (cases refused) simp_all
  then have "st' = ?st" using out changed by (cases "ends 3") simp_all
  moreover have "mg_version m \<notin> set versions" using ok by (simp add: refused_def)
  ultimately show ?thesis using that db vs by blast
qed

lemma apply_migration_next:
  assumes at: "migrated run_sql (pre @ m # ms) d k st" and le: "length pre \<le> k"
    and dist: "distinct (map mg_version (pre @ m # ms))"
    and run: "apply_migration run_sql ends m st = (err, st')"
  shows "\<exists>k'\<ge>k. migrated run_sql (pre @ m # ms) d k' st' \<and> (err = None \<longrightarrow> length pre < k')"
proof (cases "st' = st \<and> err \<noteq> None")
  case True
  then show ?thesis using at by blast
next
  case False
  then have changed: "err = None \<or> st' \<noteq> st" by blast
  obtain db versions where db: "run_sql (mg_sql m) (sc_db st) = Some db"
    and vs: "sc_versions st = Some versions" "mg_version m \<notin> set versions"
    and new: "st' = st\<lparr>sc_versions := Some (versions @ [mg_version m]), sc_db := db\<rparr>"
    by (rule apply_migration_effect[OF run changed])
  have k: "k = length pre"
  proof (rule ccontr)
    assume "k \<noteq> length pre"
    then have "m \<in> set (take k (pre @ m # ms))" using le by (cases "k - length pre") auto
    then show False using at vs by (auto simp: migrated_def)
  qed
  then have "migrated run_sql (pre @ m # ms) d (Suc k) st'"
    using at vs db by (simp add: migrated_def new run_all_append)
  then show ?thesis using k by (intro exI[of _ "Suc k"]) simp
qed

lemma apply_pending_in_order:
  assumes "migrated run_sql (pre @ ms) d k st" "length pre \<le> k"
    "distinct (map mg_version (pre @ ms))" "\<forall>m\<in>set ms. current < mg_version m"
    and others: "\<And>i k s. migrated run_sql (pre @ ms) d k s \<Longrightarrow> \<exists>k'\<ge>k. migrated run_sql (pre @ ms) d k' (gap i s)"
    and "apply_pending run_sql ends gap current i ms st = (err, st')"
  shows "\<exists>k'\<ge>k. migrated run_sql (pre @ ms) d k' st' \<and> (err = None \<longrightarrow> k' = length (pre @ ms))"
  using assms
proof (induction ms arbitrary: pre k i st)
  case Nil
  then have "k = length pre" by (simp add: migrated_def)
  then show ?case using Nil by auto
next
  case (Cons m ms)
  obtain k1 where k1: "k \<le> k1" "migrated run_sql (pre @ m # ms) d k1 (gap i st)"
    using Cons.prems(1,5) by blast
  obtain e1 st1 where one: "apply_migration run_sql (ends i) m (gap i st) = (e1, st1)"
    by (cases "apply_migration run_sql (ends i) m (gap i st)")
  obtain k2 where k2: "k1 \<le> k2" "migrated run_sql (pre @ m # ms) d k2 st1" "e1 = None \<longrightarrow> length pre < k2"
    using apply_migration_next[OF k1(2) _ Cons.prems(3) one] k1(1) Cons.prems(2) by auto
  have m: "\<not> mg_version m \<le> current" using Cons.prems(4) by simp
  show ?case
  proof (cases e1)
    case (Some e)
    then have "err = Some e" "st' = st1" using Cons.prems(6) m one by simp_all
    then show ?thesis using k1 k2 by (intro exI[of _ k2]) simp
  next
    case None
    then have rest: "apply_pending run_sql ends gap current (Suc i) ms st1 = (err, st')"
      using Cons.prems(6) m one by simp
    have split: "(pre @ [m]) @ ms = pre @ m # ms" by simp
    have "\<exists>k'\<ge>k2. migrated run_sql ((pre @ [m]) @ ms) d k' st' \<and>
      (err = None \<longrightarrow> k' = length ((pre @ [m]) @ ms))"
    proof (rule Cons.IH[OF _ _ _ _ _ rest])
      show "migrated run_sql ((pre @ [m]) @ ms) d k2 st1" using k2(2) by simp
      show "length (pre @ [m]) \<le> k2" using k2(3) None by simp
      show "distinct (map mg_version ((pre @ [m]) @ ms))" using Cons.prems(3) by simp
      show "\<forall>m\<in>set ms. current < mg_version m" using Cons.prems(4) by simp
      show "\<exists>k'\<ge>k. migrated run_sql ((pre @ [m]) @ ms) d k' (gap i s)"
        if "migrated run_sql ((pre @ [m]) @ ms) d k s" for i k s
        using Cons.prems(5)[of k s i] that unfolding split by blast
    qed
    then obtain k3 where "k2 \<le> k3" "migrated run_sql (pre @ m # ms) d k3 st'"
      "err = None \<longrightarrow> k3 = length (pre @ m # ms)"
      unfolding split by blast
    then show ?thesis using k1(1) k2(1) by (intro exI[of _ k3]) simp
  qed
qed

lemma apply_pending_skips:
  assumes "\<forall>m\<in>set pre. mg_version m \<le> current"
  shows "apply_pending run_sql ends gap current i (pre @ ms) st = apply_pending run_sql ends gap current i ms st"
  using assms by (induction pre) simp_all

text \<open>Alone and without faults the loop reaches the end when every script runs.\<close>

lemma apply_pending_completes:
  assumes "migrated run_sql (pre @ ms) d (length pre) st" "sc_versions st \<noteq> None"
    "distinct (map mg_version (pre @ ms))" "\<forall>m\<in>set ms. current < mg_version m \<and> - (2 ^ 31) \<le> mg_version m \<and> mg_version m < 2 ^ 31"
    "run_all run_sql (pre @ ms) d \<noteq> None" and well: "\<And>i j. ends i j = Done" "\<And>i s. gap i s = s"
  shows "fst (apply_pending run_sql ends gap current i ms st) = None"
  using assms(1-5)
proof (induction ms arbitrary: pre i st)
  case (Cons m ms)
  obtain vs where vs: "sc_versions st = Some vs" "vs = map mg_version pre"
    using Cons.prems(1,2) by (auto simp: migrated_def)
  have now: "run_all run_sql pre d = Some (sc_db st)" using Cons.prems(1) by (simp add: migrated_def)
  obtain db where db: "run_sql (mg_sql m) (sc_db st) = Some db"
    using Cons.prems(5) now by (cases "run_sql (mg_sql m) (sc_db st)") (simp_all add: run_all_append)
  let ?st = "st\<lparr>sc_versions := Some (vs @ [mg_version m]), sc_db := db\<rparr>"
  have fresh: "mg_version m \<notin> set vs" using Cons.prems(3) vs(2) by simp
  have small: "\<not> mg_version m < - (2 ^ 31)" "\<not> mg_version m \<ge> 2 ^ 31" "\<not> mg_version m \<le> current" using Cons.prems(4) by simp_all
  have "apply_migration run_sql (ends i) m st = (None, ?st)"
    unfolding apply_migration_def well db vs(1) Let_def using fresh small(1,2) by simp
  then have step: "apply_pending run_sql ends gap current i (m # ms) st =
      apply_pending run_sql ends gap current (Suc i) ms ?st" using small(3) by (simp add: well)
  have at: "migrated run_sql ((pre @ [m]) @ ms) d (length (pre @ [m])) ?st"
    using now db vs by (simp add: migrated_def run_all_append)
  show ?case unfolding step
    by (rule Cons.IH[OF at]) (use Cons.prems(3,4,5) in simp_all)
qed simp

lemma load_sorted: "load entries = Inr ms \<Longrightarrow> sorted (map mg_version ms)"
  by (auto simp: load_def split: sum.splits)

text \<open>With positive versions, the current version splits the list where the database is.\<close>

lemma current_version:
  assumes at: "migrated run_sql ms d n st" "sc_versions st = Some vs"
    and ms: "sorted (map mg_version ms)" "distinct (map mg_version ms)" "\<forall>m\<in>set ms. 0 < mg_version m"
  defines "current \<equiv> if vs = [] then 0 else Max (set vs)"
  shows "\<forall>m\<in>set (take n ms). mg_version m \<le> current" "\<forall>m\<in>set (drop n ms). current < mg_version m"
proof -
  have vs: "vs = map mg_version (take n ms)" using at by (simp add: migrated_def)
  show "\<forall>m\<in>set (take n ms). mg_version m \<le> current"
  proof
    fix m assume "m \<in> set (take n ms)"
    then have "mg_version m \<in> set vs" by (simp add: vs)
    then show "mg_version m \<le> current" unfolding current_def by (auto intro: Max_ge)
  qed
  have split: "map mg_version ms = vs @ map mg_version (drop n ms)"
    unfolding vs by (simp flip: map_append)
  have "v < mg_version m" if "v \<in> set vs" "m \<in> set (drop n ms)" for v m
  proof -
    have "sorted (vs @ map mg_version (drop n ms))" "distinct (vs @ map mg_version (drop n ms))"
      using ms(1,2) by (simp_all only: split)
    then show ?thesis using that by (force simp: sorted_append order.strict_iff_order)
  qed
  then show "\<forall>m\<in>set (drop n ms). current < mg_version m"
    using ms(3) in_set_dropD unfolding current_def by fastforce
qed

lemma created_migrated:
  "migrated run_sql ms d n st \<Longrightarrow>
   migrated run_sql ms d n (if sc_versions st = None then st\<lparr>sc_versions := Some []\<rparr> else st)"
  by (auto simp: migrated_def)

text \<open>From the current version on, the loop is the loop over the scripts that have not run.\<close>

lemma apply_pending_from:
  assumes ms: "sorted (map mg_version ms)" "distinct (map mg_version ms)" "\<forall>m\<in>set ms. 0 < mg_version m"
    and at: "migrated run_sql ms d n st" "sc_versions st = Some vs"
    and others: "\<forall>i k s. migrated run_sql ms d k s \<longrightarrow> (\<exists>k'\<ge>k. migrated run_sql ms d k' (gap i s))"
    and run: "apply_pending run_sql ends gap (if vs = [] then 0 else Max (set vs)) 1 ms st = (err, st')"
  shows "\<exists>n'\<ge>n. migrated run_sql ms d n' st' \<and> (err = None \<longrightarrow> n' = length ms)"
    and "\<forall>i j. ends i j = Done \<Longrightarrow> \<forall>i s. gap i s = s \<Longrightarrow> run_all run_sql ms d \<noteq> None \<Longrightarrow>
      \<forall>m\<in>set ms. mg_version m < 2 ^ 31 \<Longrightarrow> err = None"
proof -
  define current where "current = (if vs = [] then 0 else Max (set vs))"
  note split = current_version[OF at ms, folded current_def]
  have rest: "apply_pending run_sql ends gap current 1 (drop n ms) st = (err, st')"
    using run apply_pending_skips[OF split(1), of run_sql ends gap 1 "drop n ms" st] by (simp add: current_def)
  have len: "length (take n ms) = n" using at(1) by (simp add: migrated_def)
  show "\<exists>n'\<ge>n. migrated run_sql ms d n' st' \<and> (err = None \<longrightarrow> n' = length ms)"
    using apply_pending_in_order[OF _ _ _ split(2) _ rest, of "take n ms" d n] at(1) len ms(2) others by auto
  assume well: "\<forall>i j. ends i j = Done" "\<forall>i s. gap i s = s" "run_all run_sql ms d \<noteq> None" "\<forall>m\<in>set ms. mg_version m < 2 ^ 31"
  have "fst (apply_pending run_sql ends gap current 1 (drop n ms) st) = None"
  proof (rule apply_pending_completes[of _ "take n ms"])
    show "migrated run_sql (take n ms @ drop n ms) d (length (take n ms)) st" using at(1) len by simp
    show "\<forall>m\<in>set (drop n ms). current < mg_version m \<and> - (2 ^ 31) \<le> mg_version m \<and> mg_version m < 2 ^ 31"
      using split(2) well(4) ms(3) in_set_dropD by fastforce
  qed (use at(2) well ms(2) in simp_all)
  then show "err = None" unfolding rest by simp
qed

text \<open>C16: a database is migrated script by script, in order and never twice. Let the versions be
  positive and different, and let the database hold exactly the effect of the first \<open>n\<close> scripts. Any
  run of \<open>Migrate\<close>, with calls that fail at any point and with other processes migrating the same
  database between its statements, leaves the effect of exactly the first \<open>n'\<close> scripts, \<open>n \<le> n'\<close>, and
  the table of versions says which; this is also all it asks of the other processes. If it returns no
  error, every script has run. If every script is one the server accepts, nothing fails and nothing
  interferes, it returns no error, so running it again changes nothing.\<close>

theorem migrations_run_in_order:
  assumes "load entries = Inr ms" "distinct (map mg_version ms)" "\<forall>m\<in>set ms. 0 < mg_version m"
    and "migrated run_sql ms d n st"
    and "\<forall>i k s. migrated run_sql ms d k s \<longrightarrow> (\<exists>k'\<ge>k. migrated run_sql ms d k' (gap i s))"
    and "Migrate run_sql ends gap entries st = (err, st')"
  shows "\<exists>n'\<ge>n. migrated run_sql ms d n' st' \<and> (err = None \<longrightarrow> n' = length ms) \<and>
    ((\<forall>i j. ends i j = Done) \<and> (\<forall>i s. gap i s = s) \<and> run_all run_sql ms d \<noteq> None \<and>
     (\<forall>m\<in>set ms. mg_version m < 2 ^ 31) \<longrightarrow> err = None)"
proof -
  define created where "created = (if sc_versions st = None then st\<lparr>sc_versions := Some []\<rparr> else st)"
  have c: "migrated run_sql ms d n created" unfolding created_def by (rule created_migrated) (rule assms(4))
  obtain n1 where n1: "n \<le> n1" "migrated run_sql ms d n1 (gap 0 created)" using c assms(5) by blast
  define st1 where "st1 = gap 0 created"
  note at = n1(2)[folded st1_def]
  have run: "(err, st') = (case ends 0 0 of Failed \<Rightarrow> (Some CreateVersionTable, st)
      | FailedAfter \<Rightarrow> (Some CreateVersionTable, created)
      | Done \<Rightarrow> case sc_versions st1 of None \<Rightarrow> (Some ReadSchemaVersion, st1)
          | Some versions \<Rightarrow> if ends 0 1 \<noteq> Done then (Some ReadSchemaVersion, st1)
              else apply_pending run_sql ends gap (if versions = [] then 0 else Max (set versions)) 1 ms st1)"
    unfolding assms(6)[symmetric] Migrate_def Let_def created_def[symmetric] st1_def[symmetric] assms(1) sum.case by (rule refl)
  consider "ends 0 0 = Failed" | "ends 0 0 = FailedAfter" | "ends 0 0 = Done" by (cases "ends 0 0")
  then show ?thesis
  proof cases
    case 1
    then show ?thesis using run assms(4) by (intro exI[of _ n]) auto
  next
    case 2
    then show ?thesis using run c by (intro exI[of _ n]) auto
  next
    case 3
    have table: "sc_versions created \<noteq> None" by (simp add: created_def)
    show ?thesis
    proof (cases "sc_versions st1 = None \<or> ends 0 1 \<noteq> Done")
      case True
      then have out: "err = Some ReadSchemaVersion" "st' = st1" using run 3 by (auto split: option.splits)
      have "\<not> ((\<forall>i j. ends i j = Done) \<and> (\<forall>i s. gap i s = s))" using True table by (auto simp: st1_def)
      then show ?thesis using out at n1(1) by (intro exI[of _ n1]) auto
    next
      case False
      then obtain vs where vs: "sc_versions st1 = Some vs" "ends 0 1 = Done" by auto
      then have "apply_pending run_sql ends gap (if vs = [] then 0 else Max (set vs)) 1 ms st1 = (err, st')"
        using run 3 by simp
      note loop = apply_pending_from[OF load_sorted[OF assms(1)] assms(2,3) at vs(1) assms(5) this]
      then show ?thesis using n1(1) order_trans by blast
    qed
  qed
qed

text \<open>The scripts of the repository by name; here a script adds its own text to a list.\<close>

definition demo_scripts :: "(string \<times> string) list" where
  "demo_scripts = [(''001_create_jobs.sql'', ''jobs''), (''002_widen_fetch_predicate.sql'', ''fetch''),
     (''003_index_dead_jobs.sql'', ''dead''), (''004_unique_jobs.sql'', ''unique'')]"

definition demo_run :: "string \<Rightarrow> string list \<Rightarrow> string list option" where
  "demo_run sql acc = Some (acc @ [sql])"

definition demo_migrations :: "migration list" where
  "demo_migrations = [\<lparr>mg_version = 1, mg_name = ''001_create_jobs.sql'', mg_sql = ''jobs''\<rparr>,
     \<lparr>mg_version = 2, mg_name = ''002_widen_fetch_predicate.sql'', mg_sql = ''fetch''\<rparr>,
     \<lparr>mg_version = 3, mg_name = ''003_index_dead_jobs.sql'', mg_sql = ''dead''\<rparr>,
     \<lparr>mg_version = 4, mg_name = ''004_unique_jobs.sql'', mg_sql = ''unique''\<rparr>]"

theorem migrations_run_in_order_witness:
  "\<exists>err st'. Migrate demo_run (\<lambda>_ _. Done) (\<lambda>_ s. s) demo_scripts \<lparr>sc_versions = None, sc_db = []\<rparr> = (err, st') \<and>
     err = None \<and> sc_db st' = [''jobs'', ''fetch'', ''dead'', ''unique'']"
proof -
  let ?st = "\<lparr>sc_versions = None, sc_db = []\<rparr>"
  obtain err st' where run: "Migrate demo_run (\<lambda>_ _. Done) (\<lambda>_ s. s) demo_scripts ?st = (err, st')" by fastforce
  have load: "load demo_scripts = Inr demo_migrations" by code_simp
  have dist: "distinct (map mg_version demo_migrations)" by (simp add: demo_migrations_def)
  have pos: "\<forall>m\<in>set demo_migrations. 0 < mg_version m" by (simp add: demo_migrations_def)
  have at: "migrated demo_run demo_migrations [] 0 ?st" by (simp add: migrated_def)
  have others: "\<forall>i k s. migrated demo_run demo_migrations [] k s \<longrightarrow>
      (\<exists>k'\<ge>k. migrated demo_run demo_migrations [] k' ((\<lambda>_ s. s) (i :: nat) s))" by blast
  have small: "\<forall>m\<in>set demo_migrations. mg_version m < 2 ^ 31" by (simp add: demo_migrations_def)
  have all: "run_all demo_run demo_migrations [] = Some [''jobs'', ''fetch'', ''dead'', ''unique'']" by code_simp
  obtain n' where n': "migrated demo_run demo_migrations [] n' st'" "err = None \<longrightarrow> n' = length demo_migrations" "err = None"
    using migrations_run_in_order[OF load dist pos at others run] all small by auto
  then have "run_all demo_run demo_migrations [] = Some (sc_db st')" by (simp add: migrated_def)
  then show ?thesis using run n'(3) all by simp
qed

end
