(* ===== verification/Flags.thy ===== *)
theory Flags
  imports GoTime
begin

text \<open>
  What the commands use of the package flag: a set of flags with their defaults, parsed from the front
  of the arguments. Both commands parse with \<^verbatim>\<open>ContinueOnError\<close>, so an error is returned; the message
  and the usage text the package writes are left out.
\<close>

section \<open>Integers in any base\<close>

definition lower :: "char \<Rightarrow> char" where
  "lower c = (let b = (of_char c :: nat) in if 65 \<le> b \<and> b \<le> 90 then char_of (b + 32) else c)"

text \<open>The value of a digit or letter, as \<^verbatim>\<open>strconv.ParseUint\<close> reads it.\<close>

definition any_digit :: "char \<Rightarrow> int option" where
  "any_digit c =
     (case digit_value c of
        Some d \<Rightarrow> Some d
      | None \<Rightarrow>
          let b = (of_char (lower c) :: int) in if 97 \<le> b \<and> b \<le> 122 then Some (b - 87) else None)"

text \<open>Underscores are skipped here; where they may stand is checked apart.\<close>

fun base_value :: "int \<Rightarrow> int \<Rightarrow> string \<Rightarrow> int option" where
  "base_value base n [] = Some n"
| "base_value base n (c # cs) =
     (if c = CHR ''_'' then base_value base n cs
      else case any_digit c of
        None \<Rightarrow> None
      | Some d \<Rightarrow> if d \<ge> base then None else base_value base (base * n + d) cs)"

text \<open>\<^verbatim>\<open>underscoreOK\<close> on a number without its sign; \<open>saw\<close> is the class of the last character.\<close>

fun underscores_from :: "bool \<Rightarrow> char \<Rightarrow> string \<Rightarrow> bool" where
  "underscores_from hex saw [] = (saw \<noteq> CHR ''_'')"
| "underscores_from hex saw (c # cs) =
     (if digit_value c \<noteq> None \<or> hex \<and> (97::nat) \<le> of_char (lower c) \<and> of_char (lower c) \<le> (102::nat)
      then underscores_from hex (CHR ''0'') cs
      else if c = CHR ''_'' then (if saw \<noteq> CHR ''0'' then False else underscores_from hex (CHR ''_'') cs)
      else if saw = CHR ''_'' then False
      else underscores_from hex (CHR ''!'') cs)"

definition underscoreOK :: "string \<Rightarrow> bool" where
  "underscoreOK s =
     (if length s \<ge> 2 \<and> s ! 0 = CHR ''0'' \<and> lower (s ! 1) \<in> {CHR ''b'', CHR ''o'', CHR ''x''}
      then underscores_from (lower (s ! 1) = CHR ''x'') (CHR ''0'') (drop 2 s)
      else underscores_from False (CHR ''^'') s)"

text \<open>\<^verbatim>\<open>strconv.ParseInt(s, 0, 64)\<close>.\<close>

definition ParseInt0 :: "string \<Rightarrow> int option" where
  "ParseInt0 s0 =
     (if s0 = [] then None
      else
        let neg = (hd s0 = CHR ''-'');
            s = (if hd s0 = CHR ''-'' \<or> hd s0 = CHR ''+'' then tl s0 else s0)
        in if s = [] then None
           else
             let (base, ds) =
               (if hd s \<noteq> CHR ''0'' then (10, s)
                else if length s \<ge> 3 \<and> lower (s ! 1) = CHR ''b'' then (2, drop 2 s)
                else if length s \<ge> 3 \<and> lower (s ! 1) = CHR ''o'' then (8, drop 2 s)
                else if length s \<ge> 3 \<and> lower (s ! 1) = CHR ''x'' then (16, drop 2 s)
                else (8, tl s))
             in case base_value base 0 ds of
                  None \<Rightarrow> None
                | Some n \<Rightarrow>
                    if n \<ge> 2 ^ 64 \<or> CHR ''_'' \<in> set ds \<and> \<not> underscoreOK s then None
                    else if \<not> neg \<and> n \<ge> 2 ^ 63 \<or> neg \<and> n > 2 ^ 63 then None
                    else Some (if neg then - n else n))"

definition ParseBool :: "string \<Rightarrow> bool option" where
  "ParseBool s =
     (if s \<in> {''1'', ''t'', ''T'', ''TRUE'', ''true'', ''True''} then Some True
      else if s \<in> {''0'', ''f'', ''F'', ''FALSE'', ''false'', ''False''} then Some False
      else None)"

section \<open>Flag sets\<close>

datatype flag_value = FString string | FInt int | FDuration duration | FBool bool

datatype flag_error = BadSyntax string | NotDefined string | FlagHelp | NeedsArgument string | InvalidValue string string

type_synonym flags = "(string \<times> flag_value) list"

definition flag_string :: "flags \<Rightarrow> string \<Rightarrow> string" where
  "flag_string fs name = (case map_of fs name of Some (FString v) \<Rightarrow> v | _ \<Rightarrow> [])"

definition flag_int :: "flags \<Rightarrow> string \<Rightarrow> int" where
  "flag_int fs name = (case map_of fs name of Some (FInt v) \<Rightarrow> v | _ \<Rightarrow> 0)"

definition flag_duration :: "flags \<Rightarrow> string \<Rightarrow> duration" where
  "flag_duration fs name = (case map_of fs name of Some (FDuration v) \<Rightarrow> v | _ \<Rightarrow> 0)"

definition flag_bool :: "flags \<Rightarrow> string \<Rightarrow> bool" where
  "flag_bool fs name = (case map_of fs name of Some (FBool v) \<Rightarrow> v | _ \<Rightarrow> False)"

text \<open>Setting a flag keeps its kind.\<close>

fun set_value :: "flag_value \<Rightarrow> string \<Rightarrow> flag_value option" where
  "set_value (FString _) v = Some (FString v)"
| "set_value (FInt _) v = map_option FInt (ParseInt0 v)"
| "set_value (FDuration _) v = map_option FDuration (ParseDuration v)"
| "set_value (FBool _) v = map_option FBool (ParseBool v)"

text \<open>The name and the value of an argument of the form \<^verbatim>\<open>name=value\<close>; the sign cannot come first.\<close>

definition split_value :: "string \<Rightarrow> string \<times> string option" where
  "split_value name =
     (case cut (CHR ''='') (tl name) of (a, b, found) \<Rightarrow> (hd name # a, if found then Some b else None))"

text \<open>An argument that starts a flag: its dashes taken off, or nothing if it is not one.\<close>

datatype flag_token = NoFlag | Terminator | FlagNamed string

definition read_token :: "string \<Rightarrow> flag_token" where
  "read_token s =
     (if length s < 2 \<or> hd s \<noteq> CHR ''-'' then NoFlag
      else if s = ''--'' then Terminator
      else FlagNamed (if s ! 1 = CHR ''-'' then drop 2 s else drop 1 s))"

text \<open>\<^verbatim>\<open>parseOne\<close>: the flags end here, an error, or a flag was set and these arguments are left.\<close>

datatype parse_step = Ends "string list" | Refused flag_error | SetFlag flags "string list"

definition set_flag :: "flags \<Rightarrow> string \<Rightarrow> flag_value \<Rightarrow> string \<Rightarrow> string list \<Rightarrow> parse_step" where
  "set_flag fs name old v rest =
     (case set_value old v of
        None \<Rightarrow> Refused (InvalidValue v name)
      | Some new \<Rightarrow> SetFlag (AList.update name new fs) rest)"

definition is_bool_flag :: "flag_value \<Rightarrow> bool" where
  "is_bool_flag v = (case v of FBool _ \<Rightarrow> True | _ \<Rightarrow> False)"

definition parse_named :: "flags \<Rightarrow> string \<Rightarrow> string option \<Rightarrow> string list \<Rightarrow> parse_step" where
  "parse_named fs name given args =
     (case map_of fs name of
        None \<Rightarrow> Refused (if name = ''help'' \<or> name = ''h'' then FlagHelp else NotDefined name)
      | Some old \<Rightarrow>
          (case given of
             Some v \<Rightarrow> set_flag fs name old v args
           | None \<Rightarrow>
               if is_bool_flag old then set_flag fs name old ''true'' args
               else case args of
                 [] \<Rightarrow> Refused (NeedsArgument name)
               | v # rest \<Rightarrow> set_flag fs name old v rest))"

definition parse_one :: "flags \<Rightarrow> string list \<Rightarrow> parse_step" where
  "parse_one fs args =
     (case args of
        [] \<Rightarrow> Ends []
      | s # rest \<Rightarrow>
          (case read_token s of
             NoFlag \<Rightarrow> Ends (s # rest)
           | Terminator \<Rightarrow> Ends rest
           | FlagNamed word \<Rightarrow>
               if word = [] \<or> hd word = CHR ''-'' \<or> hd word = CHR ''='' then Refused (BadSyntax s)
               else case split_value word of (name, given) \<Rightarrow> parse_named fs name given rest))"

lemma parse_named_SetFlag:
  assumes "parse_named fs name given args = SetFlag fs' rest"
  obtains old v new where "map_of fs name = Some old" "set_value old v = Some new" "fs' = AList.update name new fs"
    "length rest \<le> length args"
proof -
  obtain old where old: "map_of fs name = Some old"
    using assms by (cases "map_of fs name") (simp_all add: parse_named_def)
  have "\<exists>v new. set_value old v = Some new \<and> fs' = AList.update name new fs \<and> length rest \<le> length args"
    using assms old
    by (auto simp: parse_named_def set_flag_def split: option.splits if_splits list.splits)
  then show thesis using that old by blast
qed

lemma parse_one_SetFlag:
  assumes "parse_one fs args = SetFlag fs' rest"
  obtains s more name given where "args = s # more" "parse_named fs name given more = SetFlag fs' rest"
proof -
  obtain s more where args: "args = s # more" using assms by (cases args) (simp_all add: parse_one_def)
  obtain word where word: "read_token s = FlagNamed word"
    using assms args by (cases "read_token s") (simp_all add: parse_one_def)
  define bad where "bad \<longleftrightarrow> word = [] \<or> hd word = CHR ''-'' \<or> hd word = CHR ''=''"
  obtain name given where parts: "split_value word = (name, given)" by fastforce
  have "(if bad then Refused (BadSyntax s) else parse_named fs name given more) = SetFlag fs' rest"
    using assms unfolding args parse_one_def list.case word flag_token.case parts prod.case bad_def .
  then show thesis using that args by (cases bad) simp_all
qed

function parse_flags :: "flags \<Rightarrow> string list \<Rightarrow> flag_error + flags \<times> string list" where
  "parse_flags fs args =
     (case parse_one fs args of
        Ends rest \<Rightarrow> Inr (fs, rest)
      | Refused err \<Rightarrow> Inl err
      | SetFlag fs' rest \<Rightarrow> parse_flags fs' rest)"
  by auto
termination
proof (relation "measure (\<lambda>(fs, args). length args)")
  fix fs args fs' rest
  assume "parse_one fs args = SetFlag fs' rest"
  then show "((fs', rest), (fs, args)) \<in> measure (\<lambda>(fs, args). length args)"
    by (elim parse_one_SetFlag parse_named_SetFlag) simp
qed simp

declare parse_flags.simps [simp del]

section \<open>Facts\<close>

text \<open>A flag given in two arguments takes the second one as it is, whatever its bytes.\<close>

lemma parse_string_flag:
  assumes "map_of fs name = Some (FString old)" "name \<noteq> []" "hd name \<noteq> CHR ''-''" "CHR ''='' \<notin> set name"
  shows "parse_flags fs ((''--'' @ name) # v # args) = parse_flags (AList.update name (FString v) fs) args"
proof -
  obtain c cs where name: "name = c # cs" using assms(2) by (cases name) auto
  have token: "read_token (''--'' @ name) = FlagNamed name" by (simp add: read_token_def name)
  have "cut (CHR ''='') cs = (cs, [], False)" by (rule cut_none) (use assms(4) name in simp)
  then have split: "split_value name = (name, None)" by (simp add: split_value_def name)
  have start: "hd name \<noteq> CHR ''=''" using assms(4) name by auto
  have "parse_one fs ((''--'' @ name) # v # args) = SetFlag (AList.update name (FString v) fs) args"
    unfolding parse_one_def list.case token flag_token.case split prod.case
    using assms start by (simp add: parse_named_def set_flag_def is_bool_flag_def)
  then show ?thesis by (subst parse_flags.simps) simp
qed

text \<open>Parsing neither adds flags nor changes their kind.\<close>

fun same_kind :: "flag_value \<Rightarrow> flag_value \<Rightarrow> bool" where
  "same_kind (FString _) (FString _) = True"
| "same_kind (FInt _) (FInt _) = True"
| "same_kind (FDuration _) (FDuration _) = True"
| "same_kind (FBool _) (FBool _) = True"
| "same_kind _ _ = False"

lemma same_kind_refl [simp]: "same_kind v v"
  by (cases v) simp_all

lemma same_kind_trans: "same_kind u v \<Longrightarrow> same_kind v w \<Longrightarrow> same_kind u w"
  by (cases u; cases v; cases w) simp_all

lemma set_value_kind: "set_value old v = Some new \<Longrightarrow> same_kind old new"
  by (cases old) auto

definition refines_flags :: "flags \<Rightarrow> flags \<Rightarrow> bool" where
  "refines_flags fs fs' \<longleftrightarrow> (\<forall>name. rel_option same_kind (map_of fs name) (map_of fs' name))"

lemma refines_flags_refl: "refines_flags fs fs"
proof -
  have "rel_option same_kind x x" for x by (cases x) simp_all
  then show ?thesis by (simp add: refines_flags_def)
qed

lemma refines_flags_update:
  assumes "map_of fs name = Some old" "same_kind old new" "refines_flags (AList.update name new fs) fs'"
  shows "refines_flags fs fs'"
  unfolding refines_flags_def
proof
  fix n
  have r: "rel_option same_kind (map_of (AList.update name new fs) n) (map_of fs' n)"
    using assms(3) by (simp add: refines_flags_def)
  show "rel_option same_kind (map_of fs n) (map_of fs' n)"
  proof (cases "n = name")
    case True
    then obtain last where "map_of fs' n = Some last" "same_kind new last"
      using r by (auto simp: update_conv' option_rel_Some1)
    then show ?thesis using True assms(1,2) by (auto intro: same_kind_trans)
  qed (use r in \<open>simp add: update_conv'\<close>)
qed

lemma parse_flags_kinds: "parse_flags fs args = Inr (fs', rest) \<Longrightarrow> refines_flags fs fs'"
proof (induction fs args rule: parse_flags.induct)
  case (1 fs args)
  show ?case
  proof (cases "parse_one fs args")
    case (SetFlag fs1 more)
    have "parse_flags fs1 more = Inr (fs', rest)" using 1(2) SetFlag by (subst (asm) parse_flags.simps) simp
    then have "refines_flags fs1 fs'" by (rule 1(1)[OF SetFlag])
    moreover obtain name old v new where "map_of fs name = Some old" "set_value old v = Some new" "fs1 = AList.update name new fs"
      using SetFlag by (elim parse_one_SetFlag parse_named_SetFlag)
    ultimately show ?thesis by (auto intro: refines_flags_update set_value_kind)
  qed (use 1(2) in \<open>auto simp: parse_flags.simps[of fs args] refines_flags_refl\<close>)
qed

end
