(* ===== verification/Web.thy ===== *)
theory Web
  imports Inspector Cron
begin

text \<open>
  The status page of the operator's command line (\<^verbatim>\<open>cmd/drover/web.go\<close>): its routes, the filters of a
  listing, the two changes a visitor can ask for and the redirect that reports them. What the page
  looks like is left to its template.
\<close>

section \<open>Query strings\<close>

text \<open>\<^verbatim>\<open>url.Values\<close>: the values of each key in order.\<close>

type_synonym url_values = "(string \<times> string list) list"

definition values_Get :: "string \<Rightarrow> url_values \<Rightarrow> string" where
  "values_Get key vs = (case map_of vs key of Some (v # _) \<Rightarrow> v | _ \<Rightarrow> [])"

definition values_Set :: "string \<Rightarrow> string \<Rightarrow> url_values \<Rightarrow> url_values" where
  "values_Set key v vs = AList.update key [v] vs"

definition values_Add :: "string \<Rightarrow> string \<Rightarrow> url_values \<Rightarrow> url_values" where
  "values_Add key v vs = AList.update key ((case map_of vs key of None \<Rightarrow> [] | Some old \<Rightarrow> old) @ [v]) vs"

text \<open>\<^verbatim>\<open>url.QueryEscape\<close> and its inverse, on bytes.\<close>

definition unreserved :: "char \<Rightarrow> bool" where
  "unreserved c \<longleftrightarrow> (let b = (of_char c :: nat)
     in (97 \<le> b \<and> b \<le> 122) \<or> (65 \<le> b \<and> b \<le> 90) \<or> (48 \<le> b \<and> b \<le> 57) \<or> b \<in> {45, 95, 46, 126})"

definition hex_digit :: "nat \<Rightarrow> char" where
  "hex_digit d = (if d < 10 then char_of (48 + d) else char_of (55 + d))"

definition hex_value :: "char \<Rightarrow> nat option" where
  "hex_value c = (let b = (of_char c :: nat)
     in if 48 \<le> b \<and> b \<le> 57 then Some (b - 48)
        else if 97 \<le> b \<and> b \<le> 102 then Some (b - 87)
        else if 65 \<le> b \<and> b \<le> 70 then Some (b - 55)
        else None)"

fun query_escape :: "string \<Rightarrow> string" where
  "query_escape [] = []"
| "query_escape (c # s) =
     (if unreserved c then [c]
      else if c = CHR '' '' then ''+''
      else [CHR ''%'', hex_digit (of_char c div 16), hex_digit (of_char c mod 16)]) @ query_escape s"

fun query_unescape :: "string \<Rightarrow> string option" where
  "query_unescape [] = Some []"
| "query_unescape (c # s) =
     (if c = CHR ''%'' then
        (case s of
           a # b # rest \<Rightarrow>
             (case (hex_value a, hex_value b) of
                (Some x, Some y) \<Rightarrow> map_option (\<lambda>t. char_of (16 * x + y) # t) (query_unescape rest)
              | _ \<Rightarrow> None)
         | _ \<Rightarrow> None)
      else map_option (\<lambda>t. (if c = CHR ''+'' then CHR '' '' else c) # t) (query_unescape s))"

text \<open>\<^verbatim>\<open>Values.Encode\<close>, sorted by key, and \<^verbatim>\<open>url.ParseQuery\<close>, which skips what it cannot read.\<close>

definition values_Encode :: "url_values \<Rightarrow> string" where
  "values_Encode vs =
     join ''&'' (concat (map (\<lambda>(k, xs). map (\<lambda>v. query_escape k @ ''='' @ query_escape v) xs) (sort_key fst vs)))"

definition parse_pair :: "string \<Rightarrow> url_values \<Rightarrow> url_values" where
  "parse_pair pair vs =
     (if CHR '';'' \<in> set pair \<or> pair = [] then vs
      else let (k, v, found) = cut (CHR ''='') pair
        in case (query_unescape k, query_unescape v) of
             (Some k', Some v') \<Rightarrow> values_Add k' v' vs
           | _ \<Rightarrow> vs)"

definition parse_query :: "string \<Rightarrow> url_values" where
  "parse_query q = fold parse_pair (split_on (CHR ''&'') q) []"

section \<open>Filters and views\<close>

definition knownJobStates :: "string list" where
  "knownJobStates = [''available'', ''scheduled'', ''running'', ''retryable'', ''completed'', ''cancelled'', ''dead'']"

record filter_view =
  fv_Queue :: string
  fv_State :: string
  fv_Limit :: int

record job_view =
  jv_Row :: job_row
  jv_CanRetry :: bool
  jv_CanCancel :: bool

text \<open>Messages are abridged in this model: where the source quotes a value it is written plainly.\<close>

record page_data =
  pd_Depths :: "queue_depth list"
  pd_Oldest :: "queue_age list"
  pd_Jobs :: "job_view list"
  pd_Filters :: filter_view
  pd_RefreshSeconds :: int
  pd_RefreshURL :: string
  pd_Flash :: string
  pd_FlashKind :: string

definition droverDefaultListLimit :: int where "droverDefaultListLimit = 100"

definition parsePageFilters :: "url_values \<Rightarrow> string + filter_view" where
  "parsePageFilters q =
     (let state = (if values_Get ''state'' q = [] then ''dead'' else values_Get ''state'' q);
          f = \<lparr>fv_Queue = values_Get ''queue'' q, fv_State = state, fv_Limit = droverDefaultListLimit\<rparr>;
          lim = values_Get ''limit'' q;
          checked = (if lim = [] then Inr f
            else case atoi lim of
              None \<Rightarrow> Inl ''limit must be an integer between 1 and 1000''
            | Some n \<Rightarrow> if n < 1 \<or> n > 1000 then Inl ''limit must be an integer between 1 and 1000''
                else Inr (f\<lparr>fv_Limit := n\<rparr>))
      in case checked of
           Inl err \<Rightarrow> Inl err
         | Inr f \<Rightarrow>
             if fv_State f \<noteq> ''all'' \<and> fv_State f \<notin> set knownJobStates then Inl (''invalid job state '' @ fv_State f)
             else Inr f)"

definition listOptsFromFilters :: "filter_view \<Rightarrow> list_opts" where
  "listOptsFromFilters f =
     \<lparr>lo_Queue = fv_Queue f, lo_State = (if fv_State f \<noteq> ''all'' then fv_State f else []), lo_Limit = fv_Limit f\<rparr>"

definition cancellableState :: "job_state \<Rightarrow> bool" where
  "cancellableState st \<longleftrightarrow> st \<in> {Available, Scheduled, Retryable, Dead}"

definition viewForJob :: "job_row \<Rightarrow> job_view" where
  "viewForJob row = \<lparr>jv_Row = row, jv_CanRetry = (State row = Dead), jv_CanCancel = cancellableState (State row)\<rparr>"

definition flashFromQuery :: "url_values \<Rightarrow> string \<times> string" where
  "flashFromQuery q =
     (case atoi (values_Get ''id'' q) of
        None \<Rightarrow> ([], [])
      | Some k \<Rightarrow>
          if k \<le> 0 then ([], [])
          else if values_Get ''notice'' q = ''retried'' then (''redrove job '' @ itoa k, ''notice'')
          else if values_Get ''notice'' q = ''cancelled'' then (''cancelled job '' @ itoa k, ''notice'')
          else if values_Get ''error'' q = ''not_found'' then (''job '' @ itoa k @ '' not found'', ''error'')
          else if values_Get ''error'' q = ''invalid_transition'' then (''job '' @ itoa k @ '' refused the transition'', ''error'')
          else ([], []))"

definition refreshSeconds :: "duration \<Rightarrow> int" where
  "refreshSeconds d = (if d \<le> 0 then 0 else d div second)"

definition refreshURL :: "filter_view \<Rightarrow> string" where
  "refreshURL f =
     (let v = [];
          v = (if fv_Queue f \<noteq> [] then values_Set ''queue'' (fv_Queue f) v else v);
          v = (if fv_State f \<noteq> [] \<and> fv_State f \<noteq> ''dead'' then values_Set ''state'' (fv_State f) v else v);
          v = (if fv_Limit f \<noteq> droverDefaultListLimit then values_Set ''limit'' (itoa (fv_Limit f)) v else v);
          enc = values_Encode v
      in if enc = [] then ''/'' else ''/?'' @ enc)"

definition mutationRedirect :: "url_values \<Rightarrow> string \<Rightarrow> go_error option \<Rightarrow> int \<Rightarrow> string" where
  "mutationRedirect form notice mutErr k =
     (let v = [];
          v = (if values_Get ''queue'' form \<noteq> [] then values_Set ''queue'' (values_Get ''queue'' form) v else v);
          v = (if values_Get ''state'' form \<noteq> [] then values_Set ''state'' (values_Get ''state'' form) v else v);
          v = (if values_Get ''limit'' form \<noteq> [] then values_Set ''limit'' (values_Get ''limit'' form) v else v);
          v = values_Set ''id'' (itoa k) v;
          v = (case mutErr of
              None \<Rightarrow> values_Set ''notice'' notice v
            | Some err \<Rightarrow>
                if errors_Is err NotFound then values_Set ''error'' ''not_found'' v
                else if errors_Is err InvalidTransition then values_Set ''error'' ''invalid_transition'' v
                else v)
      in ''/?'' @ values_Encode v)"

text \<open>\<^verbatim>\<open>strings.TrimSpace\<close> on bytes of ASCII, and the id of a job as it is typed.\<close>

definition trim_space :: "string \<Rightarrow> string" where
  "trim_space s = rev (dropWhile is_space (rev (dropWhile is_space s)))"

definition parseJobID :: "string \<Rightarrow> string + int" where
  "parseJobID s =
     (case atoi (trim_space s) of
        None \<Rightarrow> Inl (''invalid job id '' @ s)
      | Some k \<Rightarrow> if k \<le> 0 then Inl (''invalid job id '' @ s) else Inr k)"

section \<open>Requests\<close>

text \<open>A header that should hold a URL: absent, one that does not parse, or one with its host.\<close>

datatype header_url = NoHeader | BadURL | URLHost string

text \<open>A request: its method, its path in canonical form, its host, the two headers that name where it
  comes from, its query, and its form or why that cannot be read.\<close>

record web_request =
  rq_method :: string
  rq_path :: string
  rq_host :: string
  rq_origin :: header_url
  rq_referer :: header_url
  rq_query :: url_values
  rq_form :: "string + url_values"

definition sameOrigin :: "web_request \<Rightarrow> bool" where
  "sameOrigin r =
     (case rq_origin r of
        BadURL \<Rightarrow> False
      | URLHost h \<Rightarrow> h = rq_host r
      | NoHeader \<Rightarrow> (case rq_referer r of URLHost h \<Rightarrow> h = rq_host r | _ \<Rightarrow> False))"

text \<open>\<^verbatim>\<open>template.HTMLEscapeString\<close>.\<close>

definition html_escape :: "string \<Rightarrow> string" where
  "html_escape s = concat (map (\<lambda>c.
     if c = char_of (0::nat) then [char_of (239::nat), char_of (191::nat), char_of (189::nat)]
     else if c = CHR 0x22 then ''&#34;''
     else if c = CHR 0x27 then ''&#39;''
     else if c = CHR ''&'' then ''&amp;''
     else if c = CHR ''<'' then ''&lt;''
     else if c = CHR ''>'' then ''&gt;''
     else [c]) s)"

text \<open>A response: a page as the template renders it, a short message as HTML or as plain text, or a
  redirect.\<close>

datatype web_body = PageBody page_data | HTMLBody string | PlainBody string | RedirectTo string

record web_response =
  rs_code :: nat
  rs_allow :: "string option"
  rs_csp :: bool
  rs_body :: web_body

definition writeHTML :: "nat \<Rightarrow> string \<Rightarrow> web_response" where
  "writeHTML code msg =
     \<lparr>rs_code = code, rs_allow = None, rs_csp = True,
      rs_body = HTMLBody (''<!DOCTYPE html><html><head><meta charset='' @ [CHR 0x22] @ ''utf-8'' @ [CHR 0x22] @
        ''><title>drover</title></head><body><p>'' @ html_escape msg @ ''</p></body></html>'')\<rparr>"

text \<open>\<open>render\<close> is the execution of the template: it gives the error, if there is one.\<close>

definition writePage :: "(page_data \<Rightarrow> string option) \<Rightarrow> nat \<Rightarrow> page_data \<Rightarrow> web_response" where
  "writePage render code data =
     (case render data of
        Some err \<Rightarrow> \<lparr>rs_code = 500, rs_allow = None, rs_csp = False, rs_body = PlainBody err\<rparr>
      | None \<Rightarrow> \<lparr>rs_code = code, rs_allow = None, rs_csp = True, rs_body = PageBody data\<rparr>)"

text \<open>The text of an error; \<open>msg_of\<close> is its method Error.\<close>

definition postMutation ::
  "(go_error \<Rightarrow> string) \<Rightarrow> string \<Rightarrow> (int \<Rightarrow> 's \<Rightarrow> (go_error + job_row) \<times> 's) \<Rightarrow> string \<Rightarrow> web_request \<Rightarrow> 's \<Rightarrow>
   web_response \<times> 's" where
  "postMutation msg_of notice mutate id_text r s =
     (if \<not> sameOrigin r then (writeHTML 403 ''cross-origin request refused'', s)
      else case parseJobID id_text of
        Inl err \<Rightarrow> (writeHTML 400 err, s)
      | Inr k \<Rightarrow>
          (case rq_form r of
             Inl err \<Rightarrow> (writeHTML 400 err, s)
           | Inr form \<Rightarrow>
               let (res, s') = mutate k s;
                   err = (case res of Inl x \<Rightarrow> Some x | Inr _ \<Rightarrow> None)
               in case err of
                    Some x \<Rightarrow>
                      if \<not> errors_Is x NotFound \<and> \<not> errors_Is x InvalidTransition then (writeHTML 500 (msg_of x), s')
                      else (\<lparr>rs_code = 303, rs_allow = None, rs_csp = False,
                             rs_body = RedirectTo (mutationRedirect form notice err k)\<rparr>, s')
                  | None \<Rightarrow> (\<lparr>rs_code = 303, rs_allow = None, rs_csp = False,
                             rs_body = RedirectTo (mutationRedirect form notice err k)\<rparr>, s')))"

text \<open>\<open>e1\<close> and \<open>e2\<close> are what the two reads of the store meet.\<close>

definition getPage ::
  "('e, 's) driver_ops \<Rightarrow> (page_data \<Rightarrow> string option) \<Rightarrow> (go_error \<Rightarrow> string) \<Rightarrow> duration \<Rightarrow> 'e \<Rightarrow> 'e \<Rightarrow> web_request \<Rightarrow> 's \<Rightarrow> web_response \<times> 's" where
  "getPage ops render msg_of refresh_every e1 e2 r s =
     (case parsePageFilters (rq_query r) of
        Inl err \<Rightarrow> (writeHTML 400 err, s)
      | Inr filters \<Rightarrow>
          (case in_Stats ops e1 s of
             (Inl err, s1) \<Rightarrow> (writeHTML 500 (msg_of err), s1)
           | (Inr stats, s1) \<Rightarrow>
               (case in_ListJobs ops e2 (Some (listOptsFromFilters filters)) s1 of
                  (Inl err, s2) \<Rightarrow> (writeHTML 500 (msg_of err), s2)
                | (Inr found, s2) \<Rightarrow>
                    (writePage render 200
                       \<lparr>pd_Depths = Depths stats, pd_Oldest = Oldest stats, pd_Jobs = map viewForJob found,
                        pd_Filters = filters, pd_RefreshSeconds = refreshSeconds refresh_every,
                        pd_RefreshURL = refreshURL filters,
                        pd_Flash = fst (flashFromQuery (rq_query r)), pd_FlashKind = snd (flashFromQuery (rq_query r))\<rparr>,
                     s2))))"

definition web_methodNotAllowed :: web_response where
  "web_methodNotAllowed = (writeHTML 405 ''method not allowed'')\<lparr>rs_allow := Some ''POST''\<rparr>"

definition web_notFound :: web_response where
  "web_notFound = writeHTML 404 ''not found''"

text \<open>
  The routes. A pattern for GET also takes HEAD; a request that fits no pattern with its method goes to
  the one for everything.
\<close>

definition serve_web ::
  "('e, 's) driver_ops \<Rightarrow> (page_data \<Rightarrow> string option) \<Rightarrow> (go_error \<Rightarrow> string) \<Rightarrow> duration \<Rightarrow> 'e \<Rightarrow> 'e \<Rightarrow> web_request \<Rightarrow> 's \<Rightarrow> web_response \<times> 's" where
  "serve_web ops render msg_of refresh_every e1 e2 r s =
     (let get = (rq_method r = ''GET'' \<or> rq_method r = ''HEAD'');
          p = split_on (CHR ''/'') (rq_path r)
      in if p = [[], []] then
           (if get then getPage ops render msg_of refresh_every e1 e2 r s else (web_notFound, s))
         else if length p = 4 \<and> p ! 0 = [] \<and> p ! 1 = ''jobs'' \<and> p ! 2 \<noteq> [] \<and> (p ! 3 = ''retry'' \<or> p ! 3 = ''cancel'') then
           (if get then (web_methodNotAllowed, s)
            else if rq_method r \<noteq> ''POST'' then (web_notFound, s)
            else if p ! 3 = ''retry'' then postMutation msg_of ''retried'' (in_RetryJob ops e1) (p ! 2) r s
            else postMutation msg_of ''cancelled'' (in_CancelJob ops e1) (p ! 2) r s)
         else (web_notFound, s))"

section \<open>Round trips of the page's addresses\<close>

lemma of_char_lt: "(of_char c :: nat) < 256"
  by (metis of_char_mod_256 mod_less_divisor zero_less_numeral)

lemma nibbles: "(of_char c :: nat) div 16 < 16" "(of_char c :: nat) mod 16 < 16"
  using of_char_lt[of c] by (auto simp: less_mult_imp_div_less)

lemma hex_digit_value: "d < 16 \<Longrightarrow> hex_value (hex_digit d) = Some d"
  by (auto simp: hex_digit_def hex_value_def Let_def of_char_of)

lemma hex_digit_code: "d < 16 \<Longrightarrow> (of_char (hex_digit d) :: nat) = (if d < 10 then 48 + d else 55 + d)"
  by (simp add: hex_digit_def of_char_of)

lemma query_unescape_escape: "query_unescape (query_escape s) = Some s"
proof (induction s)
  case (Cons c s)
  let ?n = "of_char c :: nat"
  note n = nibbles[of c]
  have code: "char_of (16 * (?n div 16) + ?n mod 16) = c" by simp
  consider "unreserved c" | "\<not> unreserved c" "c = CHR '' ''" | "\<not> unreserved c" "c \<noteq> CHR '' ''" by blast
  then show ?case
  proof cases
    case 1
    then have "c \<noteq> CHR ''%''" "c \<noteq> CHR ''+''" by (auto simp: unreserved_def Let_def)
    then show ?thesis using 1 Cons by simp
  next
    case 2
    then show ?thesis using Cons by simp
  next
    case 3
    then show ?thesis using Cons n code by (simp add: hex_digit_value)
  qed
qed simp

definition escaped_char :: "char \<Rightarrow> bool" where
  "escaped_char c \<longleftrightarrow> unreserved c \<or> c = CHR ''+'' \<or> c = CHR ''%''"

lemma hex_digit_unreserved: "d < 16 \<Longrightarrow> unreserved (hex_digit d)"
  by (auto simp: unreserved_def Let_def hex_digit_code)

lemma query_escape_chars: "c \<in> set (query_escape s) \<Longrightarrow> escaped_char c"
proof (induction s)
  case (Cons d s)
  show ?case using nibbles[of d] Cons by (auto simp: escaped_char_def hex_digit_unreserved split: if_splits)
qed simp

lemma query_escape_no_sep: "CHR ''&'' \<notin> set (query_escape s)" "CHR ''='' \<notin> set (query_escape s)" "CHR '';'' \<notin> set (query_escape s)"
  using query_escape_chars[of _ s] by (force simp: escaped_char_def unreserved_def Let_def)+

lemma parse_encoded_pair:
  "parse_pair (query_escape k @ ''='' @ query_escape v) vs = values_Add k v vs"
proof -
  have "cut (CHR ''='') (query_escape k @ CHR ''='' # query_escape v) = (query_escape k, query_escape v, True)"
    by (rule cut_found) (rule query_escape_no_sep)
  then show ?thesis using query_escape_no_sep(3) by (simp add: parse_pair_def query_unescape_escape)
qed

lemma update_new: "k \<notin> fst ` set vs \<Longrightarrow> AList.update k x vs = vs @ [(k, x)]"
  by (induction vs) auto

text \<open>One value for each key.\<close>

definition single_values :: "url_values \<Rightarrow> bool" where
  "single_values vs \<longleftrightarrow> distinct (map fst vs) \<and> (\<forall>xs \<in> snd ` set vs. length xs = 1)"

definition encode_pairs :: "url_values \<Rightarrow> string list" where
  "encode_pairs vs = concat (map (\<lambda>(k, xs). map (\<lambda>v. query_escape k @ ''='' @ query_escape v) xs) vs)"

lemma parse_pairs:
  "single_values vs \<Longrightarrow> fst ` set vs \<inter> fst ` set us = {} \<Longrightarrow> fold parse_pair (encode_pairs vs) us = us @ vs"
proof (induction vs arbitrary: us)
  case (Cons kv vs)
  obtain k v where kv: "kv = (k, [v])" using Cons.prems(1) by (cases kv) (auto simp: single_values_def length_Suc_conv)
  have k: "k \<notin> fst ` set us" using Cons.prems(2) kv by auto
  then have "map_of us k = None" by (simp add: map_of_eq_None_iff)
  then have add: "values_Add k v us = us @ [(k, [v])]" using k by (simp add: values_Add_def update_new)
  have "encode_pairs (kv # vs) = (query_escape k @ ''='' @ query_escape v) # encode_pairs vs"
    by (simp add: encode_pairs_def kv)
  then have "fold parse_pair (encode_pairs (kv # vs)) us = fold parse_pair (encode_pairs vs) (us @ [(k, [v])])"
    by (simp only: fold_simps parse_encoded_pair add)
  also have "\<dots> = (us @ [(k, [v])]) @ vs"
    by (rule Cons.IH) (use Cons.prems kv in \<open>auto simp: single_values_def\<close>)
  finally show ?case by (simp add: kv)
qed (simp add: encode_pairs_def)

lemma encode_pairs_no_sep: "w \<in> set (encode_pairs vs) \<Longrightarrow> CHR ''&'' \<notin> set w"
  by (auto simp: encode_pairs_def query_escape_no_sep)

text \<open>Encoding and parsing gives the values back, in the order of their keys.\<close>

lemma parse_query_Encode:
  assumes "single_values vs"
  shows "parse_query (values_Encode vs) = sort_key fst vs"
proof -
  let ?s = "sort_key fst vs"
  have m: "mset ?s = mset vs" by simp
  have s: "single_values ?s"
    using assms mset_eq_setD[OF m] mset_eq_imp_distinct_iff[of "map fst ?s" "map fst vs"]
    by (simp add: single_values_def)
  have enc: "values_Encode vs = join ''&'' (encode_pairs ?s)" by (simp add: values_Encode_def encode_pairs_def)
  show ?thesis
  proof (cases "encode_pairs ?s = []")
    case True
    have "?s = []"
    proof (rule ccontr)
      assume "?s \<noteq> []"
      then obtain k xs rest where "?s = (k, xs) # rest" by (metis list.exhaust surj_pair)
      then show False using s True by (auto simp: single_values_def encode_pairs_def)
    qed
    then show ?thesis using True by (simp add: enc parse_query_def parse_pair_def)
  next
    case False
    then have "split_on (CHR ''&'') (values_Encode vs) = encode_pairs ?s"
      unfolding enc using encode_pairs_no_sep by (intro split_on_join) auto
    then show ?thesis using parse_pairs[OF s, of "[]"] by (simp add: parse_query_def)
  qed
qed

lemma values_Get_Encode:
  assumes "single_values vs"
  shows "values_Get k (parse_query (values_Encode vs)) = values_Get k vs"
proof -
  have "distinct (map fst (sort_key fst vs))"
    using assms mset_eq_imp_distinct_iff[of "map fst (sort_key fst vs)" "map fst vs"] by (simp add: single_values_def)
  then have "map_of (sort_key fst vs) = map_of vs"
    using assms map_of_inject_set[of "sort_key fst vs" vs] by (simp add: single_values_def)
  then show ?thesis by (simp add: parse_query_Encode[OF assms] values_Get_def)
qed

lemma in_update: "x \<in> set (AList.update k v vs) \<Longrightarrow> x = (k, v) \<or> x \<in> set vs"
  by (induction vs) (auto split: if_splits)

lemma single_values_Set: "single_values vs \<Longrightarrow> single_values (values_Set k v vs)"
  using in_update[of _ k "[v]" vs] by (force simp: single_values_def values_Set_def distinct_update)

lemma values_Get_Set: "values_Get k (values_Set k' v vs) = (if k = k' then v else values_Get k vs)"
  by (simp add: values_Get_def values_Set_def update_conv')

lemma single_values_Nil: "single_values []"
  by (simp add: single_values_def)

lemmas values_simps = single_values_Set single_values_Nil values_Get_Encode values_Get_Set

lemma values_Get_Nil [simp]: "values_Get k [] = []"
  by (simp add: values_Get_def)

text \<open>What a redirect should make the page say.\<close>

definition outcome_flash :: "string \<Rightarrow> go_error option \<Rightarrow> int \<Rightarrow> string \<times> string" where
  "outcome_flash notice err k =
     (case err of
        None \<Rightarrow> if notice = ''retried'' then (''redrove job '' @ itoa k, ''notice'') else (''cancelled job '' @ itoa k, ''notice'')
      | Some x \<Rightarrow> if errors_Is x NotFound then (''job '' @ itoa k @ '' not found'', ''error'')
          else (''job '' @ itoa k @ '' refused the transition'', ''error''))"

lemma parsePageFilters_facts:
  assumes "parsePageFilters q = Inr f"
  shows "1 \<le> fv_Limit f" "fv_Limit f \<le> 1000" "fv_State f = ''all'' \<or> fv_State f \<in> set knownJobStates"
  using assms
  by (auto simp: parsePageFilters_def Let_def droverDefaultListLimit_def split: if_splits option.splits)

lemma refreshURL_roundtrip:
  assumes "parsePageFilters q = Inr f"
  shows "\<exists>q'. refreshURL f = (if q' = [] then ''/'' else ''/?'' @ q') \<and> parsePageFilters (parse_query q') = Inr f"
proof -
  note facts = parsePageFilters_facts[OF assms]
  have st: "fv_State f \<noteq> []" using facts(3) by (auto simp: knownJobStates_def)
  define v1 where "v1 = (if fv_Queue f \<noteq> [] then values_Set ''queue'' (fv_Queue f) [] else [])"
  define v2 where "v2 = (if fv_State f \<noteq> ''dead'' then values_Set ''state'' (fv_State f) v1 else v1)"
  define v3 where "v3 = (if fv_Limit f \<noteq> droverDefaultListLimit then values_Set ''limit'' (itoa (fv_Limit f)) v2 else v2)"
  have single: "single_values v3" by (simp add: v1_def v2_def v3_def values_simps)
  have url: "refreshURL f = (if values_Encode v3 = [] then ''/'' else ''/?'' @ values_Encode v3)"
    using st by (simp add: refreshURL_def Let_def v1_def v2_def v3_def)
  have get: "values_Get ''queue'' v3 = fv_Queue f" "values_Get ''state'' v3 = (if fv_State f = ''dead'' then [] else fv_State f)"
    "values_Get ''limit'' v3 = (if fv_Limit f = droverDefaultListLimit then [] else itoa (fv_Limit f))"
    by (simp_all add: v1_def v2_def v3_def values_Get_Set)
  have lim: "atoi (itoa (fv_Limit f)) = Some (fv_Limit f)" by (rule atoi_itoa) (use facts(1,2) in \<open>auto simp: MaxInt64_def\<close>)
  have nonempty: "itoa (fv_Limit f) \<noteq> []" using facts(1) by (simp add: itoa_def)
  have "parsePageFilters (parse_query (values_Encode v3)) = Inr f"
    unfolding parsePageFilters_def values_Get_Encode[OF single] get Let_def
    using facts lim nonempty st by (cases f) (auto simp: knownJobStates_def)
  then show ?thesis using url by (intro exI[of _ "values_Encode v3"]) simp
qed

lemma mutationRedirect_roundtrip:
  assumes "0 < k" "k \<le> MaxInt64" "notice = ''retried'' \<or> notice = ''cancelled''"
    and "\<forall>x. err = Some x \<longrightarrow> errors_Is x NotFound \<or> errors_Is x InvalidTransition"
  shows "\<exists>q'. mutationRedirect form notice err k = ''/?'' @ q' \<and>
    flashFromQuery (parse_query q') = outcome_flash notice err k \<and>
    (\<forall>key \<in> {''queue'', ''state'', ''limit''}. values_Get key (parse_query q') = values_Get key form)"
proof -
  define v1 where "v1 = (if values_Get ''queue'' form \<noteq> [] then values_Set ''queue'' (values_Get ''queue'' form) [] else [])"
  define v2 where "v2 = (if values_Get ''state'' form \<noteq> [] then values_Set ''state'' (values_Get ''state'' form) v1 else v1)"
  define v3 where "v3 = (if values_Get ''limit'' form \<noteq> [] then values_Set ''limit'' (values_Get ''limit'' form) v2 else v2)"
  define v4 where "v4 = values_Set ''id'' (itoa k) v3"
  define v5 where "v5 = (case err of None \<Rightarrow> values_Set ''notice'' notice v4
    | Some x \<Rightarrow> if errors_Is x NotFound then values_Set ''error'' ''not_found'' v4
        else if errors_Is x InvalidTransition then values_Set ''error'' ''invalid_transition'' v4 else v4)"
  have single: "single_values v5"
    by (cases err) (simp_all add: v1_def v2_def v3_def v4_def v5_def values_simps)
  have url: "mutationRedirect form notice err k = ''/?'' @ values_Encode v5"
    unfolding mutationRedirect_def Let_def v5_def v4_def v3_def v2_def v1_def by (rule refl)
  have id: "atoi (itoa k) = Some k" by (rule atoi_itoa) (use assms(1,2) in \<open>auto simp: MaxInt64_def\<close>)
  have get: "values_Get ''id'' v5 = itoa k" "values_Get ''notice'' v5 = (if err = None then notice else [])"
    by (cases err; simp add: v1_def v2_def v3_def v4_def v5_def values_Get_Set)+
  have kept: "values_Get ''queue'' v5 = values_Get ''queue'' form" "values_Get ''state'' v5 = values_Get ''state'' form"
    "values_Get ''limit'' v5 = values_Get ''limit'' form"
    by (cases err; simp add: v1_def v2_def v3_def v4_def v5_def values_Get_Set)+
  have error: "values_Get ''error'' v5 = (case err of None \<Rightarrow> []
      | Some x \<Rightarrow> if errors_Is x NotFound then ''not_found'' else ''invalid_transition'')"
    using assms(4) by (cases err) (auto simp: v1_def v2_def v3_def v4_def v5_def values_Get_Set)
  have "flashFromQuery (parse_query (values_Encode v5)) = outcome_flash notice err k"
    unfolding flashFromQuery_def values_Get_Encode[OF single] get error id
    using assms(1,3) by (cases err) (auto simp: outcome_flash_def)
  then show ?thesis using url kept by (intro exI[of _ "values_Encode v5"]) (simp add: values_Get_Encode[OF single])
qed

definition markup_char :: "char \<Rightarrow> bool" where
  "markup_char c \<longleftrightarrow> (of_char c :: nat) \<in> {60, 62, 34, 39}"

text \<open>A message cannot inject markup into a page: its angle brackets and quotes are escaped.\<close>

lemma html_escape_safe: "list_all (\<lambda>c. \<not> markup_char c) (html_escape s)"
proof (induction s)
  case Nil
  show ?case by (simp add: html_escape_def)
next
  case (Cons c s)
  have rest: "html_escape (c # s) = html_escape [c] @ html_escape s" by (simp add: html_escape_def)
  have lits: "\<forall>w \<in> {''&#34;'', ''&#39;'', ''&amp;'', ''&lt;'', ''&gt;'', [char_of (239::nat), char_of (191::nat), char_of (189::nat)]}.
      list_all (\<lambda>c. \<not> markup_char c) w"
    by (simp add: markup_char_def)
  have plain: "\<not> markup_char c" if "c \<noteq> CHR 0x22" "c \<noteq> CHR 0x27" "c \<noteq> CHR ''<''" "c \<noteq> CHR ''>''"
  proof
    assume "markup_char c"
    then have "(of_char c :: nat) \<in> {60, 62, 34, 39}" by (simp add: markup_char_def)
    then have "char_of (of_char c :: nat) \<in> char_of ` {60, 62, 34, 39 :: nat}" by (rule imageI)
    moreover have "char_of ` {60, 62, 34, 39 :: nat} = {CHR ''<'', CHR ''>'', CHR 0x22, CHR 0x27}" by code_simp
    ultimately have "char_of (of_char c :: nat) \<in> {CHR ''<'', CHR ''>'', CHR 0x22, CHR 0x27}" by (simp only:)
    then show False using that by simp
  qed
  have "list_all (\<lambda>c. \<not> markup_char c) (html_escape [c])"
    using lits plain unfolding html_escape_def by simp
  then show ?case using Cons unfolding rest by simp
qed

text \<open>The addresses the status page writes lead back to what they stand for. For every filter the
  page accepts, the address it refreshes itself from selects the same filter, whatever bytes the name
  of the queue has. After a change to a job the redirect keeps the filters of the form, and the page it
  leads to reports exactly what became of the change.\<close>

theorem page_addresses_roundtrip:
  assumes "parsePageFilters q = Inr f" "0 < k" "k \<le> MaxInt64" "notice = ''retried'' \<or> notice = ''cancelled''"
    and "err = None \<or> (\<exists>x. err = Some (mapDriverErr x) \<and> (x = ErrNotFound \<or> x = ErrInvalidTransition))"
  shows "(\<exists>q'. refreshURL f = (if q' = [] then ''/'' else ''/?'' @ q') \<and> parsePageFilters (parse_query q') = Inr f) \<and>
    (\<exists>q'. mutationRedirect form notice err k = ''/?'' @ q' \<and>
       flashFromQuery (parse_query q') = outcome_flash notice err k \<and>
       (\<forall>key \<in> {''queue'', ''state'', ''limit''}. values_Get key (parse_query q') = values_Get key form))"
proof -
  have "\<forall>x. err = Some x \<longrightarrow> errors_Is x NotFound \<or> errors_Is x InvalidTransition"
    using assms(5) by (auto simp: mapDriverErr_Is)
  from refreshURL_roundtrip[OF assms(1)] mutationRedirect_roundtrip[OF assms(2-4) this]
  show ?thesis by blast
qed

theorem page_addresses_roundtrip_witness:
  "(\<exists>q'. refreshURL \<lparr>fv_Queue = ''a&b =c'', fv_State = ''all'', fv_Limit = 7\<rparr> = (if q' = [] then ''/'' else ''/?'' @ q') \<and>
      parsePageFilters (parse_query q') = Inr \<lparr>fv_Queue = ''a&b =c'', fv_State = ''all'', fv_Limit = 7\<rparr>) \<and>
   (\<exists>q'. mutationRedirect [(''queue'', [''a&b''])] ''cancelled'' (Some (mapDriverErr ErrNotFound)) 12 = ''/?'' @ q' \<and>
      flashFromQuery (parse_query q') = (''job 12 not found'', ''error'') \<and> values_Get ''queue'' (parse_query q') = ''a&b'')"
proof -
  have f: "parsePageFilters [(''queue'', [''a&b =c'']), (''state'', [''all'']), (''limit'', [''7''])] =
      Inr \<lparr>fv_Queue = ''a&b =c'', fv_State = ''all'', fv_Limit = 7\<rparr>" by code_simp
  have fl: "outcome_flash ''cancelled'' (Some (mapDriverErr ErrNotFound)) 12 = (''job 12 not found'', ''error'')" by code_simp
  have g: "values_Get ''queue'' [(''queue'', [''a&b''])] = ''a&b''" by code_simp
  have k: "(0::int) < 12" "(12::int) \<le> MaxInt64" by (simp_all add: MaxInt64_def)
  have n: "''cancelled'' = ''retried'' \<or> ''cancelled'' = ''cancelled''" by simp
  have err: "Some (mapDriverErr ErrNotFound) = None \<or>
      (\<exists>x. Some (mapDriverErr ErrNotFound) = Some (mapDriverErr x) \<and> (x = ErrNotFound \<or> x = ErrInvalidTransition))" by blast
  note both = page_addresses_roundtrip[OF f k n err, where form = "[(''queue'', [''a&b''])]", unfolded fl]
  from conjunct2[OF both] obtain q' where q': "mutationRedirect [(''queue'', [''a&b''])] ''cancelled'' (Some (mapDriverErr ErrNotFound)) 12 = ''/?'' @ q'"
    "flashFromQuery (parse_query q') = (''job 12 not found'', ''error'')"
    "\<forall>key \<in> {''queue'', ''state'', ''limit''}. values_Get key (parse_query q') = values_Get key [(''queue'', [''a&b''])]" by blast
  have "values_Get ''queue'' (parse_query q') = ''a&b''" using bspec[OF q'(3), of "''queue''"] g by simp
  then show ?thesis using conjunct1[OF both] q'(1,2) by blast
qed

section \<open>What a visitor can change\<close>

lemma postMutation_state:
  assumes "postMutation msg_of notice mutate id_text r s = (resp, s')"
  shows "s' = s \<or> sameOrigin r \<and> (\<exists>k. parseJobID id_text = Inr k \<and> s' = snd (mutate k s))"
proof (cases "sameOrigin r")
  case False
  then show ?thesis using assms by (simp add: postMutation_def)
next
  case True
  show ?thesis
  proof (cases "parseJobID id_text")
    case (Inl err)
    then show ?thesis using assms True by (simp add: postMutation_def)
  next
    case (Inr k)
    obtain res s1 where m: "mutate k s = (res, s1)" by fastforce
    have "s' = s \<or> s' = s1"
      using assms True Inr m by (cases "rq_form r"; cases res) (auto simp: postMutation_def Let_def split: if_splits)
    then show ?thesis using True Inr m by auto
  qed
qed

lemma parseJobID_range: "parseJobID s = Inr k \<Longrightarrow> 0 < k \<and> k \<le> MaxInt64"
  by (auto simp: parseJobID_def atoi_def Let_def split: option.splits if_splits prod.splits list.splits)

context operator_reads
begin

lemma getPage_reads: "snd (getPage ops render msg_of refresh_every e1 e2 r s) = s"
proof (cases "parsePageFilters (rq_query r)")
  case (Inr f)
  then show ?thesis
    using in_Stats_reads[of e1 s] in_ListJobs_reads[of e2 "Some (listOptsFromFilters f)" s]
    by (auto simp: getPage_def split: prod.split sum.split)
qed (simp add: getPage_def)

end

lemma in_ops_state:
  "snd (in_RetryJob ops e k s) = snd (drv_RedriveDead ops e k s)"
  "snd (in_CancelJob ops e k s) = snd (drv_OperatorCancel ops e k s)"
  by (simp_all add: in_RetryJob_def in_CancelJob_def case_prod_beta split: sum.split)

lemma list4: "length xs = 4 \<Longrightarrow> xs = [xs ! 0, xs ! 1, xs ! 2, xs ! 3]"
  by (cases xs; cases "tl xs"; cases "tl (tl xs)"; cases "tl (tl (tl xs))") auto

lemma route_cases:
  "x = (if home then (if get then page else missing) else if action then (if get then refused else if \<not> post then missing else acted)
     else missing) \<Longrightarrow> snd page = t \<Longrightarrow> snd missing = t \<Longrightarrow> snd refused = t \<Longrightarrow> snd x \<noteq> t \<Longrightarrow> action \<and> post \<and> x = acted"
  by (auto split: if_splits)

lemma join_split_on: "join [sep] (split_on sep s) = s"
proof (induction s)
  case (Cons c s)
  obtain w ws where "split_on sep s = w # ws" by (metis list.exhaust split_on_not_Nil)
  then show ?case using Cons by (cases ws) auto
qed simp

text \<open>A request that changes the store took one of the two routes for actions.\<close>

lemma web_action:
  assumes "serve_web (pg_ops svc) render msg_of refresh_every e1 e2 r t = (resp, t')" "t' \<noteq> t"
  obtains id_text verb where "rq_method r = ''POST''" "rq_path r = ''/jobs/'' @ id_text @ ''/'' @ verb"
    "verb = ''retry'' \<and> postMutation msg_of ''retried'' (in_RetryJob (pg_ops svc) e1) id_text r t = (resp, t') \<or>
     verb = ''cancel'' \<and> postMutation msg_of ''cancelled'' (in_CancelJob (pg_ops svc) e1) id_text r t = (resp, t')"
proof -
  define p where "p = split_on (CHR ''/'') (rq_path r)"
  have read: "snd (getPage (pg_ops svc) render msg_of refresh_every e1 e2 r t) = t"
    by (rule pg_operator.getPage_reads)
  define home where "home \<longleftrightarrow> p = [[], []]"
  define get where "get \<longleftrightarrow> rq_method r = ''GET'' \<or> rq_method r = ''HEAD''"
  define post where "post \<longleftrightarrow> rq_method r = ''POST''"
  define retry where "retry \<longleftrightarrow> p ! 3 = ''retry''"
  define action where "action \<longleftrightarrow> length p = 4 \<and> p ! 0 = [] \<and> p ! 1 = ''jobs'' \<and> p ! 2 \<noteq> [] \<and> (retry \<or> p ! 3 = ''cancel'')"
  define mutated where "mutated = (if retry then postMutation msg_of ''retried'' (in_RetryJob (pg_ops svc) e1) (p ! 2) r t
        else postMutation msg_of ''cancelled'' (in_CancelJob (pg_ops svc) e1) (p ! 2) r t)"
  have "serve_web (pg_ops svc) render msg_of refresh_every e1 e2 r t = (if home then (if get then getPage (pg_ops svc) render msg_of refresh_every e1 e2 r t else (web_notFound, t))
      else if action then (if get then (web_methodNotAllowed, t) else if \<not> post then (web_notFound, t) else mutated)
      else (web_notFound, t))"
    by (simp only: serve_web_def Let_def p_def home_def get_def post_def action_def mutated_def retry_def not_not)
  then have out: "(resp, t') = (if home then (if get then getPage (pg_ops svc) render msg_of refresh_every e1 e2 r t else (web_notFound, t))
      else if action then (if get then (web_methodNotAllowed, t) else if \<not> post then (web_notFound, t) else mutated)
      else (web_notFound, t))" by (simp only: assms(1))
  have "action \<and> post \<and> (resp, t') = mutated" by (rule route_cases[OF out read]) (use assms(2) in simp_all)
  then have act: "action" "post" "(resp, t') = mutated" by blast+
  have p: "length p = 4" "p ! 0 = []" "p ! 1 = ''jobs''" using act(1) unfolding action_def by blast+
  have "rq_path r = join ''/'' [p ! 0, p ! 1, p ! 2, p ! 3]"
    using join_split_on[of "CHR ''/''" "rq_path r"] unfolding p_def[symmetric] list4[OF p(1), symmetric] by (rule sym)
  then have path: "rq_path r = ''/jobs/'' @ p ! 2 @ ''/'' @ p ! 3" unfolding p(2,3) by simp
  have verb: "p ! 3 = ''retry'' \<or> p ! 3 = ''cancel''" using act(1) by (simp add: action_def retry_def)
  have meth: "rq_method r = ''POST''" using act(2) by (simp add: post_def)
  have run: "(resp, t') = (if p ! 3 = ''retry'' then postMutation msg_of ''retried'' (in_RetryJob (pg_ops svc) e1) (p ! 2) r t
        else postMutation msg_of ''cancelled'' (in_CancelJob (pg_ops svc) e1) (p ! 2) r t)"
    using act(3) by (simp add: mutated_def retry_def)
  show thesis using that[OF meth path] verb run by (cases "p ! 3 = ''retry''") simp_all
qed

text \<open>C31: the status page changes the store only when it is asked to from its own pages. Whatever the
  request, the store of the PostgreSQL driver is as before, or the request is a POST whose Origin, or
  Referer if it has none, names the page's own host, its path is that of one action on one job with a
  positive id, and the change is exactly that redrive or cancellation. A GET never changes anything,
  and neither does a form another site submits.\<close>

theorem web_changes_are_asked_for:
  assumes "serve_web (pg_ops svc) render msg_of refresh_every e1 e2 r t = (resp, t')"
  shows "t' = t \<or>
    rq_method r = ''POST'' \<and> (rq_origin r = URLHost (rq_host r) \<or> rq_origin r = NoHeader \<and> rq_referer r = URLHost (rq_host r)) \<and>
    (\<exists>id_text verb k. rq_path r = ''/jobs/'' @ id_text @ ''/'' @ verb \<and>
       parseJobID id_text = Inr k \<and> 0 < k \<and>
       (verb = ''retry'' \<and> t' = snd (pg_RedriveDead alone e1 k t) \<or>
        verb = ''cancel'' \<and> t' = snd (pg_OperatorCancel alone e1 k t)))"
proof (cases "t' = t")
  case False
  obtain id_text verb where req: "rq_method r = ''POST''" "rq_path r = ''/jobs/'' @ id_text @ ''/'' @ verb"
    and run: "verb = ''retry'' \<and> postMutation msg_of ''retried'' (in_RetryJob (pg_ops svc) e1) id_text r t = (resp, t') \<or>
     verb = ''cancel'' \<and> postMutation msg_of ''cancelled'' (in_CancelJob (pg_ops svc) e1) id_text r t = (resp, t')"
    by (rule web_action[OF assms False])
  have ops: "drv_RedriveDead (pg_ops svc) = pg_RedriveDead alone" "drv_OperatorCancel (pg_ops svc) = pg_OperatorCancel alone"
    by (simp_all add: pg_ops_def)
  have changed: "sameOrigin r \<and> (\<exists>k. parseJobID id_text = Inr k \<and>
      (verb = ''retry'' \<and> t' = snd (pg_RedriveDead alone e1 k t) \<or> verb = ''cancel'' \<and> t' = snd (pg_OperatorCancel alone e1 k t)))"
    using run postMutation_state False unfolding in_ops_state ops[symmetric] by (metis in_ops_state)
  moreover have "rq_origin r = URLHost (rq_host r) \<or> rq_origin r = NoHeader \<and> rq_referer r = URLHost (rq_host r)" if "sameOrigin r"
    using that by (auto simp: sameOrigin_def split: header_url.splits)
  ultimately show ?thesis using req parseJobID_range by blast
qed simp

definition demo_request :: web_request where
  "demo_request = \<lparr>rq_method = ''POST'', rq_path = ''/jobs/1/cancel'', rq_host = ''localhost:7180'',
     rq_origin = URLHost ''localhost:7180'', rq_referer = NoHeader, rq_query = [], rq_form = Inr []\<rparr>"

theorem web_changes_are_asked_for_witness:
  "\<exists>resp t'. serve_web (pg_ops demo_svc) (\<lambda>_. None) (\<lambda>_. []) 0 demo_env demo_env demo_request demo_inserted = (resp, t') \<and>
     rs_code resp = 303 \<and> t' \<noteq> demo_inserted \<and> (\<exists>k > 0. t' = snd (pg_OperatorCancel alone demo_env k demo_inserted))"
proof -
  obtain resp t' where out: "serve_web (pg_ops demo_svc) (\<lambda>_. None) (\<lambda>_. []) 0 demo_env demo_env demo_request demo_inserted = (resp, t')"
    by fastforce
  have code: "rs_code (fst (serve_web (pg_ops demo_svc) (\<lambda>_. None) (\<lambda>_. []) 0 demo_env demo_env demo_request demo_inserted)) = 303"
    by code_simp
  have "map_option State (db_abs (snd (serve_web (pg_ops demo_svc) (\<lambda>_. None) (\<lambda>_. []) 0 demo_env demo_env demo_request demo_inserted)) 1) \<noteq>
      map_option State (db_abs demo_inserted 1)"
    by code_simp
  then have ne: "t' \<noteq> demo_inserted" using out by auto
  have path: "split_on (CHR ''/'') (rq_path demo_request) = [[], ''jobs'', ''1'', ''cancel'']" by code_simp
  from web_changes_are_asked_for[OF out] ne obtain id_text verb k where
    k: "rq_path demo_request = ''/jobs/'' @ id_text @ ''/'' @ verb" "0 < k"
    "verb = ''retry'' \<and> t' = snd (pg_RedriveDead alone demo_env k demo_inserted) \<or>
     verb = ''cancel'' \<and> t' = snd (pg_OperatorCancel alone demo_env k demo_inserted)" by blast
  have "verb \<noteq> ''retry''"
  proof
    assume "verb = ''retry''"
    then have "last (rq_path demo_request) = last ''retry''" using k(1) by (simp add: last_append)
    then show False by (simp add: demo_request_def)
  qed
  then show ?thesis using out code ne k(2,3) by auto
qed

end
