(* ===== verification/Cli.thy ===== *)
theory Cli
  imports Flags Web
begin

text \<open>
  The operator's command line (\<^verbatim>\<open>cmd/drover\<close>): global flags, the commands with their exit codes and
  what they write to standard output. What goes to standard error is left out. A command line is
  the list of its arguments.
\<close>

section \<open>Global flags\<close>

record global_config =
  gc_database :: string
  gc_json :: bool
  gc_version :: bool
  gc_help :: bool

text \<open>What an argument is to the global flags.\<close>

datatype global_token = EndOfFlags | JSONFlag | VersionFlag | HelpFlag | DatabaseFlag | DatabaseIs string | NotGlobal

definition classify :: "string \<Rightarrow> global_token" where
  "classify a =
     (if a = ''--'' then EndOfFlags
      else if a = ''--json'' then JSONFlag
      else if a = ''--version'' then VersionFlag
      else if a = ''-h'' \<or> a = ''--help'' then HelpFlag
      else if a = ''--database'' then DatabaseFlag
      else if HasPrefix a ''--database='' then DatabaseIs (drop (length ''--database='') a)
      else NotGlobal)"

fun peel :: "global_config \<Rightarrow> string list \<Rightarrow> string list \<Rightarrow> string + global_config \<times> string list" where
  "peel cfg rest [] = Inr (cfg, rest)"
| "peel cfg rest (a # args) =
     (case classify a of
        EndOfFlags \<Rightarrow> Inr (cfg, rest @ args)
      | JSONFlag \<Rightarrow> peel (cfg\<lparr>gc_json := True\<rparr>) rest args
      | VersionFlag \<Rightarrow> peel (cfg\<lparr>gc_version := True\<rparr>) rest args
      | HelpFlag \<Rightarrow> peel (cfg\<lparr>gc_help := True\<rparr>) rest args
      | DatabaseFlag \<Rightarrow>
          (case args of
             [] \<Rightarrow> Inl ''--database requires a value''
           | v # args' \<Rightarrow> peel (cfg\<lparr>gc_database := v\<rparr>) rest args')
      | DatabaseIs v \<Rightarrow>
          if v = [] then Inl ''--database requires a value'' else peel (cfg\<lparr>gc_database := v\<rparr>) rest args
      | NotGlobal \<Rightarrow> peel cfg (rest @ [a]) args)"

definition peelGlobals :: "string list \<Rightarrow> string + global_config \<times> string list" where
  "peelGlobals args = peel \<lparr>gc_database = [], gc_json = False, gc_version = False, gc_help = False\<rparr> [] args"

text \<open>A variable that is not set reads as the empty string.\<close>

definition resolveDSN :: "string \<Rightarrow> (string \<Rightarrow> string) option \<Rightarrow> string + string" where
  "resolveDSN flagValue getenv =
     (if flagValue \<noteq> [] then Inr flagValue
      else case getenv of
        None \<Rightarrow> Inl ''database URL required: pass --database or set DATABASE_URL''
      | Some env \<Rightarrow>
          if env ''DATABASE_URL'' \<noteq> [] then Inr (env ''DATABASE_URL'')
          else Inl ''database URL required: pass --database or set DATABASE_URL'')"

section \<open>Output\<close>

text \<open>
  What the package json does is a parameter: the bytes of a raw message and the message some bytes are,
  and the encoding of the values the commands print, which may fail.
\<close>

record text_codec =
  tc_bytes :: "raw_message \<Rightarrow> string"
  tc_raw :: "string \<Rightarrow> raw_message"
  tc_job :: "job_row \<Rightarrow> string option"
  tc_jobs :: "job_row list \<Rightarrow> string option"
  tc_stats :: "stats \<Rightarrow> string option"

abbreviation tab :: string where "tab \<equiv> [char_of (9::nat)]"
abbreviation newline :: string where "newline \<equiv> [char_of (10::nat)]"

text \<open>\<^verbatim>\<open>%.3f\<close>: the nearest number of thousandths, the even one of two.\<close>

definition thousandths :: "real \<Rightarrow> int" where
  "thousandths x =
     (let f = \<lfloor>1000 * x\<rfloor>; r = 1000 * x - of_int f
      in if r < 1 / 2 \<or> r = 1 / 2 \<and> even f then f else f + 1)"

definition format_3f :: "real \<Rightarrow> string" where
  "format_3f x =
     (let n = thousandths \<bar>x\<bar> in (if x < 0 then ''-'' else []) @ digits (n div 1000) @ ''.'' @ pad 3 (n mod 1000))"

text \<open>\<^verbatim>\<open>t.UTC().Format(time.RFC3339)\<close> has whole seconds.\<close>

definition formatTime :: "time \<Rightarrow> string" where
  "formatTime t = (if IsZero t then [] else format_RFC3339Nano (t - Nanosecond t))"

definition writeStatsHuman :: "stats \<Rightarrow> string" where
  "writeStatsHuman st =
     ''QUEUE'' @ tab @ ''STATE'' @ tab @ ''COUNT'' @ newline @
     concat (map (\<lambda>d. qd_Queue d @ tab @ qd_State d @ tab @ itoa (qd_Count d) @ newline) (Depths st)) @
     ''QUEUE'' @ tab @ ''OLDEST_AGE_SECONDS'' @ newline @
     concat (map (\<lambda>a. qa_Queue a @ tab @ format_3f (qa_AgeSeconds a) @ newline) (Oldest st))"

definition writeJobsHuman :: "job_row list \<Rightarrow> string" where
  "writeJobsHuman rows =
     join tab [''ID'', ''KIND'', ''QUEUE'', ''STATE'', ''ATTEMPT'', ''SCHEDULED_AT'', ''CREATED_AT''] @ newline @
     concat (map (\<lambda>j. join tab [itoa (ID j), Kind j, Queue j, state_name (State j), itoa (Attempt j),
       formatTime (ScheduledAt j), formatTime (CreatedAt j)] @ newline) rows)"

definition writeJobHuman :: "text_codec \<Rightarrow> job_row \<Rightarrow> string" where
  "writeJobHuman tc j =
     ''id='' @ itoa (ID j) @ '' kind='' @ Kind j @ '' queue='' @ Queue j @ '' state='' @ state_name (State j) @
     '' attempt='' @ itoa (Attempt j) @ ''/'' @ itoa (MaxAttempts j) @ newline @
     ''scheduled_at='' @ formatTime (ScheduledAt j) @ '' created_at='' @ formatTime (CreatedAt j) @ newline @
     (case LeasedUntil j of None \<Rightarrow> [] | Some t \<Rightarrow> ''leased_until='' @ formatTime t @ newline) @
     (case FinalizedAt j of None \<Rightarrow> [] | Some t \<Rightarrow> ''finalized_at='' @ formatTime t @ newline) @
     ''args='' @ tc_bytes tc (Args j) @ newline @
     (if tc_bytes tc (Errors j) \<noteq> [] \<and> tc_bytes tc (Errors j) \<noteq> ''null''
      then ''errors='' @ tc_bytes tc (Errors j) @ newline else [])"

text \<open>JSON or text: the exit code and the output.\<close>

definition print_result :: "bool \<Rightarrow> string option \<Rightarrow> string \<Rightarrow> int \<times> string" where
  "print_result jsonOut encoded human =
     (if jsonOut then (case encoded of None \<Rightarrow> (1, []) | Some out \<Rightarrow> (0, out @ newline)) else (0, human))"

section \<open>Commands\<close>

text \<open>Each gives its exit code, its output and the new state of the store.\<close>

type_synonym 's command_end = "(int \<times> string) \<times> 's"

definition runStats ::
  "('e, 's) driver_ops \<Rightarrow> text_codec \<Rightarrow> 'e \<Rightarrow> bool \<Rightarrow> 's \<Rightarrow> 's command_end" where
  "runStats ops tc e jsonOut s =
     (case in_Stats ops e s of
        (Inl err, s') \<Rightarrow> ((1, []), s')
      | (Inr st, s') \<Rightarrow> (print_result jsonOut (tc_stats tc st) (writeStatsHuman st), s'))"

definition jobs_list_flags :: flags where
  "jobs_list_flags = [(''queue'', FString []), (''state'', FString []), (''limit'', FInt 0)]"

definition runJobsList ::
  "('e, 's) driver_ops \<Rightarrow> text_codec \<Rightarrow> 'e \<Rightarrow> string list \<Rightarrow> bool \<Rightarrow> 's \<Rightarrow> 's command_end" where
  "runJobsList ops tc e args jsonOut s =
     (case parse_flags jobs_list_flags args of
        Inl err \<Rightarrow> ((2, []), s)
      | Inr (fs, rest) \<Rightarrow>
          if rest \<noteq> [] then ((2, []), s)
          else if flag_int fs ''limit'' > 1000 then ((2, []), s)
          else
            case in_ListJobs ops e
                (Some \<lparr>lo_Queue = flag_string fs ''queue'', lo_State = flag_string fs ''state'', lo_Limit = flag_int fs ''limit''\<rparr>) s of
              (Inl err, s') \<Rightarrow> ((1, []), s')
            | (Inr rows, s') \<Rightarrow> (print_result jsonOut (tc_jobs tc rows) (writeJobsHuman rows), s'))"

text \<open>The two commands on one job differ in the call and in the line they print.\<close>

definition runOnJob ::
  "text_codec \<Rightarrow> (int \<Rightarrow> 's \<Rightarrow> (go_error + job_row) \<times> 's) \<Rightarrow> (job_row \<Rightarrow> string) \<Rightarrow> string list \<Rightarrow> bool \<Rightarrow> 's \<Rightarrow>
   's command_end" where
  "runOnJob tc change headline args jsonOut s =
     (case args of
        [a] \<Rightarrow>
          (case parseJobID a of
             Inl err \<Rightarrow> ((2, []), s)
           | Inr k \<Rightarrow>
               (case change k s of
                  (Inl err, s') \<Rightarrow> ((1, []), s')
                | (Inr job, s') \<Rightarrow> (print_result jsonOut (tc_job tc job) (headline job @ newline @ writeJobHuman tc job), s')))
      | _ \<Rightarrow> ((2, []), s))"

definition runRetry ::
  "('e, 's) driver_ops \<Rightarrow> text_codec \<Rightarrow> 'e \<Rightarrow> string list \<Rightarrow> bool \<Rightarrow> 's \<Rightarrow> 's command_end" where
  "runRetry ops tc e =
     runOnJob tc (in_RetryJob ops e)
       (\<lambda>job. ''redrove job '' @ itoa (ID job) @ '' to state='' @ state_name (State job) @ '' attempt='' @ itoa (Attempt job))"

definition runCancel ::
  "('e, 's) driver_ops \<Rightarrow> text_codec \<Rightarrow> 'e \<Rightarrow> string list \<Rightarrow> bool \<Rightarrow> 's \<Rightarrow> 's command_end" where
  "runCancel ops tc e = runOnJob tc (in_CancelJob ops e) (\<lambda>job. ''cancelled job '' @ itoa (ID job))"

definition enqueue_flags :: flags where
  "enqueue_flags = [(''kind'', FString []), (''queue'', FString []), (''args'', FString ''{}'')]"

definition runEnqueue ::
  "('e, 's) driver_ops \<Rightarrow> text_codec \<Rightarrow> 'e \<Rightarrow> string list \<Rightarrow> bool \<Rightarrow> 's \<Rightarrow> 's command_end" where
  "runEnqueue ops tc e args jsonOut s =
     (case parse_flags enqueue_flags args of
        Inl err \<Rightarrow> ((2, []), s)
      | Inr (fs, rest) \<Rightarrow>
          if rest \<noteq> [] then ((2, []), s)
          else if flag_string fs ''kind'' = [] then ((2, []), s)
          else case tc_raw tc (flag_string fs ''args'') of
            Invalid _ \<Rightarrow> ((2, []), s)
          | Valid v \<Rightarrow>
              let opts = (if flag_string fs ''queue'' \<noteq> []
                    then Some \<lparr>io_Queue = flag_string fs ''queue'', io_ScheduledAt = 0, io_UniqueKey = []\<rparr> else None)
              in case in_Enqueue ops e (flag_string fs ''kind'') (Valid v) opts s of
                   (Inl err, s') \<Rightarrow> ((1, []), s')
                 | (Inr job, s') \<Rightarrow>
                     (print_result jsonOut (tc_job tc job)
                        (''enqueued job id='' @ itoa (ID job) @ '' kind='' @ Kind job @ '' queue='' @ Queue job @ newline), s'))"

text \<open>Serving the status page. What the listener does is a parameter: the address it is bound to, the
  requests it hands over while it serves, and how serving ends.\<close>

record web_config =
  wc_Listen :: string
  wc_Refresh :: duration

definition defaultWebListen :: string where "defaultWebListen = ''127.0.0.1:7180''"
definition defaultWebRefresh :: duration where "defaultWebRefresh = 5 * second"
definition minWebRefresh :: duration where "minWebRefresh = second"

definition parseWebConfig :: "string list \<Rightarrow> int + web_config" where
  "parseWebConfig args =
     (case parse_flags [(''listen'', FString defaultWebListen), (''refresh'', FDuration defaultWebRefresh)] args of
        Inl err \<Rightarrow> Inl 2
      | Inr (fs, rest) \<Rightarrow>
          if rest \<noteq> [] then Inl 2
          else if flag_duration fs ''refresh'' > 0 \<and> flag_duration fs ''refresh'' < minWebRefresh then Inl 2
          else Inr \<lparr>wc_Listen = flag_string fs ''listen'', wc_Refresh = flag_duration fs ''refresh''\<rparr>)"

text \<open>Binding fails; the server ends by itself; or a signal ends it, and it is shut down. A server that
  ends may report an error other than that it was closed.\<close>

datatype web_ending = ListenFails | ServerEnds "string option" | Interrupted "string option"

record 'e web_world =
  ww_addr :: "string \<Rightarrow> string"
  ww_requests :: "('e \<times> 'e \<times> web_request) list"
  ww_ending :: web_ending
  ww_render :: "page_data \<Rightarrow> string option"
  ww_message :: "go_error \<Rightarrow> string"

definition serve_requests ::
  "('e, 's) driver_ops \<Rightarrow> 'e web_world \<Rightarrow> duration \<Rightarrow> 's \<Rightarrow> 's" where
  "serve_requests ops w refresh_every s =
     fold (\<lambda>(e1, e2, r) s. snd (serve_web ops (ww_render w) (ww_message w) refresh_every e1 e2 r s)) (ww_requests w) s"

definition runWeb :: "('e, 's) driver_ops \<Rightarrow> 'e web_world \<Rightarrow> string list \<Rightarrow> 's \<Rightarrow> 's command_end" where
  "runWeb ops w args s =
     (case parseWebConfig args of
        Inl code \<Rightarrow> ((code, []), s)
      | Inr cfg \<Rightarrow>
          let out = ''http://'' @ ww_addr w (wc_Listen cfg) @ ''/'' @ newline;
              s' = serve_requests ops w (wc_Refresh cfg) s
          in case ww_ending w of
               ListenFails \<Rightarrow> ((1, []), s)
             | ServerEnds err \<Rightarrow> ((if err \<noteq> None then 1 else 0, out), s')
             | Interrupted err \<Rightarrow> ((if err \<noteq> None then 1 else 0, out), s'))"

section \<open>The command line\<close>

definition usage :: string where
  "usage = concat (map (\<lambda>line. line @ newline)
    [''Usage: drover [global flags] <command> [command flags]'',
     '''',
     ''Commands:'',
     ''  stats              Print per-queue depth and oldest-claimable age'',
     ''  jobs list          List jobs (optional --queue, --state, --limit)'',
     ''  retry <id>         Redrive a dead job to available'',
     ''  cancel <id>        Cancel a waiting or dead job'',
     ''  enqueue            Insert a job (--kind required; --queue, --args optional)'',
     ''  web                Serve a server-rendered status page (retry/cancel)'',
     ''  version            Print the drover version'',
     '''',
     ''Global flags:'',
     ''  --database URL     Postgres URL (default: $DATABASE_URL)'',
     ''  --json             Machine-readable JSON output'',
     ''  --version          Print the drover version'',
     ''  -h, --help         Show this help''])"

text \<open>Everything a run meets: the version linked in, the environment, how a database opens, what
  the calls to it meet, the codec and the listener.\<close>

record 'e cli_world =
  cw_version :: string
  cw_getenv :: "(string \<Rightarrow> string) option"
  cw_open :: "string \<Rightarrow> string option"
  cw_env :: 'e
  cw_codec :: text_codec
  cw_web :: "'e web_world"

text \<open>A run ends with its exit code, its output, the database it opened and the state of the store.\<close>

type_synonym 's cli_end = "(int \<times> string) \<times> string option \<times> 's"

definition withInspector ::
  "'e cli_world \<Rightarrow> global_config \<Rightarrow> ('s \<Rightarrow> 's command_end) \<Rightarrow> 's \<Rightarrow> 's cli_end" where
  "withInspector w cfg fn s =
     (case resolveDSN (gc_database cfg) (cw_getenv w) of
        Inl err \<Rightarrow> ((2, []), None, s)
      | Inr dsn \<Rightarrow>
          if cw_open w dsn \<noteq> None then ((1, []), None, s)
          else case fn s of (res, s') \<Rightarrow> (res, Some dsn, s'))"

definition run_command ::
  "('e, 's) driver_ops \<Rightarrow> 'e cli_world \<Rightarrow> global_config \<Rightarrow> string \<Rightarrow> string list \<Rightarrow> 's \<Rightarrow> 's cli_end" where
  "run_command ops w cfg command args s =
     (let tc = cw_codec w; e = cw_env w; j = gc_json cfg
      in if command = ''version'' then ((0, cw_version w @ newline), None, s)
         else if command = ''stats'' then withInspector w cfg (runStats ops tc e j) s
         else if command = ''jobs'' then
           (case args of
              sub # args' \<Rightarrow> if sub \<noteq> ''list'' then ((2, []), None, s) else withInspector w cfg (runJobsList ops tc e args' j) s
            | [] \<Rightarrow> ((2, []), None, s))
         else if command = ''retry'' then withInspector w cfg (runRetry ops tc e args j) s
         else if command = ''cancel'' then withInspector w cfg (runCancel ops tc e args j) s
         else if command = ''enqueue'' then withInspector w cfg (runEnqueue ops tc e args j) s
         else if command = ''web'' then
           (if j then ((2, []), None, s) else withInspector w cfg (runWeb ops (cw_web w) args) s)
         else ((2, []), None, s))"

definition cli_run :: "('e, 's) driver_ops \<Rightarrow> 'e cli_world \<Rightarrow> string list \<Rightarrow> 's \<Rightarrow> 's cli_end" where
  "cli_run ops w args s =
     (case peelGlobals args of
        Inl err \<Rightarrow> ((2, []), None, s)
      | Inr (cfg, rest) \<Rightarrow>
          if gc_help cfg then ((0, usage), None, s)
          else if gc_version cfg then ((0, cw_version w @ newline), None, s)
          else case rest of
            [] \<Rightarrow> ((2, []), None, s)
          | command # args' \<Rightarrow> run_command ops w cfg command args' s)"

section \<open>Global flags anywhere\<close>

text \<open>Before a terminating \<^verbatim>\<open>--\<close>, and not as the value of \<^verbatim>\<open>--database\<close>, it does not matter where the
  flag for JSON stands.\<close>

lemma peel_append:
  "peel cfg rest xs = Inr (cfg', rest') \<Longrightarrow> ''--'' \<notin> set xs \<Longrightarrow> peel cfg rest (xs @ ys) = peel cfg' rest' ys"
proof (induction cfg rest xs rule: peel.induct)
  case (2 cfg rest a args)
  have "classify a \<noteq> EndOfFlags" using 2(8) by (auto simp: classify_def split: if_splits)
  then show ?case using 2 by (cases "classify a"; cases args) (auto split: if_splits)
qed simp

lemma peel_json:
  "peel (cfg\<lparr>gc_json := True\<rparr>) rest args =
     (case peel cfg rest args of Inl err \<Rightarrow> Inl err | Inr (cfg', rest') \<Rightarrow> Inr (cfg'\<lparr>gc_json := True\<rparr>, rest'))"
proof (induction cfg rest args rule: peel.induct)
  case (2 cfg rest a args)
  have upd: "cfg\<lparr>gc_json := True, gc_version := True\<rparr> = cfg\<lparr>gc_version := True, gc_json := True\<rparr>"
    "cfg\<lparr>gc_json := True, gc_help := True\<rparr> = cfg\<lparr>gc_help := True, gc_json := True\<rparr>"
    "cfg\<lparr>gc_json := True, gc_database := v\<rparr> = cfg\<lparr>gc_database := v, gc_json := True\<rparr>" for v by simp_all
  show ?case using 2 by (cases "classify a"; cases args) (simp_all add: upd)
qed simp

lemma json_anywhere:
  assumes "peelGlobals xs = Inr before" "''--'' \<notin> set xs"
  shows "peelGlobals (xs @ ''--json'' # ys) =
    (case peelGlobals (xs @ ys) of Inl err \<Rightarrow> Inl err | Inr (cfg, rest) \<Rightarrow> Inr (cfg\<lparr>gc_json := True\<rparr>, rest))"
proof -
  obtain cfg rest where before: "before = (cfg, rest)" by fastforce
  have app: "peelGlobals (xs @ zs) = peel cfg rest zs" for zs
    unfolding peelGlobals_def by (rule peel_append) (use assms before in \<open>simp_all add: peelGlobals_def\<close>)
  have "classify ''--json'' = JSONFlag" by (simp add: classify_def)
  then have "peel cfg rest (''--json'' # ys) = peel (cfg\<lparr>gc_json := True\<rparr>) rest ys" by (simp only: peel.simps global_token.case)
  then show ?thesis unfolding app peel_json .
qed

section \<open>What the commands change\<close>

context operator_reads
begin

lemma runStats_reads: "snd (runStats ops tc e j s) = s"
  using in_Stats_reads[of e s] by (auto simp: runStats_def split: prod.split sum.split)

lemma runJobsList_reads: "snd (runJobsList ops tc e args j s) = s"
proof (cases "parse_flags jobs_list_flags args")
  case (Inr p)
  obtain fs rest where p: "p = (fs, rest)" by fastforce
  define opts where "opts = Some \<lparr>lo_Queue = flag_string fs ''queue'', lo_State = flag_string fs ''state'', lo_Limit = flag_int fs ''limit''\<rparr>"
  show ?thesis using in_ListJobs_reads[of e opts s] unfolding runJobsList_def Inr p sum.case prod.case opts_def[symmetric]
    by (auto split: prod.split sum.split)
qed (simp add: runJobsList_def)

end

text \<open>An exit code of zero means the call succeeded, and a usage error means there was none.\<close>

lemma runOnJob_end:
  assumes "runOnJob tc change headline args j s = ((code, out), s')"
  shows "s' = s \<and> code = 2 \<or>
    (\<exists>a k res. args = [a] \<and> parseJobID a = Inr k \<and> change k s = (res, s') \<and> code \<noteq> 2 \<and> (code = 0 \<longrightarrow> \<not> isl res))"
proof (cases "\<exists>a. args = [a]")
  case False
  then have "runOnJob tc change headline args j s = ((2, []), s)" by (simp add: runOnJob_def split: list.split)
  then show ?thesis using assms by simp
next
  case True
  then obtain a where a: "args = [a]" by blast
  show ?thesis
  proof (cases "parseJobID a")
    case (Inl err)
    then show ?thesis using assms a by (simp add: runOnJob_def)
  next
    case (Inr k)
    obtain res s1 where c: "change k s = (res, s1)" by fastforce
    have "s' = s1 \<and> code \<noteq> 2 \<and> (code = 0 \<longrightarrow> \<not> isl res)"
      using assms a Inr c
      by (cases res) (auto simp: runOnJob_def print_result_def split: if_splits option.splits)
    then show ?thesis using a Inr c by blast
  qed
qed

lemma runEnqueue_end:
  assumes "runEnqueue ops tc e args j s = ((code, out), s')"
  shows "s' = s \<and> code = 2 \<or>
    (\<exists>p res. ip_Kind p \<noteq> [] \<and> ip_Queue p \<noteq> [] \<and> ip_ScheduledAt p = 0 \<and> ip_UniqueKey p = [] \<and>
       drv_Insert ops e p s = (res, s') \<and> code \<noteq> 2 \<and> (code = 0 \<longrightarrow> \<not> isl res))"
proof (cases "parse_flags enqueue_flags args")
  case (Inr p)
  obtain fs rest where p: "p = (fs, rest)" by fastforce
  define kind queue where "kind = flag_string fs ''kind''" and "queue = flag_string fs ''queue''"
  define raw where "raw = tc_raw tc (flag_string fs ''args'')"
  define opts where "opts = (if queue \<noteq> [] then Some \<lparr>io_Queue = queue, io_ScheduledAt = 0, io_UniqueKey = []\<rparr> else None)"
  define p' where "p' = \<lparr>ip_Kind = kind, ip_Queue = (if queue \<noteq> [] then queue else defaultQueue), ip_Args = raw,
      ip_ScheduledAt = 0, ip_UniqueKey = []\<rparr>"
  show ?thesis
  proof (cases "rest = [] \<and> kind \<noteq> [] \<and> (\<exists>v. raw = Valid v)")
    case False
    then have "runEnqueue ops tc e args j s = ((2, []), s)"
      unfolding runEnqueue_def Inr p sum.case prod.case kind_def[symmetric] raw_def[symmetric]
      by (cases raw) auto
    then show ?thesis using assms by simp
  next
    case True
    then obtain v where v: "raw = Valid v" by blast
    obtain res s1 where ins: "drv_Insert ops e p' s = (res, s1)" by fastforce
    have "in_Enqueue ops e kind (Valid v) opts s =
        (case (res, s1) of (Inl err, s') \<Rightarrow> (Inl (Wrapf ''drover: enqueue job kind'' [Text (driver_text err)]), s')
          | (Inr row, s') \<Rightarrow> (Inr (rowFromDriver row), s'))"
      using True ins v by (auto simp: in_Enqueue_def opts_def p'_def Let_def)
    then have "s' = s1 \<and> code \<noteq> 2 \<and> (code = 0 \<longrightarrow> \<not> isl res)"
      using assms True v
      unfolding runEnqueue_def Inr p sum.case prod.case kind_def[symmetric] queue_def[symmetric] raw_def[symmetric] Let_def opts_def[symmetric]
      by (cases res) (auto simp: print_result_def split: if_splits option.splits)
    moreover have "ip_Kind p' \<noteq> []" "ip_Queue p' \<noteq> []" "ip_ScheduledAt p' = 0" "ip_UniqueKey p' = []"
      using True by (simp_all add: p'_def defaultQueue_def)
    ultimately show ?thesis using ins by blast
  qed
qed (use assms in \<open>simp add: runEnqueue_def\<close>)

lemma runWeb_usage: "runWeb ops w args s = ((2, out), s') \<Longrightarrow> s' = s"
  by (cases "parseWebConfig args") (auto simp: runWeb_def Let_def split: web_ending.splits if_splits)

text \<open>Opening the database comes before the command.\<close>

lemma withInspector_end:
  assumes "withInspector w cfg fn s = (res, opened, s')"
  shows "s' = s \<and> opened = None \<and> fst res \<noteq> 0 \<or> fn s = (res, s')"
  using assms
  by (cases "resolveDSN (gc_database cfg) (cw_getenv w)"; cases "fn s") (auto simp: withInspector_def split: if_splits)

text \<open>A change an operator can ask for in one command, and how the call ended.\<close>

definition asked_change ::
  "pg_service \<Rightarrow> sql_env \<Rightarrow> string list \<Rightarrow> db_table \<Rightarrow> bool \<Rightarrow> db_table \<Rightarrow> bool" where
  "asked_change svc e rest t succeeded t' \<longleftrightarrow>
     (\<exists>a k res. rest = [''retry'', a] \<and> parseJobID a = Inr k \<and> pg_RedriveDead alone e k t = (res, t') \<and> (succeeded \<longrightarrow> \<not> isl res)) \<or>
     (\<exists>a k res. rest = [''cancel'', a] \<and> parseJobID a = Inr k \<and> pg_OperatorCancel alone e k t = (res, t') \<and> (succeeded \<longrightarrow> \<not> isl res)) \<or>
     (\<exists>args p res. rest = ''enqueue'' # args \<and> ip_Kind p \<noteq> [] \<and> ip_Queue p \<noteq> [] \<and> ip_ScheduledAt p = 0 \<and> ip_UniqueKey p = [] \<and>
        pg_Insert svc alone e p t = (res, t') \<and> (succeeded \<longrightarrow> \<not> isl res))"

lemma in_change_res:
  "in_RetryJob ops e k s = (res, s') \<Longrightarrow> \<exists>res0. drv_RedriveDead ops e k s = (res0, s') \<and> isl res0 = isl res"
  "in_CancelJob ops e k s = (res, s') \<Longrightarrow> \<exists>res0. drv_OperatorCancel ops e k s = (res0, s') \<and> isl res0 = isl res"
  by (auto simp: in_RetryJob_def in_CancelJob_def split: prod.splits sum.splits)

lemma pg_ops_fields:
  "drv_RedriveDead (pg_ops svc) = pg_RedriveDead alone" "drv_OperatorCancel (pg_ops svc) = pg_OperatorCancel alone"
  "drv_Insert (pg_ops svc) = pg_Insert svc alone"
  by (simp_all add: pg_ops_def)

text \<open>What a command does to the store: nothing, and then a mistake in the arguments or no database
  shows in the exit code; or the change it names, which succeeded if the exit code is zero.\<close>

definition command_ok ::
  "pg_service \<Rightarrow> sql_env \<Rightarrow> string list \<Rightarrow> db_table \<Rightarrow> db_table cli_end \<Rightarrow> bool" where
  "command_ok svc e rest t r \<longleftrightarrow>
     (case r of ((code, out), opened, t') \<Rightarrow>
        (code = 2 \<or> opened = None \<longrightarrow> t' = t) \<and>
        (rest \<noteq> [] \<and> hd rest = ''web'' \<or> t' = t \<and> (code = 0 \<longrightarrow> rest = [] \<or> hd rest \<notin> {''retry'', ''cancel'', ''enqueue''}) \<or>
         asked_change svc e rest t (code = 0) t'))"

lemma with_read:
  assumes "snd (fn t) = t" "rest = c # args" "c \<notin> {''retry'', ''cancel'', ''enqueue''}"
  shows "command_ok svc e rest t (withInspector w cfg fn t)"
proof -
  obtain code out opened t' where r: "withInspector w cfg fn t = ((code, out), opened, t')" by (metis surj_pair)
  have "t' = t" using withInspector_end[OF r] assms(1) by (metis snd_conv)
  then show ?thesis using assms(2,3) unfolding command_ok_def r by simp
qed

lemma with_change:
  assumes "\<And>code out t'. fn t = ((code, out), t') \<Longrightarrow> t' = t \<and> code = 2 \<or> code \<noteq> 2 \<and> asked_change svc e rest t (code = 0) t'"
  shows "command_ok svc e rest t (withInspector w cfg fn t)"
proof -
  obtain code out opened t' where r: "withInspector w cfg fn t = ((code, out), opened, t')" by (metis surj_pair)
  consider "t' = t" "opened = None" "code \<noteq> 0" | "fn t = ((code, out), t')" "opened \<noteq> None"
    using withInspector_end[OF r] r
    by (cases "resolveDSN (gc_database cfg) (cw_getenv w)"; cases "fn t") (auto simp: withInspector_def split: if_splits)
  then show ?thesis
  proof cases
    case 1
    then show ?thesis unfolding command_ok_def r by simp
  next
    case 2
    show ?thesis using assms[OF 2(1)] 2(2) unfolding command_ok_def r by auto
  qed
qed

lemma retry_ok: "command_ok svc (cw_env w) (''retry'' # args) t (withInspector w cfg (runRetry (pg_ops svc) tc (cw_env w) args j) t)"
proof (rule with_change)
  fix code out t'
  assume "runRetry (pg_ops svc) tc (cw_env w) args j t = ((code, out), t')"
  from runOnJob_end[OF this[unfolded runRetry_def]]
  show "t' = t \<and> code = 2 \<or> code \<noteq> 2 \<and> asked_change svc (cw_env w) (''retry'' # args) t (code = 0) t'"
  proof
    assume "\<exists>a k res. args = [a] \<and> parseJobID a = Inr k \<and> in_RetryJob (pg_ops svc) (cw_env w) k t = (res, t') \<and>
        code \<noteq> 2 \<and> (code = 0 \<longrightarrow> \<not> isl res)"
    then obtain a k res where a: "args = [a]" "parseJobID a = Inr k" "code \<noteq> 2" "code = 0 \<longrightarrow> \<not> isl res"
      and run: "in_RetryJob (pg_ops svc) (cw_env w) k t = (res, t')" by blast
    obtain res0 where "pg_RedriveDead alone (cw_env w) k t = (res0, t')" "isl res0 = isl res"
      using in_change_res(1)[OF run] unfolding pg_ops_fields by blast
    then have "asked_change svc (cw_env w) (''retry'' # args) t (code = 0) t'" unfolding asked_change_def using a by blast
    then show ?thesis using a(3) by blast
  qed blast
qed

lemma cancel_ok: "command_ok svc (cw_env w) (''cancel'' # args) t (withInspector w cfg (runCancel (pg_ops svc) tc (cw_env w) args j) t)"
proof (rule with_change)
  fix code out t'
  assume "runCancel (pg_ops svc) tc (cw_env w) args j t = ((code, out), t')"
  from runOnJob_end[OF this[unfolded runCancel_def]]
  show "t' = t \<and> code = 2 \<or> code \<noteq> 2 \<and> asked_change svc (cw_env w) (''cancel'' # args) t (code = 0) t'"
  proof
    assume "\<exists>a k res. args = [a] \<and> parseJobID a = Inr k \<and> in_CancelJob (pg_ops svc) (cw_env w) k t = (res, t') \<and>
        code \<noteq> 2 \<and> (code = 0 \<longrightarrow> \<not> isl res)"
    then obtain a k res where a: "args = [a]" "parseJobID a = Inr k" "code \<noteq> 2" "code = 0 \<longrightarrow> \<not> isl res"
      and run: "in_CancelJob (pg_ops svc) (cw_env w) k t = (res, t')" by blast
    obtain res0 where "pg_OperatorCancel alone (cw_env w) k t = (res0, t')" "isl res0 = isl res"
      using in_change_res(2)[OF run] unfolding pg_ops_fields by blast
    then have "asked_change svc (cw_env w) (''cancel'' # args) t (code = 0) t'" unfolding asked_change_def using a by blast
    then show ?thesis using a(3) by blast
  qed blast
qed

lemma enqueue_ok: "command_ok svc (cw_env w) (''enqueue'' # args) t (withInspector w cfg (runEnqueue (pg_ops svc) tc (cw_env w) args j) t)"
proof (rule with_change)
  fix code out t'
  assume "runEnqueue (pg_ops svc) tc (cw_env w) args j t = ((code, out), t')"
  from runEnqueue_end[OF this]
  show "t' = t \<and> code = 2 \<or> code \<noteq> 2 \<and> asked_change svc (cw_env w) (''enqueue'' # args) t (code = 0) t'"
    unfolding pg_ops_fields asked_change_def by blast
qed

lemma web_ok: "command_ok svc e (''web'' # args) t (withInspector w cfg (runWeb (pg_ops svc) ww args) t)"
proof -
  obtain code out opened t' where r: "withInspector w cfg (runWeb (pg_ops svc) ww args) t = ((code, out), opened, t')" by (metis surj_pair)
  have "code = 2 \<Longrightarrow> t' = t" using withInspector_end[OF r] by (auto dest: runWeb_usage)
  moreover have "opened = None \<Longrightarrow> t' = t"
    using r by (auto simp: withInspector_def split: sum.splits if_splits prod.splits)
  ultimately show ?thesis unfolding command_ok_def r by simp
qed

lemma untouched_ok:
  assumes "rest = [] \<or> hd rest \<notin> {''retry'', ''cancel'', ''enqueue''} \<or> code \<noteq> 0"
  shows "command_ok svc e rest t ((code, out), None, t)"
  using assms unfolding command_ok_def by auto

lemma choose_command:
  obtains (version) A | (stats) B | (jobs) C | (retry) D | (cancel) E | (enqueue) F | (web) G
    | (other) "\<not> A" "\<not> B" "\<not> C" "\<not> D" "\<not> E" "\<not> F" "\<not> G"
  by blast

lemma run_command_ok:
  "command_ok svc (cw_env w) (command # args) t (run_command (pg_ops svc) w cfg command args t)"
proof (cases rule: choose_command[where A = "command = ''version''" and B = "command = ''stats''" and C = "command = ''jobs''"
      and D = "command = ''retry''" and E = "command = ''cancel''" and F = "command = ''enqueue''" and G = "command = ''web''"])
  case version
  show ?thesis unfolding run_command_def Let_def version by (simp add: untouched_ok)
next
  case stats
  have "command_ok svc (cw_env w) (''stats'' # args) t (withInspector w cfg (runStats (pg_ops svc) (cw_codec w) (cw_env w) (gc_json cfg)) t)"
    by (rule with_read[OF pg_operator.runStats_reads refl]) simp
  then show ?thesis unfolding run_command_def Let_def stats by simp
next
  case jobs
  show ?thesis
  proof (cases args)
    case Nil
    then show ?thesis unfolding run_command_def Let_def jobs by (simp add: untouched_ok)
  next
    case (Cons sub args')
    have read: "command_ok svc (cw_env w) (''jobs'' # args) t
        (withInspector w cfg (runJobsList (pg_ops svc) (cw_codec w) (cw_env w) args' (gc_json cfg)) t)"
      by (rule with_read[OF pg_operator.runJobsList_reads refl]) simp
    have none: "command_ok svc (cw_env w) (''jobs'' # args) t ((2, []), None, t)" by (rule untouched_ok) simp
    have "run_command (pg_ops svc) w cfg ''jobs'' args t = (if sub \<noteq> ''list'' then ((2, []), None, t)
        else withInspector w cfg (runJobsList (pg_ops svc) (cw_codec w) (cw_env w) args' (gc_json cfg)) t)"
      unfolding run_command_def Let_def Cons by simp
    then show ?thesis unfolding jobs using read none by (cases "sub = ''list''") simp_all
  qed
next
  case retry
  then show ?thesis using retry_ok[of svc w args t cfg] unfolding run_command_def Let_def by simp
next
  case cancel
  then show ?thesis using cancel_ok[of svc w args t cfg] unfolding run_command_def Let_def by simp
next
  case enqueue
  then show ?thesis using enqueue_ok[of svc w args t cfg] unfolding run_command_def Let_def by simp
next
  case web
  have none: "command_ok svc (cw_env w) (''web'' # args) t ((2, []), None, t)" by (rule untouched_ok) simp
  show ?thesis unfolding web run_command_def Let_def using none web_ok by (cases "gc_json cfg") simp_all
next
  case other
  then have "run_command (pg_ops svc) w cfg command args t = ((2, []), None, t)"
    unfolding run_command_def Let_def by simp
  then show ?thesis by (simp add: untouched_ok)
qed


text \<open>The texts an operator passes to \<^verbatim>\<open>enqueue\<close> reach the store as they are, unless one of them looks
  like a global flag.\<close>

lemma enqueue_verbatim:
  assumes "classify kind = NotGlobal" "classify queue = NotGlobal" "classify args = NotGlobal"
    and "kind \<noteq> []" "tc_raw (cw_codec w) args = Valid v"
    and "resolveDSN [] (cw_getenv w) = Inr dsn" "cw_open w dsn = None"
  shows "snd (snd (cli_run ops w [''enqueue'', ''--kind'', kind, ''--queue'', queue, ''--args'', args] s)) =
    snd (drv_Insert ops (cw_env w) \<lparr>ip_Kind = kind, ip_Queue = (if queue \<noteq> [] then queue else defaultQueue),
      ip_Args = Valid v, ip_ScheduledAt = 0, ip_UniqueKey = []\<rparr> s)"
proof -
  have lits: "classify ''enqueue'' = NotGlobal" "classify ''--kind'' = NotGlobal" "classify ''--queue'' = NotGlobal"
    "classify ''--args'' = NotGlobal" by code_simp+
  let ?cfg = "\<lparr>gc_database = [], gc_json = False, gc_version = False, gc_help = False\<rparr>"
  let ?args = "[''--kind'', kind, ''--queue'', queue, ''--args'', args]"
  have peel: "peelGlobals (''enqueue'' # ?args) = Inr (?cfg, ''enqueue'' # ?args)"
    unfolding peelGlobals_def peel.simps lits assms(1-3) global_token.case by simp
  let ?fs = "[(''kind'', FString kind), (''queue'', FString queue), (''args'', FString args)]"
  have "parse_flags enqueue_flags ?args = parse_flags ?fs []"
    using parse_string_flag[of enqueue_flags "''kind''" "[]" kind "[''--queue'', queue, ''--args'', args]"]
      parse_string_flag[of "[(''kind'', FString kind), (''queue'', FString []), (''args'', FString ''{}'')]" "''queue''" "[]" queue "[''--args'', args]"]
      parse_string_flag[of "[(''kind'', FString kind), (''queue'', FString queue), (''args'', FString ''{}'')]" "''args''" "''{}''" args "[]"]
    by (simp add: enqueue_flags_def)
  also have "\<dots> = Inr (?fs, [])" by (subst parse_flags.simps) (simp add: parse_one_def)
  finally have flags: "parse_flags enqueue_flags ?args = Inr (?fs, [])" .
  have get: "flag_string ?fs ''kind'' = kind" "flag_string ?fs ''queue'' = queue" "flag_string ?fs ''args'' = args"
    by (simp_all add: flag_string_def)
  let ?p = "\<lparr>ip_Kind = kind, ip_Queue = (if queue \<noteq> [] then queue else defaultQueue),
      ip_Args = Valid v, ip_ScheduledAt = 0, ip_UniqueKey = []\<rparr>"
  let ?opts = "if queue \<noteq> [] then Some \<lparr>io_Queue = queue, io_ScheduledAt = 0, io_UniqueKey = []\<rparr> else None"
  obtain res s1 where ins: "drv_Insert ops (cw_env w) ?p s = (res, s1)" by fastforce
  have enq: "snd (in_Enqueue ops (cw_env w) kind (Valid v) ?opts s) = s1"
    using ins assms(4) by (cases res) (auto simp: in_Enqueue_def Let_def)
  have "snd (runEnqueue ops (cw_codec w) (cw_env w) ?args False s) = s1"
    unfolding runEnqueue_def flags sum.case prod.case get assms(5) Let_def using assms(4) enq
    by (auto split: prod.split sum.split)
  moreover have "cli_run ops w (''enqueue'' # ?args) s =
      withInspector w ?cfg (runEnqueue ops (cw_codec w) (cw_env w) ?args False) s"
    unfolding cli_run_def peel sum.case prod.case run_command_def Let_def by simp
  ultimately show ?thesis using assms(6,7) ins by (simp add: withInspector_def case_prod_beta)
qed

end
