(* ===== verification/Bench.thy ===== *)
theory Bench
  imports Cli "HOL-Library.Multiset"
begin

text \<open>
  The benchmark (\<^verbatim>\<open>cmd/drover-bench\<close>): its arguments, the inserts in batches, the worker that counts
  and times the jobs, and the percentiles of the report.
\<close>

section \<open>Arguments\<close>

record bench_config =
  bc_dsn :: string
  bc_mode :: string
  bc_jobs :: int
  bc_batch :: int
  bc_concurrency :: int
  bc_queue :: string
  bc_notify :: bool

definition modeEnqueue :: string where "modeEnqueue = ''enqueue''"
definition modeDrain :: string where "modeDrain = ''drain''"

definition bench_flags :: flags where
  "bench_flags = [(''database'', FString []), (''mode'', FString modeDrain), (''jobs'', FInt 10000), (''batch'', FInt 256),
     (''concurrency'', FInt 10), (''queue'', FString ''default''), (''notify'', FBool False)]"

text \<open>The exit code of a run that ends with its arguments, or the configuration it executes.\<close>

definition bench_configure :: "(string \<Rightarrow> string) option \<Rightarrow> string list \<Rightarrow> int + bench_config" where
  "bench_configure getenv args =
     (case parse_flags bench_flags args of
        Inl err \<Rightarrow> Inl (if err = FlagHelp then 0 else 2)
      | Inr (fs, rest) \<Rightarrow>
          if rest \<noteq> [] then Inl 2
          else if flag_int fs ''jobs'' < 1 then Inl 2
          else if flag_int fs ''batch'' < 1 then Inl 2
          else if flag_string fs ''mode'' \<noteq> modeEnqueue \<and> flag_string fs ''mode'' \<noteq> modeDrain then Inl 2
          else case resolveDSN (flag_string fs ''database'') getenv of
            Inl err \<Rightarrow> Inl 2
          | Inr dsn \<Rightarrow>
              Inr \<lparr>bc_dsn = dsn, bc_mode = flag_string fs ''mode'', bc_jobs = flag_int fs ''jobs'', bc_batch = flag_int fs ''batch'',
                   bc_concurrency = flag_int fs ''concurrency'', bc_queue = flag_string fs ''queue'', bc_notify = flag_bool fs ''notify''\<rparr>)"

section \<open>Inserting the jobs\<close>

definition noopArgs :: job_args where
  "noopArgs = \<lparr>ja_Kind = ''noop'', ja_Marshal = Inr (JObj [])\<rparr>"

type_synonym 's inserter = "nat \<Rightarrow> (job_args option \<times> insert_opts option) list \<Rightarrow> 's \<Rightarrow> (go_error + job_row list) \<times> 's"

text \<open>
  The loop over the batches; \<open>now i\<close> is the clock after the \<open>i\<close>-th insert. Nothing is returned for a
  batch size that is not positive: the loop of the source then never ends, or panics. Counts large
  enough to overflow its index cannot be allocated.
\<close>

function insert_batches ::
  "'s inserter \<Rightarrow> (nat \<Rightarrow> time) \<Rightarrow> insert_opts option \<Rightarrow> int \<Rightarrow> int \<Rightarrow> nat \<Rightarrow> int \<Rightarrow> job_row list \<Rightarrow> (int \<times> time) list \<Rightarrow> 's \<Rightarrow>
   (go_error option \<times> job_row list \<times> (int \<times> time) list \<times> 's) option" where
  "insert_batches ins now opts njobs batch i start out insertedAt s =
     (if start \<ge> njobs then Some (None, out, insertedAt, s)
      else if batch \<le> 0 then None
      else
        let n = (if njobs - start < batch then njobs - start else batch);
            items = replicate (nat n) (Some noopArgs, opts)
        in case ins i items s of
             (Inl err, s') \<Rightarrow> Some (Some err, out, insertedAt, s')
           | (Inr rows, s') \<Rightarrow>
               insert_batches ins now opts njobs batch (Suc i) (start + batch) (out @ rows)
                 (fold (\<lambda>row. AList.update (ID row) (now i)) rows insertedAt) s')"
  by auto
termination
  by (relation "measure (\<lambda>(ins, now, opts, njobs, batch, i, start, out, insertedAt, s). nat (njobs - start))") auto

declare insert_batches.simps [simp del]

definition insertNoopJobs ::
  "'s inserter \<Rightarrow> (nat \<Rightarrow> time) \<Rightarrow> int \<Rightarrow> int \<Rightarrow> string \<Rightarrow> (int \<times> time) list \<Rightarrow> 's \<Rightarrow>
   (go_error option \<times> job_row list \<times> (int \<times> time) list \<times> 's) option" where
  "insertNoopJobs ins now njobs batch queue insertedAt s =
     (let opts = (if queue \<noteq> [] \<and> queue \<noteq> ''default''
           then Some \<lparr>io_Queue = queue, io_ScheduledAt = 0, io_UniqueKey = []\<rparr> else None)
      in insert_batches ins now opts njobs batch 0 0 [] insertedAt s)"

section \<open>The worker\<close>

text \<open>
  The counters the calls of \<^verbatim>\<open>Work\<close> share; a slot of the latencies that was never written is None here
  and zero in the source. \<open>nw_closed\<close> counts how often the channel was closed: a second time panics.
\<close>

record noop_worker =
  nw_latN :: nat
  nw_done :: nat
  nw_latencies :: "duration option list"
  nw_closed :: nat

definition newNoopWorker :: "nat \<Rightarrow> noop_worker" where
  "newNoopWorker n = \<lparr>nw_latN = 0, nw_done = 0, nw_latencies = replicate n None, nw_closed = 0\<rparr>"

text \<open>Where a call of \<^verbatim>\<open>Work\<close> is: at its start with a job, before it takes a slot, before it writes it,
  and before it counts itself done. The calls in progress are a multiset.\<close>

datatype work_at = AtStart int | AtTake time | AtWrite nat time | AtCount

definition take_slot :: "noop_worker \<Rightarrow> nat \<times> noop_worker" where
  "take_slot w = (nw_latN w, w\<lparr>nw_latN := nw_latN w + 1\<rparr>)"

definition write_slot :: "nat \<Rightarrow> duration \<Rightarrow> noop_worker \<Rightarrow> noop_worker" where
  "write_slot i d w = (if i < length (nw_latencies w) then w\<lparr>nw_latencies := (nw_latencies w)[i := Some d]\<rparr> else w)"

definition count_done :: "nat \<Rightarrow> noop_worker \<Rightarrow> noop_worker" where
  "count_done target w =
     (let n = nw_done w + 1
      in w\<lparr>nw_done := n, nw_closed := (if n = target then nw_closed w + 1 else nw_closed w)\<rparr>)"

text \<open>Any call may take the next step, and new calls may begin at any time.\<close>

inductive noop_step ::
  "(int \<rightharpoonup> time) \<Rightarrow> nat \<Rightarrow> noop_worker \<times> work_at multiset \<Rightarrow> noop_worker \<times> work_at multiset \<Rightarrow> bool"
  for insertedAt :: "int \<rightharpoonup> time" and target :: nat where
  begin_call: "noop_step insertedAt target (w, M) (w, add_mset (AtStart k) M)"
| foreign_job: "insertedAt k = None \<Longrightarrow> noop_step insertedAt target (w, add_mset (AtStart k) M) (w, M)"
| found_job: "insertedAt k = Some t \<Longrightarrow> noop_step insertedAt target (w, add_mset (AtStart k) M) (w, add_mset (AtTake t) M)"
| take_slot: "take_slot w = (i, w') \<Longrightarrow> noop_step insertedAt target (w, add_mset (AtTake t) M) (w', add_mset (AtWrite i t) M)"
| write_slot: "noop_step insertedAt target (w, add_mset (AtWrite i t) M) (write_slot i (now - t) w, add_mset AtCount M)"
| count_done: "noop_step insertedAt target (w, add_mset AtCount M) (count_done target w, M)"

section \<open>Percentiles\<close>

text \<open>Over the reals, where the source computes the rank in floating point.\<close>

definition percentile :: "duration list \<Rightarrow> real \<Rightarrow> duration" where
  "percentile sorted_list p =
     (if sorted_list = [] then 0
      else
        let rank = \<lceil>p / 100 * real (length sorted_list)\<rceil> - 1;
            rank = (if rank < 0 then 0 else rank);
            rank = (if rank \<ge> int (length sorted_list) then int (length sorted_list) - 1 else rank)
        in sorted_list ! nat rank)"

definition reportPercentiles :: "duration list \<Rightarrow> duration \<times> duration \<times> duration" where
  "reportPercentiles latencies =
     (if latencies = [] then (0, 0, 0)
      else let s = sort latencies in (percentile s 50, percentile s 95, percentile s 99))"

section \<open>What they guarantee\<close>

lemma fold_update_keys:
  "fst ` set (fold (\<lambda>row. AList.update (ID row) t) rows al) = fst ` set al \<union> ID ` set rows"
  by (induction rows arbitrary: al) (auto simp: dom_update simp flip: dom_map_of_conv_image_fst)

text \<open>What the benchmark relies on when it inserts: one row for each item.\<close>

locale batch_inserter =
  fixes ins :: "'s inserter"
  assumes one_row_each: "ins i items s = (Inr rows, s') \<Longrightarrow> length rows = length items"
begin

lemma insert_batches_all:
  assumes "0 < batch" "0 \<le> start" "int (length out) = min start njobs" "fst ` set insertedAt = A \<union> ID ` set out"
  shows "\<exists>err out' insertedAt' s'.
    insert_batches ins now opts njobs batch i start out insertedAt s = Some (err, out', insertedAt', s') \<and>
    fst ` set insertedAt' = A \<union> ID ` set out' \<and> (err = None \<longrightarrow> int (length out') = njobs)"
  using assms
proof (induction "nat (njobs - start)" arbitrary: i start out insertedAt s rule: less_induct)
  case less
  show ?case
  proof (cases "start \<ge> njobs")
    case True
    then have "insert_batches ins now opts njobs batch i start out insertedAt s = Some (None, out, insertedAt, s)"
      by (subst insert_batches.simps) simp
    then show ?thesis using less.prems True by simp
  next
    case False
    define n where "n = (if njobs - start < batch then njobs - start else batch)"
    obtain res s1 where call: "ins i (replicate (nat n) (Some noopArgs, opts)) s = (res, s1)" by fastforce
    have go: "insert_batches ins now opts njobs batch i start out insertedAt s =
        (case (res, s1) of (Inl err, s') \<Rightarrow> Some (Some err, out, insertedAt, s')
          | (Inr rows, s') \<Rightarrow> insert_batches ins now opts njobs batch (Suc i) (start + batch) (out @ rows)
              (fold (\<lambda>row. AList.update (ID row) (now i)) rows insertedAt) s')"
      using False less.prems(1) call by (subst insert_batches.simps) (simp add: Let_def n_def[symmetric])
    show ?thesis
    proof (cases res)
      case (Inl err)
      then show ?thesis using go less.prems(4) by simp
    next
      case (Inr rows)
      have len: "int (length rows) = n" using one_row_each[OF call[unfolded Inr]] False less.prems(1) by (simp add: n_def)
      have "\<exists>err out' insertedAt' s'.
          insert_batches ins now opts njobs batch (Suc i) (start + batch) (out @ rows)
            (fold (\<lambda>row. AList.update (ID row) (now i)) rows insertedAt) s1 = Some (err, out', insertedAt', s') \<and>
          fst ` set insertedAt' = A \<union> ID ` set out' \<and> (err = None \<longrightarrow> int (length out') = njobs)"
      proof (rule less.hyps)
        show "nat (njobs - (start + batch)) < nat (njobs - start)" using False less.prems(1) by simp
        show "int (length (out @ rows)) = min (start + batch) njobs" using len less.prems(1,3) False by (auto simp: n_def)
        show "fst ` set (fold (\<lambda>row. AList.update (ID row) (now i)) rows insertedAt) = A \<union> ID ` set (out @ rows)"
          using less.prems(4) by (auto simp: fold_update_keys)
      qed (use less.prems in simp_all)
      then show ?thesis unfolding go Inr by simp
    qed
  qed
qed

end

text \<open>Both drivers give one row for each item, whatever goes wrong.\<close>

lemma insertParamsForMany_length: "insertParamsForMany items = Inr batch \<Longrightarrow> length batch = length items"
  by (induction items arbitrary: batch) (auto split: sum.splits)

lemma pendingRows_length: "pendingRows now s pending batch = Inr rows \<Longrightarrow> length rows = length pending + length batch"
  by (induction batch arbitrary: pending) (auto split: if_splits)

lemma mem_InsertMany_length: "mem_InsertMany now batch s = (Inr rows, s') \<Longrightarrow> length rows = length batch"
  using pendingRows_length[of now s "[]" batch] by (auto simp: mem_InsertMany_def Let_def split: if_splits sum.splits)

lemma copy_rows_length: "copy_rows svc i batch = Inr staging \<Longrightarrow> length staging = length batch"
  by (induction batch arbitrary: i staging) (auto split: option.splits sum.splits)

lemma insert_staged_length: "insert_staged now xs t = (Inr js, t') \<Longrightarrow> length js = length xs"
  by (induction xs arbitrary: t js t') (auto split: sum.splits prod.splits)

lemma run_stmt_Inr: "run_stmt gap env i stmt t = (Inr x, t') \<Longrightarrow> \<exists>t1 t2. stmt t1 = (Inr x, t2)"
  by (cases "se_fault env i") (auto simp: run_stmt_def split: prod.splits)

lemma insertMany_length:
  assumes "insertMany svc gap env i batch t = (Inr rows, t')"
  shows "length rows = length batch"
proof -
  obtain t1 staging t3 js t4
    where copy: "run_stmt gap env (i + 2) (\<lambda>t. (copy_rows svc 0 batch, t)) t1 = (Inr staging, t3)"
      and ins: "run_stmt gap env (i + 3) (q_InsertJobsFromStaging (se_now env i) staging) t3 = (Inr js, t4)"
      and rows: "rows = map rowFromDB js"
    using assms unfolding insertMany_def by (auto split: prod.splits sum.splits)
  have "copy_rows svc 0 batch = Inr staging" using run_stmt_Inr[OF copy] by auto
  moreover obtain t5 t6 where "q_InsertJobsFromStaging (se_now env i) staging t5 = (Inr js, t6)" using run_stmt_Inr[OF ins] by blast
  then have "length js = length staging"
    by (auto simp: q_InsertJobsFromStaging_def dest: insert_staged_length split: prod.splits sum.splits)
  ultimately show ?thesis using rows copy_rows_length by simp
qed

lemma pg_InsertMany_length:
  assumes "pg_InsertMany svc env batch t = (Inr rows, t')"
  shows "length rows = length batch"
proof (cases "batch = []")
  case False
  then obtain t1 where "insertMany svc (\<lambda>_ t. t) env 1 batch t = (Inr rows, t1)"
    using assms by (auto simp: pg_InsertMany_def split: prod.splits sum.splits fault.splits if_splits)
  then show ?thesis by (rule insertMany_length)
qed (use assms in \<open>simp add: pg_InsertMany_def\<close>)

lemma c_InsertMany_length:
  assumes "\<And>batch s rows s'. drv_InsertMany ops e batch s = (Inr rows, s') \<Longrightarrow> length rows = length batch"
    and "c_InsertMany ops c notifier e items st = (Inr rows, st')"
  shows "length rows = length items"
proof (cases "insertParamsForMany items")
  case (Inr batch)
  show ?thesis
  proof (cases "batch = []")
    case True
    then show ?thesis using assms(2) Inr insertParamsForMany_length[OF Inr] by (simp add: c_InsertMany_def)
  next
    case False
    obtain rows0 s' where "drv_InsertMany ops e batch (snd st) = (Inr rows0, s')" "rows = rowsFromDriver rows0"
      using assms(2) Inr False by (auto simp: c_InsertMany_def split: prod.splits sum.splits)
    then show ?thesis using assms(1) insertParamsForMany_length[OF Inr] by (simp add: rowsFromDriver_def)
  qed
qed (use assms(2) in \<open>simp add: c_InsertMany_def\<close>)

interpretation mem_bench: batch_inserter "\<lambda>i. c_InsertMany mem_ops c notifier (env i)" for c notifier env
  by unfold_locales (rule c_InsertMany_length[of mem_ops], auto simp: mem_ops_def dest: mem_InsertMany_length)

interpretation pg_bench: batch_inserter "\<lambda>i. c_InsertMany (pg_ops svc) c notifier (env i)" for svc c notifier env
  by unfold_locales (rule c_InsertMany_length[of "pg_ops svc"], auto simp: pg_ops_def dest: pg_InsertMany_length)

text \<open>The inserts of a benchmark return, and if nothing failed every job has its row and its time.\<close>

lemma insertNoopJobs_all:
  assumes "1 \<le> njobs" "1 \<le> batch"
  shows "\<exists>err out insertedAt st'.
    insertNoopJobs (\<lambda>i. c_InsertMany (pg_ops svc) c notifier (env i)) now njobs batch queue [] st = Some (err, out, insertedAt, st') \<and>
    fst ` set insertedAt = ID ` set out \<and> (err = None \<longrightarrow> int (length out) = njobs)"
proof -
  have "int (length ([] :: job_row list)) = min 0 njobs" using assms(1) by simp
  note all = pg_bench.insert_batches_all[OF _ order_refl this, of batch "[]" "{}"]
  show ?thesis unfolding insertNoopJobs_def Let_def using all assms by simp
qed

fun is_write :: "work_at \<Rightarrow> bool" where
  "is_write (AtWrite i t) = True"
| "is_write _ = False"

text \<open>Every slot taken is written or about to be, and every call that took one is counted or about to
  be counted.\<close>

definition noop_inv :: "nat \<Rightarrow> noop_worker \<times> work_at multiset \<Rightarrow> bool" where
  "noop_inv target st =
     (let (w, M) = st
      in length (nw_latencies w) = target \<and>
         nw_latN w = nw_done w + size (filter_mset is_write M) + count M AtCount \<and>
         (\<forall>i < nw_latN w. i < target \<longrightarrow> nw_latencies w ! i \<noteq> None \<or> (\<exists>t. AtWrite i t \<in># M)) \<and>
         nw_closed w = (if 0 < target \<and> target \<le> nw_done w then 1 else 0))"

lemma noop_inv_init: "noop_inv target (newNoopWorker target, {#})"
  by (auto simp: noop_inv_def newNoopWorker_def)

lemma noop_inv_step: "noop_step insertedAt target st st' \<Longrightarrow> noop_inv target st \<Longrightarrow> noop_inv target st'"
proof (induction rule: noop_step.induct)
  case (take_slot w i w' t M)
  then have w': "i = nw_latN w" "w' = w\<lparr>nw_latN := nw_latN w + 1\<rparr>" by (auto simp: take_slot_def)
  show ?case using take_slot(2) unfolding w' by (auto simp: noop_inv_def less_Suc_eq)
next
  case (write_slot w i t M now)
  let ?w = "write_slot i (now - t) w"
  have same: "nw_latN ?w = nw_latN w" "nw_done ?w = nw_done w" "nw_closed ?w = nw_closed w"
    "length (nw_latencies ?w) = length (nw_latencies w)" by (simp_all add: write_slot_def)
  have held: "nw_latencies ?w ! j \<noteq> None \<or> (\<exists>t. AtWrite j t \<in># add_mset AtCount M)" if "j < nw_latN w" "j < target" for j
  proof -
    have len: "target = length (nw_latencies w)" using write_slot by (simp add: noop_inv_def)
    have "nw_latencies w ! j \<noteq> None \<or> (\<exists>t'. AtWrite j t' \<in># add_mset (AtWrite i t) M)"
      using write_slot that unfolding noop_inv_def by simp
    then show ?thesis using that(2) len by (cases "i = j") (auto simp: write_slot_def nth_list_update)
  qed
  show ?case using write_slot held by (simp add: noop_inv_def same)
next
  case (count_done w M)
  then show ?case by (auto simp: noop_inv_def count_done_def Let_def)
qed (auto simp: noop_inv_def)

lemma noop_inv_reach:
  "(noop_step insertedAt target)\<^sup>*\<^sup>* (newNoopWorker target, {#}) st \<Longrightarrow> noop_inv target st"
  by (induction rule: rtranclp_induct) (auto intro: noop_inv_init noop_inv_step)

text \<open>C36: however the calls of the benchmark's worker interleave, the channel that ends the drain is
  closed exactly when the last job has been counted, never twice, which would panic, and if no job was
  delivered twice every latency has been written by then.\<close>

theorem bench_drain_is_complete:
  assumes "(noop_step insertedAt target)\<^sup>*\<^sup>* (newNoopWorker target, {#}) (w, M)" "0 < target"
  shows "nw_closed w \<le> 1 \<and> (nw_closed w = 1 \<longleftrightarrow> target \<le> nw_done w) \<and>
    (nw_closed w = 1 \<and> nw_latN w \<le> target \<longrightarrow> (\<forall>i < target. nw_latencies w ! i \<noteq> None))"
proof -
  note inv = noop_inv_reach[OF assms(1)]
  have closed: "nw_closed w = (if target \<le> nw_done w then 1 else 0)" using inv assms(2) by (simp add: noop_inv_def)
  have "nw_latencies w ! i \<noteq> None" if "nw_closed w = 1" "nw_latN w \<le> target" "i < target" for i
  proof -
    have d: "target \<le> nw_done w" by (metis closed that(1) zero_neq_one)
    have "nw_latN w = nw_done w + size (filter_mset is_write M) + count M AtCount" using inv by (simp add: noop_inv_def)
    then have size: "size (filter_mset is_write M) = 0" "nw_latN w = target" using d that(2) by linarith+
    have "\<nexists>t. AtWrite i t \<in># M"
    proof
      assume "\<exists>t. AtWrite i t \<in># M"
      then obtain t where "AtWrite i t \<in># filter_mset is_write M" by auto
      then show False using size(1) by auto
    qed
    then show ?thesis using inv size(2) that(3) by (auto simp: noop_inv_def)
  qed
  then show ?thesis using closed by auto
qed

text \<open>Two calls that overlap: the second takes its slot before the first is counted.\<close>

theorem bench_drain_is_complete_witness:
  "\<exists>w. (noop_step (\<lambda>k. Some 0) 2)\<^sup>*\<^sup>* (newNoopWorker 2, {#}) (w, {#}) \<and> nw_closed w = 1 \<and> nw_latencies w = [Some 5, Some 7]"
proof -
  let ?s = "noop_step (\<lambda>k. Some 0) 2"
  let ?w = "\<lambda>l d xs c. \<lparr>nw_latN = l, nw_done = d, nw_latencies = xs, nw_closed = c\<rparr> :: noop_worker"
  have run: "?s\<^sup>*\<^sup>* (newNoopWorker 2, {#}) (?w 2 2 [Some 5, Some 7] 1, {#})"
  proof -
    have 1: "?s (newNoopWorker 2, {#}) (newNoopWorker 2, {#AtStart 1#})" by (rule begin_call)
    have 2: "?s (newNoopWorker 2, {#AtStart 1#}) (newNoopWorker 2, {#AtTake 0#})" by (rule found_job) simp
    have 3: "?s (newNoopWorker 2, {#AtTake 0#}) (newNoopWorker 2, {#AtStart 2, AtTake 0#})" by (rule begin_call)
    have 4: "?s (newNoopWorker 2, {#AtStart 2, AtTake 0#}) (newNoopWorker 2, {#AtTake 0, AtTake 0#})" by (rule found_job) simp
    have 5: "?s (newNoopWorker 2, {#AtTake 0, AtTake 0#}) (?w 1 0 [None, None] 0, {#AtWrite 0 0, AtTake 0#})"
      by (rule take_slot) (simp add: take_slot_def newNoopWorker_def numeral_2_eq_2)
    have "?s (?w 1 0 [None, None] 0, {#AtTake 0, AtWrite 0 0#}) (?w 2 0 [None, None] 0, {#AtWrite 1 0, AtWrite 0 0#})"
      by (rule take_slot) (simp add: take_slot_def)
    then have 6: "?s (?w 1 0 [None, None] 0, {#AtWrite 0 0, AtTake 0#}) (?w 2 0 [None, None] 0, {#AtWrite 0 0, AtWrite 1 0#})"
      by (simp add: add_mset_commute)
    have 7: "?s (?w 2 0 [None, None] 0, {#AtWrite 0 0, AtWrite 1 0#}) (?w 2 0 [Some 5, None] 0, {#AtCount, AtWrite 1 0#})"
      using noop_step.write_slot[of "\<lambda>k. Some 0" 2 "?w 2 0 [None, None] 0" 0 0 "{#AtWrite 1 0#}" 5] by (simp add: write_slot_def)
    have 8: "?s (?w 2 0 [Some 5, None] 0, {#AtCount, AtWrite 1 0#}) (?w 2 1 [Some 5, None] 0, {#AtWrite 1 0#})"
      using noop_step.count_done[of "\<lambda>k. Some 0" 2 "?w 2 0 [Some 5, None] 0" "{#AtWrite 1 0#}"] by (simp add: count_done_def)
    have 9: "?s (?w 2 1 [Some 5, None] 0, {#AtWrite 1 0#}) (?w 2 1 [Some 5, Some 7] 0, {#AtCount#})"
      using noop_step.write_slot[of "\<lambda>k. Some 0" 2 "?w 2 1 [Some 5, None] 0" 1 0 "{#}" 7] by (simp add: write_slot_def)
    have 10: "?s (?w 2 1 [Some 5, Some 7] 0, {#AtCount#}) (?w 2 2 [Some 5, Some 7] 1, {#})"
      using noop_step.count_done[of "\<lambda>k. Some 0" 2 "?w 2 1 [Some 5, Some 7] 0" "{#}"] by (simp add: count_done_def numeral_2_eq_2)
    show ?thesis using 1 2 3 4 5 6 7 8 9 10 by (meson converse_rtranclp_into_rtranclp rtranclp.rtrancl_refl)
  qed
  have "nw_closed (?w 2 2 [Some 5, Some 7] 1) \<le> 1 \<and> (\<forall>i < 2. nw_latencies (?w 2 2 [Some 5, Some 7] 1) ! i \<noteq> None)"
    using bench_drain_is_complete[OF run] by simp
  then show ?thesis using run by (intro exI[of _ "?w 2 2 [Some 5, Some 7] 1"]) simp
qed

lemma sorted_rank:
  assumes "sorted xs" "r < length xs"
  shows "Suc r \<le> length (filter (\<lambda>x. x \<le> xs ! r) xs)" "length (filter (\<lambda>x. x < xs ! r) xs) \<le> r"
proof -
  have low: "\<forall>x \<in> set (take (Suc r) xs). x \<le> xs ! r"
    using assms by (auto simp: in_set_conv_nth less_Suc_eq_le sorted_nth_mono)
  have high: "\<forall>x \<in> set (drop r xs). \<not> x < xs ! r"
    using assms by (auto simp: in_set_conv_nth not_less sorted_nth_mono)
  have "Suc r = length (filter (\<lambda>x. x \<le> xs ! r) (take (Suc r) xs))"
    using low assms(2) by (simp add: filter_id_conv)
  also have "\<dots> \<le> length (filter (\<lambda>x. x \<le> xs ! r) (take (Suc r) xs @ drop (Suc r) xs))" by (simp only: filter_append length_append)
  finally show "Suc r \<le> length (filter (\<lambda>x. x \<le> xs ! r) xs)" by simp
  have "length (filter (\<lambda>x. x < xs ! r) (take r xs @ drop r xs)) \<le> r"
    using high length_filter_le[of "\<lambda>x. x < xs ! r" "take r xs"] assms(2)
    by (simp only: filter_append length_append) (simp add: filter_False)
  then show "length (filter (\<lambda>x. x < xs ! r) xs) \<le> r" by simp
qed

text \<open>A percentile is the smallest latency that at least so many percent of the jobs did not exceed.\<close>

lemma percentile_nearest_rank:
  assumes "sorted xs" "xs \<noteq> []" "0 < p" "p \<le> 100"
  shows "percentile xs p \<in> set xs \<and>
    p / 100 * real (length xs) \<le> real (length (filter (\<lambda>x. x \<le> percentile xs p) xs)) \<and>
    real (length (filter (\<lambda>x. x < percentile xs p) xs)) < p / 100 * real (length xs)"
proof -
  let ?q = "p / 100 * real (length xs)"
  have n: "0 < length xs" using assms(2) by simp
  have q: "0 < ?q" "?q \<le> real (length xs)" using assms(3,4) n by (simp_all add: mult_left_le_one_le)
  have c: "0 < \<lceil>?q\<rceil>" "\<lceil>?q\<rceil> \<le> int (length xs)" using q by (simp, simp add: ceiling_le_iff)
  define r where "r = nat (\<lceil>?q\<rceil> - 1)"
  have r: "r < length xs" "int r = \<lceil>?q\<rceil> - 1" using c unfolding r_def by linarith+
  have v: "percentile xs p = xs ! r" using assms(2) c by (simp add: percentile_def Let_def r_def)
  have up: "?q \<le> real (Suc r)" using r(2) le_of_int_ceiling[of ?q] by linarith
  have down: "real r < ?q" using r(2) ceiling_correct[of ?q] by linarith
  show ?thesis using sorted_rank[OF assms(1) r(1)] up down r(1) unfolding v by (auto simp: order_trans[OF up] intro: le_less_trans[OF _ down])
qed

end
