(* ===== verification/EmailExample.thy ===== *)
theory EmailExample
  imports Client "HOL-Library.Word"
begin

unbundle bit_operations_syntax

text \<open>
  The example program (\<^verbatim>\<open>examples/email\<close>): its delivery stub, its worker, the middleware that counts
  deliveries per queue and what it enqueues.
\<close>

section \<open>Delivery\<close>

text \<open>FNV-1a with 32 bits, as package hash/fnv computes it.\<close>

definition fnv32a :: "string \<Rightarrow> 32 word" where
  "fnv32a s = fold (\<lambda>c h. (h XOR of_nat (of_char c)) * 16777619) s 2166136261"

definition isFlaky :: "string \<Rightarrow> bool" where
  "isFlaky to \<longleftrightarrow> fnv32a to mod 3 = 0"

definition deliver :: "string \<Rightarrow> int \<Rightarrow> go_error option" where
  "deliver to attempt =
     (if isFlaky to \<and> attempt \<le> 1 then Some (Text (''delivery: smtp timeout sending to '' @ to)) else None)"

record send_welcome_email =
  email_To :: string
  email_Template :: string

definition email_args :: "send_welcome_email \<Rightarrow> job_args" where
  "email_args a = \<lparr>ja_Kind = ''send_welcome_email'',
     ja_Marshal = Inr (JObj [(''to'', JStr (email_To a)), (''template'', JStr (email_Template a))])\<rparr>"

definition EmailWorker_Work :: "send_welcome_email \<Rightarrow> int \<Rightarrow> go_error option" where
  "EmailWorker_Work a attempt =
     (case deliver (email_To a) attempt of
        Some err \<Rightarrow>
          Some (Wrapf (''send '' @ email_Template a @ '' to '' @ email_To a @ '' (attempt '' @ itoa attempt @ '')'') [err])
      | None \<Rightarrow> None)"

section \<open>Counting\<close>

type_synonym queue_counts = "(string \<times> int) list"

definition record_delivery :: "string \<Rightarrow> queue_counts \<Rightarrow> queue_counts" where
  "record_delivery queue n = AList.update queue ((case map_of n queue of Some k \<Rightarrow> k | None \<Rightarrow> 0) + 1) n"

text \<open>The middleware around a handler that has given its result.\<close>

definition perQueueCounts :: "string \<Rightarrow> go_error option \<Rightarrow> queue_counts \<Rightarrow> queue_counts" where
  "perQueueCounts queue err n = (if err = None then record_delivery queue n else n)"

section \<open>Enqueueing\<close>

definition recipientCount :: nat where "recipientCount = 20"
definition digestQueue :: string where "digestQueue = ''digests''"
definition digestDelay :: duration where "digestDelay = 5 * second"

definition recipient :: "nat \<Rightarrow> string" where
  "recipient i = ''user'' @ itoa (int i) @ ''@example.com''"

text \<open>The loop from recipient \<open>i\<close> on, with the count it will report; an insert that fails ends it.\<close>

fun enqueue_from ::
  "('e, 's) driver_ops \<Rightarrow> client \<Rightarrow> bool \<Rightarrow> (nat \<Rightarrow> 'e) \<Rightarrow> nat list \<Rightarrow> nat \<Rightarrow> signals \<times> 's \<Rightarrow>
   (go_error + nat) \<times> signals \<times> 's" where
  "enqueue_from ops c notifier env [] flaky st = (Inr flaky, st)"
| "enqueue_from ops c notifier env (i # is) flaky st =
     (let to = recipient i; flaky' = (if isFlaky to then flaky + 1 else flaky)
      in case c_Insert ops c notifier (env i) (Some (email_args \<lparr>email_To = to, email_Template = ''welcome''\<rparr>)) None st of
           (Inl err, st') \<Rightarrow> (Inl err, st')
         | (Inr _, st') \<Rightarrow> enqueue_from ops c notifier env is flaky' st')"

definition enqueueBatch ::
  "('e, 's) driver_ops \<Rightarrow> client \<Rightarrow> bool \<Rightarrow> (nat \<Rightarrow> 'e) \<Rightarrow> signals \<times> 's \<Rightarrow> (go_error + nat) \<times> signals \<times> 's" where
  "enqueueBatch ops c notifier env st = enqueue_from ops c notifier env [1..<Suc recipientCount] 0 st"

definition enqueueDigest ::
  "('e, 's) driver_ops \<Rightarrow> client \<Rightarrow> bool \<Rightarrow> 'e \<Rightarrow> time \<Rightarrow> signals \<times> 's \<Rightarrow> go_error option \<times> signals \<times> 's" where
  "enqueueDigest ops c notifier e now st =
     (case c_Insert ops c notifier e
         (Some (email_args \<lparr>email_To = ''digest-subscribers@example.com'', email_Template = ''digest''\<rparr>))
         (Some \<lparr>io_Queue = digestQueue, io_ScheduledAt = now + digestDelay, io_UniqueKey = []\<rparr>) st of
        (Inl err, st') \<Rightarrow> (Some err, st')
      | (Inr _, st') \<Rightarrow> (None, st'))"

section \<open>What a reader can know beforehand\<close>

text \<open>The addresses that fail once, computed.\<close>

lemma flaky_recipients: "filter (\<lambda>i. isFlaky (recipient i)) [1..<Suc recipientCount] = [1, 2, 3, 4, 6, 11, 13, 17, 18, 20]"
  by code_simp

text \<open>Nobody is left without an email after the second attempt.\<close>

lemma delivered_by_second_attempt: "2 \<le> attempt \<Longrightarrow> EmailWorker_Work a attempt = None"
  by (simp add: EmailWorker_Work_def deliver_def)

lemma enqueue_from_flaky:
  "enqueue_from ops c notifier env is flaky st = (Inr n, st') \<Longrightarrow> n = flaky + length (filter (\<lambda>i. isFlaky (recipient i)) is)"
proof (induction "is" arbitrary: flaky st)
  case (Cons i "is")
  define flaky' where "flaky' = (if isFlaky (recipient i) then flaky + 1 else flaky)"
  obtain row st1 where "c_Insert ops c notifier (env i)
      (Some (email_args \<lparr>email_To = recipient i, email_Template = ''welcome''\<rparr>)) None st = (Inr row, st1)"
    using Cons.prems by (auto simp: Let_def split: prod.splits sum.splits)
  then have "enqueue_from ops c notifier env is flaky' st1 = (Inr n, st')"
    using Cons.prems by (simp add: Let_def flaky'_def)
  from Cons.IH[OF this] show ?case by (simp add: flaky'_def)
qed simp

text \<open>The report of the batch is right: that many of its jobs fail their first attempt and no other.\<close>

lemma enqueueBatch_report:
  assumes "enqueueBatch ops c notifier env st = (Inr n, st')"
  shows "n = length (filter (\<lambda>i. deliver (recipient i) 1 \<noteq> None) [1..<Suc recipientCount])" "n = 10"
proof -
  have n: "n = length (filter (\<lambda>i. isFlaky (recipient i)) [1..<Suc recipientCount])"
    using enqueue_from_flaky[OF assms[unfolded enqueueBatch_def]] by simp
  then show "n = length (filter (\<lambda>i. deliver (recipient i) 1 \<noteq> None) [1..<Suc recipientCount])" by (simp add: deliver_def)
  show "n = 10" using n unfolding flaky_recipients by simp
qed

end
