(* ===== verification/Spec2Isabelle.thy ===== *)
theory Spec2Isabelle
  imports Lifecycle PgRows Outcome Queues Cron Contract Worker Client Loop Scheduler PgSession Pool Telemetry Inspector Migrations Cli Bench EmailExample
begin

text \<open>
  \<^bold>\<open>The program.\<close> Drover is a task queue on PostgreSQL written in Go. A client inserts jobs, alone, in
  batches or inside a transaction of the caller. A pool of workers claims due jobs under leases,
  runs the registered handler through a chain of middleware and records the outcome: completed,
  due again, put off, cancelled or dead. A heartbeat renews the leases of the jobs in hand, a rescuer
  returns the jobs whose lease ran out, a scheduler that one process is elected to run enqueues
  periodic jobs, and a refresher publishes gauges. Operators read and change jobs through a command
  line and a status page. All of it stands on the interface \<^verbatim>\<open>driver.Driver\<close>, which has an in-memory
  and a PostgreSQL implementation. The fence of the whole protocol is the lease, the pair of a job's
  id and attempt number: a Mark is accepted only from the lease that holds the row.

  \<^bold>\<open>Conventions.\<close> An instant is the number of nanoseconds since the zero time of Go, as an \<^typ>\<open>int\<close>. Go
  maps are association lists or lists of keys, and where the order of a range over a map matters it
  is an argument. A call that can fail returns a sum type, \<^term>\<open>Inl\<close> the error, beside the new state; a
  panic is a value of its own. Words are used where the code relies on a width (the bit fields of
  cron, the sums of queue weights, the hash of the example); columns of 32 bits are integers with
  their range checked. Names follow the source, with a prefix \<open>mem_\<close>, \<open>pg_\<close>, \<open>q_\<close>, \<open>c_\<close>, \<open>in_\<close> for methods of the
  in-memory driver, the PostgreSQL driver, the SQL statements, the client and the inspector. What
  the code cannot know is an argument of the definitions: readings of the clock, random draws,
  failures of calls, rows locked by others, and what other goroutines, sessions or processes do
  in between (\<open>gap\<close>, \<open>others\<close>, \<^typ>\<open>sql_env\<close>, \<^typ>\<open>'e moment\<close>).
\<close>

text \<open>
  \<^bold>\<open>The theories and the code.\<close>

  \<^item> \<^theory_text>\<open>Prelude\<close>: time, results, Go maps and sorting.
  \<^item> \<^theory_text>\<open>GoText\<close>, \<^theory_text>\<open>GoTime\<close>, \<^theory_text>\<open>Flags\<close>: what the program uses of the packages strings, strconv, time and flag; the
    calendar and the printed forms of instants and numbers come with round trips.
  \<^item> \<^theory_text>\<open>Driver\<close> (\<^verbatim>\<open>internal/driver/driver.go\<close>, \<^verbatim>\<open>job.go\<close>): rows, leases, errors, and the effect the contract
    documents for each method as a function on the abstract map of rows (\<^const>\<open>guarded\<close>, \<^const>\<open>picks\<close>, \<^const>\<open>extended\<close>).
  \<^item> \<^theory_text>\<open>MemDriver\<close> (\<^verbatim>\<open>internal/memdriver/memdriver.go\<close>): every method as one atomic step on \<^typ>\<open>mem_store\<close>; the
    invariant \<^const>\<open>store_wf\<close> is kept and each method has the effect of the contract.
  \<^item> \<^theory_text>\<open>Lifecycle\<close>: sequences of calls on the in-memory driver: which steps a row can take, that a recorded
    attempt is final, unique slots, and the two ways an attempt number is issued twice.
  \<^item> \<^theory_text>\<open>Sql\<close>, \<^theory_text>\<open>PgDriver\<close> (\<^verbatim>\<open>internal/dbsqlc/queries.sql.go\<close>, \<^verbatim>\<open>internal/pgdriver/pgdriver.go\<close>): the statements as atomic functions
    on \<^typ>\<open>db_table\<close>, and the methods over them with failures and interference between statements.
  \<^item> \<^theory_text>\<open>PgRows\<close>: the invariant \<^const>\<open>table_wf\<close> and its preservation, the effect of each PostgreSQL method on the rows
    (\<^const>\<open>db_abs\<close>), claims that overlap in time, and the equivalence of the two drivers (\<^const>\<open>mem_of\<close>).
  \<^item> \<^theory_text>\<open>Contract\<close>: the interface \<^typ>\<open>('e, 's) driver_ops\<close> and the locale \<open>driver_contract\<close> with its laws, which both
    drivers fulfil (the interpretation \<open>mem\<close> and the lemma \<open>pg_contract\<close>, which needs a documented property of
    the server). Everything above is written over the interface, and proved once from the laws.
  \<^item> \<^theory_text>\<open>PgSession\<close> (\<^verbatim>\<open>internal/pgdriver/pgdriver.go\<close>): leader election by a session lock, and notifications.
  \<^item> \<^theory_text>\<open>Migrations\<close> (\<^verbatim>\<open>internal/migrate/migrate.go\<close>, \<^verbatim>\<open>migrate.go\<close>): loading, ordering and applying the scripts.
  \<^item> \<^theory_text>\<open>Outcome\<close> (\<^verbatim>\<open>errors.go\<close>, \<^verbatim>\<open>retry.go\<close>): what a worker's error asks for, through any wrapping, and the retry schedule.
  \<^item> \<^theory_text>\<open>Worker\<close> (\<^verbatim>\<open>worker.go\<close>, \<^verbatim>\<open>middleware.go\<close>, \<^verbatim>\<open>metrics.go\<close>, \<^verbatim>\<open>loop.go\<close>): registration, the chain around a handler, and an
    execution with its recovered panics and its records.
  \<^item> \<^theory_text>\<open>Queues\<close> (\<^verbatim>\<open>queues.go\<close>): the checked weights and the random order of one fetch round.
  \<^item> \<^theory_text>\<open>Cron\<close> (\<^verbatim>\<open>internal/cron/cron.go\<close>): parsing of schedules and their next instants.
  \<^item> \<^theory_text>\<open>Client\<close> (\<^verbatim>\<open>client.go\<close>, \<^verbatim>\<open>periodic.go\<close>): the normalised configuration and the inserts.
  \<^item> \<^theory_text>\<open>Loop\<close> (\<^verbatim>\<open>loop.go\<close>, \<^verbatim>\<open>inflight.go\<close>, \<^verbatim>\<open>heartbeat.go\<close>, \<^verbatim>\<open>rescue.go\<close>): one claimed job from claim to recorded outcome, the
    renewal of leases, and the rescue sweep.
  \<^item> \<^theory_text>\<open>Pool\<close> (\<^verbatim>\<open>pool.go\<close>, \<^verbatim>\<open>loop.go\<close>): the fetch loop and its workers as one transition system
    (\<^const>\<open>pool_reach\<close>), with every call of the rest of the world interleaved, and the shutdown.
  \<^item> \<^theory_text>\<open>Scheduler\<close> (\<^verbatim>\<open>scheduler.go\<close>): the turns of the elected process over the periodic jobs.
  \<^item> \<^theory_text>\<open>Telemetry\<close> (\<^verbatim>\<open>stats.go\<close>, \<^verbatim>\<open>ops.go\<close>): gauges, readiness and the ops server.
  \<^item> \<^theory_text>\<open>Inspector\<close>, \<^theory_text>\<open>Web\<close>, \<^theory_text>\<open>Cli\<close> (\<^verbatim>\<open>inspector.go\<close>, \<^verbatim>\<open>cmd/drover\<close>): the operator API, the status page and the command
    line, over any store that fulfils the locale \<open>operator_reads\<close>, which both drivers do.
  \<^item> \<^theory_text>\<open>Bench\<close>, \<^theory_text>\<open>EmailExample\<close> (\<^verbatim>\<open>cmd/drover-bench\<close>, \<^verbatim>\<open>examples/email\<close>): the benchmark's arguments, inserts, counters and
    percentiles (the locale \<open>batch_inserter\<close>, fulfilled by both drivers), and the example program.
\<close>

text \<open>
  \<^bold>\<open>What is shown.\<close>

  \<^item> Storage: both drivers keep their invariants and implement the contract on every branch, under any
    failure of a call. They agree on inserts, operator actions and reads, except for one redrive.
    Two claims never hand out one job; a finished job stays finished; a job is never lost.
  \<^item> Workers: an attempt ends in exactly one recorded outcome, decided by its verdict. Slots, claimed
    jobs and workers add up at every moment, the leases in hand are the ones the heartbeat renews, a
    renewed lease is safe from rescue, and a stopping pool drains in a bounded number of its steps or
    hands its jobs back. A rescue sweep ends and takes the jobs that expired first.
  \<^item> End to end: a job that is enqueued is claimed with its arguments and completed (below).
  \<^item> Scheduling: the next instant of a schedule is the least one that matches, every fire in the window
    of a turn is enqueued once, and there is one leader.
  \<^item> Operators: each command, and each request to the status page, makes the one change it names and
    no other; gauges show the reading without gaps. Migrations run in order, each exactly once.
  \<^item> What the code gets wrong is proved as well: attempt numbers issued twice after a snooze and after
    a redrive, a redrive that breaks uniqueness, a scheduler turn that does not end, and a parser
    that panics on a huge step.

  \<^bold>\<open>Loops and bounds.\<close> Loops are structural recursion or functions with a termination measure. The
  rescue sweep has the source's own bound of ten rounds of a hundred rows, and the scan for the next
  minute its bound \<^const>\<open>maxScanMinutes\<close>. Three loops of the source need not end (\<^const>\<open>addBits\<close>, \<^const>\<open>every_loop\<close>
  and \<^const>\<open>tickLoop\<close>): they are partial functions, \<^term>\<open>None\<close> for a loop that runs forever, and the theorems
  say when they return. There is no fuel. The loops of goroutines are step relations; the drain of
  the pool is bounded by a measure of its state.

  \<^bold>\<open>Idealisations.\<close> Retry waits are computed over the reals, gauges are exact numbers, and texts of errors are
  abridged to their fixed parts. The server's conversions (\<^typ>\<open>pg_service\<close>), the time zone database, the
  encoding of JSON, the page template, the checks of the metrics library and user code (handlers,
  middleware, policies) are parameters. A statement is atomic, and a step of the pool that makes
  several calls to the store makes them together.

  \<^bold>\<open>Not modelled.\<close>

  \<^item> \<^verbatim>\<open>doc.go\<close>, \<^verbatim>\<open>internal/dbsqlc/db.go\<close>, \<^verbatim>\<open>cmd/drover/print.go\<close>, \<^verbatim>\<open>cmd/drover/db.go\<close> and
    \<^verbatim>\<open>cmd/drover/inspector.go\<close>: comments, generated plumbing, print helpers, the opening of a
    connection pool, and an interface; none holds a decision of its own.
  \<^item> \<^verbatim>\<open>internal/testdb\<close>: starts containers for the integration tests.
  \<^item> The text of log records, standard error and usage; sockets and the transport of HTTP.
  \<^item> The driving of a benchmark run by the wall clock with its printed report, and the start-up of
    the example program with its wait for a signal: they only sequence what is modelled.
\<close>

section \<open>From enqueueing to completion\<close>

text \<open>An accepted insert of the client adds the row it returns, built from the parameters as the server
  stores them.\<close>

lemma client_insert_stores:
  assumes "table_wf t" "reliable env" "ja_Marshal a = Inr encoded" "stored_as svc (params_of a encoded opts) p"
    and out: "c_Insert (pg_ops svc) c notifier env (Some a) opts (sg, t) = (Inr row, sg', t1)"
  shows "row = jobFromParams (ID row) p (se_now env 0) \<and> db_abs t1 = (db_abs t)(ID row \<mapsto> row) \<and> table_wf t1"
proof -
  have ins: "pg_Insert svc alone env (params_of a encoded opts) t = (Inr row, t1)"
    using out assms(3) by (auto simp: c_Insert_def insertParamsFor_eq pg_ops_def split: if_splits prod.splits sum.splits)
  obtain res s' where m: "mem_Insert (se_now env 0) p (mem_of t) = (res, s')" by fastforce
  then have res: "res = Inr row" "mem_of t1 = s'" "table_wf t1"
    using pg_Insert_mem[OF assms(1,4,2)] ins by (auto split: sum.splits)
  have "row = jobFromParams (ID row) p (se_now env 0) \<and> row_of s' = (row_of (mem_of t))(ID row \<mapsto> row)"
    using m res(1) by (auto simp: mem_Insert_def jobFromParams_def Let_def AList.update_conv' fun_eq_iff split: if_splits)
  then show ?thesis using res row_of_mem_of by metis
qed

text \<open>A fetch that asks for as many rows as there are takes every eligible one.\<close>

lemma picks_all:
  assumes "picks keep key n m picked" "finite (dom m)" "int (card (dom m)) \<le> n"
    and ids: "\<And>k r. m k = Some r \<Longrightarrow> ID r = k" and r: "m k = Some r" "keep r"
  shows "r \<in> set picked"
proof -
  have sub: "eligible_rows keep m \<subseteq> ran m" by (auto simp: eligible_rows_def ran_def)
  have ran: "ran m = (\<lambda>k. the (m k)) ` dom m" by (force simp: ran_def dom_def)
  have fin: "finite (eligible_rows keep m)" using sub ran assms(2) by (simp add: finite_subset)
  have "card (eligible_rows keep m) \<le> card (dom m)"
    using card_mono[OF _ sub] card_image_le[OF assms(2)] ran assms(2) by (metis finite_imageI order_trans)
  then have len: "length picked = card (eligible_rows keep m)" using assms(1,3) by (simp add: picks_def)
  have "distinct picked" "set picked \<subseteq> eligible_rows keep m" using assms(1) by (auto simp: picks_def distinct_map)
  then have "set picked = eligible_rows keep m" using len fin by (metis card_subset_eq distinct_card)
  then show ?thesis using r by (auto simp: eligible_rows_def)
qed

lemma due_job_is_fetched:
  assumes "jsonb_objects svc" and wf: "table_wf t" and n: "int (card (dom (db_abs t))) \<le> n" "n \<le> MaxInt32"
    and env: "reliable env" "\<forall>k r. db_abs t k = Some r \<longrightarrow> Attempt r < MaxInt32"
    and row: "db_abs t k = Some row" "due queue (se_now env 0) row" "ID row \<notin> set (se_locked env)"
  shows "\<exists>got t'. drv_FetchAvailable (pg_ops svc) env queue d n t = (Inr got, t') \<and> table_wf t' \<and>
    claimRow (se_now env 0) (make_interval svc d) row \<in> set got \<and>
    db_abs t' k = Some (claimRow (se_now env 0) (make_interval svc d) row)"
proof -
  note pg = pg_contract[OF assms(1)]
  let ?keep = "\<lambda>r. due queue (se_now env 0) r \<and> ID r \<notin> set (se_locked env)"
    and ?claim = "claimRow (se_now env 0) (make_interval svc d)"
  obtain res t' where f: "drv_FetchAvailable (pg_ops svc) env queue d n t = (res, t')" by fastforce
  have "0 \<le> n" using n(1) by linarith
  then obtain picked got where pk: "picks ?keep ScheduledAt n (db_abs t) picked" "mset got = mset (map ?claim picked)"
    and t': "res = Inr got" "db_abs t' = change_rows ?claim picked (db_abs t)" "table_wf t'"
    using driver_contract.FetchAvailable[OF pg wf _ n(2) f] env unfolding fetched_def meets_def by auto
  have ids: "ID r = k" if "db_abs t k = Some r" for k r using driver_contract.stored_row[OF pg wf that] by simp
  have "row \<in> set picked"
    using picks_all[OF pk(1) driver_contract.stored_finite[OF pg wf] n(1) ids row(1)] row by blast
  then show ?thesis
    using arg_cong[OF pk(2), of set_mset] t' row(1) ids[OF row(1)] f by (auto simp: change_rows_def)
qed

lemma held_job_completes:
  assumes "jsonb_objects svc" "table_wf t" and row: "db_abs t (ID row) = Some row" "State row = Running" "Attempt row \<le> MaxInt32"
    and v: "execute (c_chain c) ctx row w = (Verdict None, w1)"
    and rel: "reliable (mo_call mo (finalizeContext c (w_now w1) ctx))"
  shows "\<exists>ev infl' t' now. runJob (pg_ops svc) c msg_of mo id ctx row (infl, w, t) = (ev, infl', w1, t') \<and>
    table_wf t' \<and> db_abs t' = (db_abs t)(ID row \<mapsto> completed_row now row)"
proof -
  obtain ev infl' w' t' where out: "runJob (pg_ops svc) c msg_of mo id ctx row (infl, w, t) = (ev, infl', w', t')"
    by (metis prod_cases4)
  have lease: "lease_Attempt (row_lease row) \<le> MaxInt32" using row(3) by (simp add: row_lease_def)
  have "w' = w1" "table_wf t'"
    "db_abs t' = snd (guarded (row_lease row) (completed_row (se_now (mo_call mo (finalizeContext c (w_now w1) ctx)) 0)) (db_abs t))"
    using driver_contract.runJob_records[OF pg_contract[OF assms(1)] _ assms(2) lease v out] rel by auto
  then show ?thesis using out row by (auto simp: guarded_def row_lease_def)
qed


definition demo_worker :: client where
  "demo_worker = demo_client\<lparr>c_chain := (\<lambda>ctx job w. (Verdict None, w))\<rparr>"


end
